(* ===== verification/Prelude.thy ===== *)
theory Prelude
  imports Main "HOL-Library.Word" "HOL-Library.Monad_Syntax" "HOL-Library.Multiset"
begin

unbundle bit_operations_syntax

text \<open>
  Shared vocabulary of the development: the machine integer types of the C and C++ sources,
  the collections the component theories put their hints into, and the facts on lists, options
  and words that more than one component needs.

  Conventions of the whole development:
  \<^item> A C function that can stop in \<open>abort()\<close>, in a failed \<open>assert\<close> or in a loop that never
    ends returns an \<open>option\<close>; \<open>None\<close> is "does not return normally".
  \<^item> A C function that returns a status code returns the code (an \<open>int\<close>) beside the new state.
  \<^item> A C++ function that throws returns a sum; \<open>Inl\<close> is the exception.
\<close>

type_synonym u8 = "8 word"
type_synonym u16 = "16 word"
type_synonym u32 = "32 word"
type_synonym u64 = "64 word"

named_theorems queue_simps "effect of the operations of queue.h on the abstract list"
named_theorems flag_simps "reading a handle flag after a flag update"
named_theorems frame_simps "parts of the state an operation leaves alone"
named_theorems inv_intros "preservation of the component invariants"

subsection \<open>Lists\<close>

lemma distinct_nth_eq [simp]:
  "distinct xs \<Longrightarrow> i < length xs \<Longrightarrow> j < length xs \<Longrightarrow> xs ! i = xs ! j \<longleftrightarrow> i = j"
  by (rule nth_eq_iff_index_eq)

lemma remove1_append_notin: "x \<notin> set xs \<Longrightarrow> remove1 x (xs @ ys) = xs @ remove1 x ys"
  by (induction xs) auto

lemma last_Cons_append: "last (x # xs @ [y]) = y"
  by simp

lemma distinct_singleton: "distinct xs \<Longrightarrow> set xs = {x} \<Longrightarrow> xs = [x]"
  by (cases xs) (auto simp: subset_singleton_iff)

subsection \<open>Options\<close>

lemma bind_Some_iff: "Option.bind m f = Some y \<longleftrightarrow> (\<exists>x. m = Some x \<and> f x = Some y)"
  by (cases m) auto

end
