(* ===== verification/Queue.thy ===== *)
theory Queue
  imports Prelude
begin

text \<open>
  The intrusive doubly linked ring of \<^verbatim>\<open>3rd/libuv/src/queue.h\<close>. A node is an address; a
  \<^verbatim>\<open>QUEUE\<close> is the pair of pointers stored at it, so the memory of all rings is one pair of
  functions. Each macro is translated statement by statement, reading and writing that memory.

  A ring with head \<open>h\<close> stands for the list of the nodes met when following \<open>QUEUE_NEXT\<close>
  from \<open>h\<close>. The theory shows that every macro has the effect on that list that its name
  promises, and that a removal works on whichever ring the node is on. The other theories use
  rings through these lists.
\<close>

subsection \<open>The macros of queue.h\<close>

record 'n rings =
  qnext :: "'n \<Rightarrow> 'n"
  qprev :: "'n \<Rightarrow> 'n"

definition set_next :: "'n \<Rightarrow> 'n \<Rightarrow> 'n rings \<Rightarrow> 'n rings" where
  "set_next q v r = r\<lparr>qnext := (qnext r)(q := v)\<rparr>"

definition set_prev :: "'n \<Rightarrow> 'n \<Rightarrow> 'n rings \<Rightarrow> 'n rings" where
  "set_prev q v r = r\<lparr>qprev := (qprev r)(q := v)\<rparr>"

definition QUEUE_EMPTY :: "'n rings \<Rightarrow> 'n \<Rightarrow> bool" where
  "QUEUE_EMPTY r q \<longleftrightarrow> q = qnext r q"

definition QUEUE_HEAD :: "'n rings \<Rightarrow> 'n \<Rightarrow> 'n" where
  "QUEUE_HEAD r q = qnext r q"

definition QUEUE_INIT :: "'n \<Rightarrow> 'n rings \<Rightarrow> 'n rings" where
  "QUEUE_INIT q r = (let r = set_next q q r in set_prev q q r)"

definition QUEUE_ADD :: "'n \<Rightarrow> 'n \<Rightarrow> 'n rings \<Rightarrow> 'n rings" where
  "QUEUE_ADD h n r =
     (let r = set_next (qprev r h) (qnext r n) r;
          r = set_prev (qnext r n) (qprev r h) r;
          r = set_prev h (qprev r n) r
      in set_next (qprev r h) h r)"

definition QUEUE_SPLIT :: "'n \<Rightarrow> 'n \<Rightarrow> 'n \<Rightarrow> 'n rings \<Rightarrow> 'n rings" where
  "QUEUE_SPLIT h q n r =
     (let r = set_prev n (qprev r h) r;
          r = set_next (qprev r n) n r;
          r = set_next n q r;
          r = set_prev h (qprev r q) r;
          r = set_next (qprev r h) h r
      in set_prev q n r)"

definition QUEUE_MOVE :: "'n \<Rightarrow> 'n \<Rightarrow> 'n rings \<Rightarrow> 'n rings" where
  "QUEUE_MOVE h n r =
     (if QUEUE_EMPTY r h then QUEUE_INIT n r
      else (let q = QUEUE_HEAD r h in QUEUE_SPLIT h q n r))"

definition QUEUE_INSERT_HEAD :: "'n \<Rightarrow> 'n \<Rightarrow> 'n rings \<Rightarrow> 'n rings" where
  "QUEUE_INSERT_HEAD h q r =
     (let r = set_next q (qnext r h) r;
          r = set_prev q h r;
          r = set_prev (qnext r q) q r
      in set_next h q r)"

definition QUEUE_INSERT_TAIL :: "'n \<Rightarrow> 'n \<Rightarrow> 'n rings \<Rightarrow> 'n rings" where
  "QUEUE_INSERT_TAIL h q r =
     (let r = set_next q h r;
          r = set_prev q (qprev r h) r;
          r = set_next (qprev r q) q r
      in set_prev h q r)"

definition QUEUE_REMOVE :: "'n \<Rightarrow> 'n rings \<Rightarrow> 'n rings" where
  "QUEUE_REMOVE q r =
     (let r = set_next (qprev r q) (qnext r q) r
      in set_prev (qnext r q) (qprev r q) r)"

text \<open>\<open>QUEUE_FOREACH\<close> visits the nodes from \<open>QUEUE_NEXT(h)\<close> on until it is back at \<open>h\<close>.\<close>

partial_function (option) QUEUE_FOREACH :: "'n rings \<Rightarrow> 'n \<Rightarrow> 'n \<Rightarrow> 'n list option" where
  "QUEUE_FOREACH r h q =
     (if q = h then Some []
      else do { qs \<leftarrow> QUEUE_FOREACH r h (qnext r q); Some (q # qs) })"

subsection \<open>Rings as lists\<close>

text \<open>\<open>seg r a xs b\<close>: from \<open>a\<close> over the nodes \<open>xs\<close> to \<open>b\<close>, neighbours point at each other.\<close>

fun seg :: "'n rings \<Rightarrow> 'n \<Rightarrow> 'n list \<Rightarrow> 'n \<Rightarrow> bool" where
  "seg r a [] b \<longleftrightarrow> qnext r a = b \<and> qprev r b = a"
| "seg r a (x # xs) b \<longleftrightarrow> qnext r a = x \<and> qprev r x = a \<and> seg r x xs b"

definition ring :: "'n rings \<Rightarrow> 'n \<Rightarrow> 'n list \<Rightarrow> bool" where
  "ring r h xs \<longleftrightarrow> distinct (h # xs) \<and> seg r h xs h"

lemma set_next_simps [simp]:
  "qnext (set_next q v r) = (qnext r)(q := v)" "qprev (set_next q v r) = qprev r"
  by (simp_all add: set_next_def)

lemma set_prev_simps [simp]:
  "qprev (set_prev q v r) = (qprev r)(q := v)" "qnext (set_prev q v r) = qnext r"
  by (simp_all add: set_prev_def)

lemma seg_append [simp]:
  "seg r a (xs @ x # ys) b \<longleftrightarrow> seg r a xs x \<and> seg r x ys b"
  by (induction xs arbitrary: a) auto

lemma seg_frame:
  "seg r a xs b \<Longrightarrow> (\<And>x. x \<in> set (a # xs) \<Longrightarrow> qnext r' x = qnext r x) \<Longrightarrow>
   (\<And>x. x \<in> set (b # xs) \<Longrightarrow> qprev r' x = qprev r x) \<Longrightarrow> seg r' a xs b"
  by (induction xs arbitrary: a) auto

lemma seg_first: "seg r a xs b \<Longrightarrow> qnext r a = hd (xs @ [b])"
  by (cases xs) auto

lemma seg_last: "seg r a xs b \<Longrightarrow> qprev r b = last (a # xs)"
  by (induction xs arbitrary: a) auto

lemma ring_last: "ring r h xs \<Longrightarrow> qprev r h = last (h # xs)"
  unfolding ring_def by (elim conjE seg_last)

lemma ring_first: "ring r h xs \<Longrightarrow> qnext r h = hd (xs @ [h])"
  unfolding ring_def by (elim conjE seg_first)

lemma ring_frame:
  "ring r h xs \<Longrightarrow>
   (\<And>x. x \<in> set (h # xs) \<Longrightarrow> qnext r' x = qnext r x \<and> qprev r' x = qprev r x) \<Longrightarrow> ring r' h xs"
  by (auto simp: ring_def intro: seg_frame)

subsection \<open>Effect of the macros on the lists\<close>

lemma QUEUE_EMPTY_ring: "ring r h xs \<Longrightarrow> QUEUE_EMPTY r h \<longleftrightarrow> xs = []"
  by (cases xs) (auto simp: QUEUE_EMPTY_def ring_def)

lemma QUEUE_HEAD_ring: "ring r h (x # xs) \<Longrightarrow> QUEUE_HEAD r h = x"
  by (simp add: QUEUE_HEAD_def ring_def)

lemma QUEUE_INIT_ring: "ring (QUEUE_INIT q r) q []"
  by (simp add: QUEUE_INIT_def ring_def)

lemma QUEUE_INIT_frame: "ring r h xs \<Longrightarrow> q \<notin> set (h # xs) \<Longrightarrow> ring (QUEUE_INIT q r) h xs"
  by (erule ring_frame) (auto simp: QUEUE_INIT_def)

lemma QUEUE_INSERT_TAIL_ring:
  assumes "ring r h xs" and "q \<notin> set (h # xs)"
  shows "ring (QUEUE_INSERT_TAIL h q r) h (xs @ [q])"
proof (cases xs rule: rev_cases)
  case Nil
  with assms show ?thesis by (auto simp: ring_def QUEUE_INSERT_TAIL_def)
next
  case (snoc ys a)
  with assms have "seg r h ys a" "qprev r h = a" by (auto simp: ring_def)
  moreover from this have "seg (QUEUE_INSERT_TAIL h q r) h ys a"
    by (elim seg_frame) (use assms snoc in \<open>auto simp: ring_def QUEUE_INSERT_TAIL_def Let_def\<close>)
  ultimately show ?thesis
    using assms snoc by (auto simp: ring_def QUEUE_INSERT_TAIL_def Let_def)
qed

lemma QUEUE_INSERT_HEAD_ring:
  assumes "ring r h xs" and "q \<notin> set (h # xs)"
  shows "ring (QUEUE_INSERT_HEAD h q r) h (q # xs)"
proof (cases xs)
  case Nil
  with assms show ?thesis by (auto simp: ring_def QUEUE_INSERT_HEAD_def Let_def)
next
  case (Cons a ys)
  with assms have "seg r a ys h" "qnext r h = a" by (auto simp: ring_def)
  moreover from this have "seg (QUEUE_INSERT_HEAD h q r) a ys h"
    by (elim seg_frame) (use assms Cons in \<open>auto simp: ring_def QUEUE_INSERT_HEAD_def Let_def\<close>)
  ultimately show ?thesis
    using assms Cons by (auto simp: ring_def QUEUE_INSERT_HEAD_def Let_def)
qed

lemma QUEUE_REMOVE_seg:
  assumes "seg r a (xs @ q # ys) b" and "distinct (a # xs @ q # ys)" and "b \<notin> set (xs @ q # ys)"
  shows "seg (QUEUE_REMOVE q r) a (xs @ ys) b"
proof -
  let ?r = "QUEUE_REMOVE q r" and ?p = "last (a # xs)" and ?n = "hd (ys @ [b])"
  have L: "seg r a xs q" "seg r q ys b" using assms(1) by auto
  have pn: "qprev r q = ?p" "qnext r q = ?n"
    by (rule seg_last [OF L(1)], rule seg_first [OF L(2)])
  have new: "qnext ?r ?p = ?n" "qprev ?r ?n = ?p"
    and old: "\<And>x. x \<noteq> ?p \<Longrightarrow> qnext ?r x = qnext r x" "\<And>x. x \<noteq> ?n \<Longrightarrow> qprev ?r x = qprev r x"
    using pn assms(2) by (auto simp: QUEUE_REMOVE_def Let_def)
  have left: "seg ?r a us p" if "xs = us @ [p]" for us p
  proof (rule seg_frame)
    show "seg r a us p" using L(1) that by simp
    show "qnext ?r x = qnext r x" if "x \<in> set (a # us)" for x
      by (rule old(1)) (use assms(2) that \<open>xs = us @ [p]\<close> in auto)
    show "qprev ?r x = qprev r x" if "x \<in> set (p # us)" for x
      by (rule old(2)) (use assms(2,3) that \<open>xs = us @ [p]\<close> in \<open>cases ys; auto\<close>)
  qed
  have right: "seg ?r n zs b" if "ys = n # zs" for n zs
  proof (rule seg_frame)
    show "seg r n zs b" using L(2) that by simp
    show "qnext ?r x = qnext r x" if "x \<in> set (n # zs)" for x
      by (rule old(1)) (use assms(2) that \<open>ys = n # zs\<close> in \<open>cases xs rule: rev_cases; auto\<close>)
    show "qprev ?r x = qprev r x" if "x \<in> set (b # zs)" for x
      by (rule old(2)) (use assms(2,3) that \<open>ys = n # zs\<close> in auto)
  qed
  show ?thesis
    using new left right by (cases xs rule: rev_cases; cases ys) auto
qed

lemma QUEUE_REMOVE_ring:
  assumes "ring r h xs" and "q \<in> set xs"
  shows "ring (QUEUE_REMOVE q r) h (remove1 q xs)"
proof -
  obtain us ys where xs: "xs = us @ q # ys" by (meson assms(2) split_list)
  with assms have "q \<notin> set us" "remove1 q xs = us @ ys"
    by (auto simp: ring_def remove1_append_notin)
  with assms xs show ?thesis
    by (auto simp: ring_def intro!: QUEUE_REMOVE_seg)
qed

text \<open>
  \<open>QUEUE_REMOVE\<close> needs no head: it touches the neighbours of the node only, so the other
  rings in memory keep their lists.
\<close>

lemma QUEUE_REMOVE_frame:
  assumes "ring r h xs" and "q \<in> set xs" and "ring r k ys" and "set (h # xs) \<inter> set (k # ys) = {}"
  shows "ring (QUEUE_REMOVE q r) k ys"
proof -
  obtain us vs where xs: "xs = us @ q # vs" by (meson assms(2) split_list)
  with assms have "seg r h us q" "seg r q vs h" by (auto simp: ring_def)
  then have pn: "qprev r q = last (h # us)" "qnext r q = hd (vs @ [h])"
    by (blast intro: seg_last, blast intro: seg_first)
  have "last (h # us) \<in> set (h # xs)" "hd (vs @ [h]) \<in> set (h # xs)"
    using last_in_set [of "h # us"] hd_in_set [of "vs @ [h]"] unfolding xs by auto
  then have "qprev r q \<notin> set (k # ys)" "qnext r q \<notin> set (k # ys)"
    using pn assms(4) by (metis disjoint_iff)+
  then show ?thesis
    by (intro ring_frame [OF assms(3)]) (auto simp: QUEUE_REMOVE_def Let_def)
qed

lemma QUEUE_INSERT_TAIL_frame:
  assumes "ring r h xs" and "ring r k ys" and "set (h # xs) \<inter> set (k # ys) = {}" and "q \<notin> set (k # ys)"
  shows "ring (QUEUE_INSERT_TAIL h q r) k ys"
proof -
  have "qprev r h = last (h # xs)"
    by (rule ring_last [OF assms(1)])
  then have "qprev r h \<notin> set (k # ys)"
    using assms(3) last_in_set [of "h # xs"] by (metis disjoint_iff list.distinct(1))
  then show ?thesis
    by (intro ring_frame [OF assms(2)]) (use assms(3,4) in \<open>auto simp: QUEUE_INSERT_TAIL_def Let_def\<close>)
qed

lemma QUEUE_INSERT_HEAD_frame:
  assumes "ring r h xs" and "ring r k ys" and "set (h # xs) \<inter> set (k # ys) = {}" and "q \<notin> set (k # ys)"
  shows "ring (QUEUE_INSERT_HEAD h q r) k ys"
proof -
  have "qnext r h = hd (xs @ [h])"
    by (rule ring_first [OF assms(1)])
  then have "qnext r h \<notin> set (k # ys)"
    using assms(3) hd_in_set [of "xs @ [h]"] by auto
  then show ?thesis
    by (intro ring_frame [OF assms(2)]) (use assms(3,4) in \<open>auto simp: QUEUE_INSERT_HEAD_def Let_def\<close>)
qed

lemma QUEUE_SPLIT_ring:
  assumes "ring r h (xs @ q # ys)" and n: "n \<notin> set (h # xs @ q # ys)"
  shows "ring (QUEUE_SPLIT h q n r) h xs \<and> ring (QUEUE_SPLIT h q n r) n (q # ys)"
proof -
  let ?r = "QUEUE_SPLIT h q n r" and ?p = "last (h # xs)" and ?l = "last (q # ys)"
  have L: "seg r h xs q" "seg r q ys h" and d: "distinct (h # xs @ q # ys)"
    using assms(1) by (auto simp: ring_def)
  have pl: "qprev r q = ?p" "qprev r h = ?l"
    by (rule seg_last [OF L(1)], rule seg_last [OF L(2)])
  have in_set: "?p \<in> set (h # xs)" "?l \<in> set (q # ys)" by auto
  have new: "qnext ?r = (qnext r)(?l := n, n := q, ?p := h)"
      "qprev ?r = (qprev r)(n := ?l, h := ?p, q := n)"
    using pl d n in_set by (auto simp: QUEUE_SPLIT_def Let_def)
  have neq: "?l \<notin> set (h # xs)" "?p \<notin> set (q # ys)" "n \<noteq> ?l" "n \<noteq> ?p" "n \<noteq> h" "n \<noteq> q" "q \<noteq> h"
    using d n in_set by (metis append_Cons disjoint_iff distinct_append, metis append_Cons disjoint_iff distinct_append,
        auto)
  have left: "seg ?r h us p" if "xs = us @ [p]" for us p
  proof (rule seg_frame)
    show "seg r h us p" using L(1) that by simp
  qed (use d n neq that new in auto)
  have right: "seg ?r q us l" if "ys = us @ [l]" for us l
  proof (rule seg_frame)
    show "seg r q us l" using L(2) that by simp
  qed (use d n neq that new in auto)
  have "seg ?r h xs h"
    using left new neq by (cases xs rule: rev_cases) auto
  moreover have "seg ?r n (q # ys) n"
    using right new neq d n by (cases ys rule: rev_cases) auto
  ultimately show ?thesis using d n by (auto simp: ring_def)
qed

lemma QUEUE_MOVE_ring:
  assumes "ring r h xs" and "n \<notin> set (h # xs)"
  shows "ring (QUEUE_MOVE h n r) h [] \<and> ring (QUEUE_MOVE h n r) n xs"
proof (cases xs)
  case Nil
  with assms show ?thesis
    by (auto simp: QUEUE_MOVE_def QUEUE_EMPTY_ring QUEUE_INIT_ring intro: QUEUE_INIT_frame)
next
  case (Cons q ys)
  with assms QUEUE_SPLIT_ring [of r h "[]" q ys n] show ?thesis
    by (simp add: QUEUE_MOVE_def QUEUE_EMPTY_ring [OF assms(1)] QUEUE_HEAD_ring)
qed

lemma QUEUE_ADD_ring:
  assumes "ring r h xs" and "ring r n ys" and dis: "set (h # xs) \<inter> set (n # ys) = {}" and "ys \<noteq> []"
  shows "ring (QUEUE_ADD h n r) h (xs @ ys)"
proof -
  let ?r = "QUEUE_ADD h n r" and ?p = "last (h # xs)" and ?l = "last ys"
  obtain f zs where ys: "ys = f # zs" using assms(4) by (cases ys) auto
  have L: "seg r h xs h" "seg r n ys n" "distinct (h # xs)" "distinct (n # ys)"
    using assms by (auto simp: ring_def)
  have pl: "qprev r h = ?p" "qprev r n = ?l" "qnext r n = f"
    using seg_last [OF L(1)] seg_last [OF L(2)] seg_first [OF L(2)] ys by auto
  have in_set: "?p \<in> set (h # xs)" "?l \<in> set ys" using ys by auto
  then have neq: "?p \<noteq> n" "?p \<notin> set ys" "?l \<noteq> h" "?l \<notin> set xs" "n \<noteq> h" "f \<noteq> h" "f \<notin> set xs" "n \<notin> set xs"
      "h \<notin> set ys" "n \<notin> set ys"
    using dis ys L by auto
  have new: "qnext ?r = (qnext r)(?p := f, ?l := h)" "qprev ?r = (qprev r)(f := ?p, h := ?l)"
    using pl neq ys by (auto simp: QUEUE_ADD_def Let_def)
  have left: "seg ?r h us p" if "xs = us @ [p]" for us p
    by (rule seg_frame [of r]) (use L that new neq ys in auto)
  have "seg ?r f us l" if "zs = us @ [l]" for us l
    by (rule seg_frame [of r]) (use L that new neq ys in auto)
  then have right: "seg ?r f zs h"
    by (cases zs rule: rev_cases) (use new ys neq in auto)
  have "seg ?r h (xs @ f # zs) h"
    using left right new neq ys by (cases xs rule: rev_cases) auto
  then show ?thesis
    using L dis ys by (auto simp: ring_def)
qed

lemma QUEUE_FOREACH_ring:
  assumes "ring r h xs" shows "QUEUE_FOREACH r h (QUEUE_HEAD r h) = Some xs"
proof -
  have "QUEUE_FOREACH r h (qnext r a) = Some ys" if "seg r a ys h" "h \<notin> set ys" for a ys
    using that by (induction ys arbitrary: a) (auto simp: QUEUE_FOREACH.simps)
  with assms show ?thesis by (auto simp: ring_def QUEUE_HEAD_def)
qed

subsection \<open>The interface the event loop relies on\<close>

text \<open>
  What a user of rings needs to know: a representation relation \<open>rep m h xs\<close> (in memory \<open>m\<close> the
  ring with head \<open>h\<close> holds the list \<open>xs\<close>) and the effect of each operation on the list of the
  ring it works on and on the lists of the rings beside it.
\<close>

locale intrusive_queue =
  fixes rep :: "'m \<Rightarrow> 'n \<Rightarrow> 'n list \<Rightarrow> bool"
    and empty :: "'m \<Rightarrow> 'n \<Rightarrow> bool"
    and head :: "'m \<Rightarrow> 'n \<Rightarrow> 'n"
    and insert_tail :: "'n \<Rightarrow> 'n \<Rightarrow> 'm \<Rightarrow> 'm"
    and remove :: "'n \<Rightarrow> 'm \<Rightarrow> 'm"
    and move :: "'n \<Rightarrow> 'n \<Rightarrow> 'm \<Rightarrow> 'm"
  assumes rep_distinct: "rep m h xs \<Longrightarrow> distinct (h # xs)"
    and empty_iff: "rep m h xs \<Longrightarrow> empty m h \<longleftrightarrow> xs = []"
    and head_Cons: "rep m h (x # xs) \<Longrightarrow> head m h = x"
    and insert_tail_rep: "rep m h xs \<Longrightarrow> q \<notin> set (h # xs) \<Longrightarrow> rep (insert_tail h q m) h (xs @ [q])"
    and insert_tail_other: "rep m h xs \<Longrightarrow> rep m k ys \<Longrightarrow> set (h # xs) \<inter> set (k # ys) = {} \<Longrightarrow>
      q \<notin> set (k # ys) \<Longrightarrow> rep (insert_tail h q m) k ys"
    and remove_rep: "rep m h xs \<Longrightarrow> q \<in> set xs \<Longrightarrow> rep (remove q m) h (remove1 q xs)"
    and remove_other: "rep m h xs \<Longrightarrow> q \<in> set xs \<Longrightarrow> rep m k ys \<Longrightarrow>
      set (h # xs) \<inter> set (k # ys) = {} \<Longrightarrow> rep (remove q m) k ys"
    and move_rep: "rep m h xs \<Longrightarrow> n \<notin> set (h # xs) \<Longrightarrow> rep (move h n m) h [] \<and> rep (move h n m) n xs"
begin

text \<open>
  One round of the loops of \<^verbatim>\<open>uv_walk\<close>, \<^verbatim>\<open>uv__run_prepare\<close> and \<^verbatim>\<open>uv__async_io\<close>: the first node of
  the local ring goes to the end of the ring of the loop.
\<close>

lemma rotate_step:
  assumes "rep m n (x # xs)" and "rep m h ys" and "set (n # x # xs) \<inter> set (h # ys) = {}"
  shows "head m n = x"
    and "rep (insert_tail h x (remove x m)) n xs"
    and "rep (insert_tail h x (remove x m)) h (ys @ [x])"
proof -
  have d: "distinct (n # x # xs)" by (rule rep_distinct [OF assms(1)])
  have n: "rep (remove x m) n xs"
    using remove_rep [OF assms(1), of x] by simp
  have h: "rep (remove x m) h ys"
    by (rule remove_other [OF assms(1) _ assms(2,3)]) simp
  show "head m n = x" by (rule head_Cons [OF assms(1)])
  show "rep (insert_tail h x (remove x m)) n xs"
    by (rule insert_tail_other [OF h n]) (use assms(3) d in auto)
  show "rep (insert_tail h x (remove x m)) h (ys @ [x])"
    by (rule insert_tail_rep [OF h]) (use assms(3) in auto)
qed

end

interpretation uvq: intrusive_queue ring QUEUE_EMPTY QUEUE_HEAD QUEUE_INSERT_TAIL QUEUE_REMOVE QUEUE_MOVE
  by unfold_locales
    (erule QUEUE_EMPTY_ring QUEUE_HEAD_ring QUEUE_INSERT_TAIL_ring QUEUE_INSERT_TAIL_frame
       QUEUE_REMOVE_ring QUEUE_REMOVE_frame QUEUE_MOVE_ring; assumption | simp add: ring_def)+

subsection \<open>A pass over a ring\<close>

text \<open>
  \<^verbatim>\<open>uv_walk\<close> (uv-common.c) over the handles of a loop, with the nodes it calls back on as its result: the
  ring moves to a local head, and its nodes go back one by one; internal handles are passed over.
\<close>

partial_function (option) walk_pass :: "('n \<Rightarrow> bool) \<Rightarrow> 'n \<Rightarrow> 'n \<Rightarrow> 'n rings \<Rightarrow> ('n list \<times> 'n rings) option" where
  "walk_pass internal h n r =
     (if QUEUE_EMPTY r n then Some ([], r)
      else (let q = QUEUE_HEAD r n;
                r = QUEUE_REMOVE q r;
                r = QUEUE_INSERT_TAIL h q r
            in do { (qs, r) \<leftarrow> walk_pass internal h n r; Some (if internal q then qs else q # qs, r) }))"

definition uv_walk :: "('n \<Rightarrow> bool) \<Rightarrow> 'n \<Rightarrow> 'n \<Rightarrow> 'n rings \<Rightarrow> ('n list \<times> 'n rings) option" where
  "uv_walk internal h n r = walk_pass internal h n (QUEUE_MOVE h n r)"

lemma walk_pass_ring:
  "ring r n xs \<Longrightarrow> ring r h ys \<Longrightarrow> set (n # xs) \<inter> set (h # ys) = {} \<Longrightarrow>
     \<exists>r'. walk_pass internal h n r = Some (filter (\<lambda>x. \<not> internal x) xs, r') \<and> ring r' n [] \<and> ring r' h (ys @ xs)"
proof (induction xs arbitrary: r ys)
  case Nil
  then show ?case by (subst walk_pass.simps) (simp add: uvq.empty_iff)
next
  case (Cons x xs)
  note step = uvq.rotate_step [OF Cons.prems]
  have "distinct (n # x # xs)" by (rule uvq.rep_distinct [OF Cons.prems(1)])
  then obtain r' where "walk_pass internal h n (QUEUE_INSERT_TAIL h x (QUEUE_REMOVE x r)) = Some (filter (\<lambda>x. \<not> internal x) xs, r')"
    and "ring r' n []" and "ring r' h ((ys @ [x]) @ xs)"
    using Cons.IH [OF step(2,3)] Cons.prems(3) by auto
  then show ?case
    by (subst walk_pass.simps) (simp add: uvq.empty_iff [OF Cons.prems(1)] step(1))
qed


subsection \<open>The properties of the rings\<close>



end
