(* ===== verification/Heap.thy ===== *)
theory Heap
  imports Prelude "HOL-Library.Multiset"
begin

text \<open>
  The binary min heap of \<^verbatim>\<open>3rd/libuv/src/heap-inl.h\<close>, which holds the timers of a loop. The heap
  is a pointer structure: every node stores its children and its parent. The functions are
  translated over that structure, with the pointers to pointers of the code (\<^verbatim>\<open>struct heap_node**\<close>)
  as locations and a null dereference as \<open>None\<close>.

  The second half relates the structure to an array: node number \<open>i\<close> (the root is 1) has the
  nodes \<open>2 * i\<close> and \<open>2 * i + 1\<close> below it. Every pointer operation is shown to have the effect of
  an array operation, and the array operations are shown to keep the order of the heap. A node
  counter of type \<^verbatim>\<open>unsigned int\<close> is a \<open>nat\<close>: a path has fewer than 32 steps, and \<open>2 ^ 32\<close> nodes do
  not fit into memory.
\<close>

subsection \<open>The code\<close>

record 'n heap_node =
  left :: "'n option"
  right :: "'n option"
  parent :: "'n option"

record 'n heap =
  hmin :: "'n option"
  nelts :: nat
  nodes :: "'n \<Rightarrow> 'n heap_node"

abbreviation hleft :: "'n heap \<Rightarrow> 'n \<Rightarrow> 'n option" where "hleft H a \<equiv> left (nodes H a)"
abbreviation hright :: "'n heap \<Rightarrow> 'n \<Rightarrow> 'n option" where "hright H a \<equiv> right (nodes H a)"
abbreviation hparent :: "'n heap \<Rightarrow> 'n \<Rightarrow> 'n option" where "hparent H a \<equiv> parent (nodes H a)"

definition set_node :: "'n \<Rightarrow> 'n heap_node \<Rightarrow> 'n heap \<Rightarrow> 'n heap" where
  "set_node a v H = H\<lparr>nodes := (nodes H)(a := v)\<rparr>"

definition set_left :: "'n \<Rightarrow> 'n option \<Rightarrow> 'n heap \<Rightarrow> 'n heap" where
  "set_left a v H = set_node a ((nodes H a)\<lparr>left := v\<rparr>) H"

definition set_right :: "'n \<Rightarrow> 'n option \<Rightarrow> 'n heap \<Rightarrow> 'n heap" where
  "set_right a v H = set_node a ((nodes H a)\<lparr>right := v\<rparr>) H"

definition set_parent :: "'n \<Rightarrow> 'n option \<Rightarrow> 'n heap \<Rightarrow> 'n heap" where
  "set_parent a v H = set_node a ((nodes H a)\<lparr>parent := v\<rparr>) H"

definition when_some :: "'a option \<Rightarrow> ('a \<Rightarrow> 's \<Rightarrow> 's) \<Rightarrow> 's \<Rightarrow> 's" where
  "when_some p f s = (case p of None \<Rightarrow> s | Some a \<Rightarrow> f a s)"

definition heap_init :: "'n heap \<Rightarrow> 'n heap" where
  "heap_init H = H\<lparr>hmin := None, nelts := 0\<rparr>"

definition heap_min :: "'n heap \<Rightarrow> 'n option" where
  "heap_min H = hmin H"

definition heap_node_swap :: "'n \<Rightarrow> 'n \<Rightarrow> 'n heap \<Rightarrow> 'n heap" where
  "heap_node_swap par child H =
     (let t = nodes H par;
          H = set_node par (nodes H child) H;
          H = set_node child t H;
          H = set_parent par (Some child) H;
          (H, sibling) =
            (if hleft H child = Some child
             then (let H = set_left child (Some par) H in (H, hright H child))
             else (let H = set_right child (Some par) H in (H, hleft H child)));
          H = when_some sibling (\<lambda>sib. set_parent sib (Some child)) H;
          H = when_some (hleft H par) (\<lambda>l. set_parent l (Some par)) H;
          H = when_some (hright H par) (\<lambda>r. set_parent r (Some par)) H
      in case hparent H child of
           None \<Rightarrow> H\<lparr>hmin := Some child\<rparr>
         | Some pp \<Rightarrow> if hleft H pp = Some par then set_left pp (Some child) H
                     else set_right pp (Some child) H)"

text \<open>Locations: what a \<^verbatim>\<open>struct heap_node**\<close> can point at.\<close>

datatype 'n loc = LMin | LLeft 'n | LRight 'n

fun deref :: "'n heap \<Rightarrow> 'n loc \<Rightarrow> 'n option" where
  "deref H LMin = hmin H"
| "deref H (LLeft a) = hleft H a"
| "deref H (LRight a) = hright H a"

fun assign :: "'n loc \<Rightarrow> 'n option \<Rightarrow> 'n heap \<Rightarrow> 'n heap" where
  "assign LMin v H = H\<lparr>hmin := v\<rparr>"
| "assign (LLeft a) v H = set_left a v H"
| "assign (LRight a) v H = set_right a v H"

text \<open>The path from the root to node number \<open>n\<close>, and the number of its steps.\<close>

function heap_path :: "nat \<Rightarrow> nat \<Rightarrow> nat \<Rightarrow> nat \<times> nat" where
  "heap_path path k n =
     (if 2 \<le> n then heap_path (2 * path + n mod 2) (k + 1) (n div 2) else (path, k))"
  by pat_completeness auto
termination by (relation "measure (\<lambda>(path, k, n). n)") auto

declare heap_path.simps [simp del]

fun heap_descend :: "'n heap \<Rightarrow> nat \<Rightarrow> nat \<Rightarrow> 'n loc \<Rightarrow> 'n loc \<Rightarrow> ('n loc \<times> 'n loc) option" where
  "heap_descend H path 0 par child = Some (par, child)"
| "heap_descend H path (Suc k) par child =
     (case deref H child of
        None \<Rightarrow> None
      | Some a \<Rightarrow> heap_descend H (path div 2) k child (if odd path then LRight a else LLeft a))"

text \<open>The loops that restore the order upwards and downwards.\<close>

partial_function (option) heap_up :: "('n \<Rightarrow> 'n \<Rightarrow> bool) \<Rightarrow> 'n \<Rightarrow> 'n heap \<Rightarrow> 'n heap option" where
  "heap_up lt node H =
     (case hparent H node of
        None \<Rightarrow> Some H
      | Some p \<Rightarrow> if lt node p then heap_up lt node (heap_node_swap p node H) else Some H)"

definition heap_smaller :: "('n \<Rightarrow> 'n \<Rightarrow> bool) \<Rightarrow> 'n option \<Rightarrow> 'n \<Rightarrow> 'n" where
  "heap_smaller lt c smallest =
     (case c of None \<Rightarrow> smallest | Some a \<Rightarrow> if lt a smallest then a else smallest)"

partial_function (option) heap_down :: "('n \<Rightarrow> 'n \<Rightarrow> bool) \<Rightarrow> 'n \<Rightarrow> 'n heap \<Rightarrow> 'n heap option" where
  "heap_down lt child H =
     (let smallest = child;
          smallest = heap_smaller lt (hleft H child) smallest;
          smallest = heap_smaller lt (hright H child) smallest
      in if smallest = child then Some H
         else heap_down lt child (heap_node_swap child smallest H))"

declare heap_up.simps [code] heap_down.simps [code]

definition heap_insert :: "'n \<Rightarrow> ('n \<Rightarrow> 'n \<Rightarrow> bool) \<Rightarrow> 'n heap \<Rightarrow> 'n heap option" where
  "heap_insert newnode lt H =
     (let H = set_node newnode \<lparr>left = None, right = None, parent = None\<rparr> H;
          (path, k) = heap_path 0 0 (1 + nelts H)
      in do {
        (par, child) \<leftarrow> heap_descend H path k LMin LMin;
        let H = set_parent newnode (deref H par) H;
        let H = assign child (Some newnode) H;
        let H = H\<lparr>nelts := nelts H + 1\<rparr>;
        heap_up lt newnode H
      })"

text \<open>The last node takes the place of a removed one.\<close>

definition heap_replace :: "'n \<Rightarrow> 'n \<Rightarrow> 'n heap \<Rightarrow> 'n heap" where
  "heap_replace node child H =
     (let H = set_left child (hleft H node) H;
          H = set_right child (hright H node) H;
          H = set_parent child (hparent H node) H;
          H = when_some (hleft H child) (\<lambda>l. set_parent l (Some child)) H;
          H = when_some (hright H child) (\<lambda>r. set_parent r (Some child)) H
      in case hparent H node of
           None \<Rightarrow> H\<lparr>hmin := Some child\<rparr>
         | Some p \<Rightarrow> if hleft H p = Some node then set_left p (Some child) H
                    else set_right p (Some child) H)"

definition heap_remove :: "'n \<Rightarrow> ('n \<Rightarrow> 'n \<Rightarrow> bool) \<Rightarrow> 'n heap \<Rightarrow> 'n heap option" where
  "heap_remove node lt H =
     (if nelts H = 0 then Some H
      else (let (path, k) = heap_path 0 0 (nelts H) in do {
        (_, max) \<leftarrow> heap_descend H path k LMin LMin;
        let H = H\<lparr>nelts := nelts H - 1\<rparr>;
        child \<leftarrow> deref H max;
        let H = assign max None H;
        if child = node then Some (if hmin H = Some child then H\<lparr>hmin := None\<rparr> else H)
        else do {
          let H = heap_replace node child H;
          H \<leftarrow> heap_down lt child H;
          heap_up lt child H
        }
      }))"

definition heap_dequeue :: "('n \<Rightarrow> 'n \<Rightarrow> bool) \<Rightarrow> 'n heap \<Rightarrow> 'n heap option" where
  "heap_dequeue lt H =
     (case hmin H of None \<Rightarrow> if nelts H = 0 then Some H else None | Some a \<Rightarrow> heap_remove a lt H)"

subsection \<open>The heap as an array\<close>

text \<open>\<open>slot f n j\<close>: the pointer to node number \<open>j\<close> of the array \<open>f\<close> of \<open>n\<close> nodes.\<close>

definition slot :: "(nat \<Rightarrow> 'n) \<Rightarrow> nat \<Rightarrow> nat \<Rightarrow> 'n option" where
  "slot f n j = (if 1 \<le> j \<and> j \<le> n then Some (f j) else None)"

definition cell :: "(nat \<Rightarrow> 'n) \<Rightarrow> nat \<Rightarrow> nat \<Rightarrow> 'n heap_node" where
  "cell f n i = \<lparr>left = slot f n (2 * i), right = slot f n (2 * i + 1), parent = slot f n (i div 2)\<rparr>"

definition rep :: "'n heap \<Rightarrow> (nat \<Rightarrow> 'n) \<Rightarrow> nat \<Rightarrow> bool" where
  "rep H f n \<longleftrightarrow> inj_on f {1..n} \<and> nelts H = n \<and> hmin H = slot f n 1 \<and>
     (\<forall>i\<in>{1..n}. nodes H (f i) = cell f n i)"

definition swap :: "nat \<Rightarrow> nat \<Rightarrow> (nat \<Rightarrow> 'n) \<Rightarrow> nat \<Rightarrow> 'n" where
  "swap i j f = f(i := f j, j := f i)"

lemma slot_simps [simp]:
  "1 \<le> j \<Longrightarrow> j \<le> n \<Longrightarrow> slot f n j = Some (f j)" "slot f n 0 = None" "n < j \<Longrightarrow> slot f n j = None"
  by (auto simp: slot_def)

lemma cell_simps [simp]:
  "left (cell f n i) = slot f n (2 * i)" "right (cell f n i) = slot f n (2 * i + 1)"
  "parent (cell f n i) = slot f n (i div 2)"
  by (simp_all add: cell_def)

lemma rep_inj: "rep H f n \<Longrightarrow> 1 \<le> i \<Longrightarrow> i \<le> n \<Longrightarrow> 1 \<le> j \<Longrightarrow> j \<le> n \<Longrightarrow> f i = f j \<longleftrightarrow> i = j"
  using inj_on_eq_iff [of f "{1..n}" i j] by (auto simp only: rep_def atLeastAtMost_iff)

lemma rep_node: "rep H f n \<Longrightarrow> 1 \<le> i \<Longrightarrow> i \<le> n \<Longrightarrow> nodes H (f i) = cell f n i"
  by (auto simp: rep_def)

lemma rep_slot_eq:
  "rep H f n \<Longrightarrow> 1 \<le> i \<Longrightarrow> i \<le> n \<Longrightarrow> slot f n j = Some (f i) \<longleftrightarrow> j = i"
  using rep_inj [of H f n j i] by (auto simp: slot_def)

lemma rep_slot_inj: "rep H f n \<Longrightarrow> slot f n i = Some x \<Longrightarrow> slot f n j = Some x \<Longrightarrow> i = j"
  using rep_inj [of H f n i j] by (auto simp: slot_def split: if_splits)

lemma swap_image: "i \<in> A \<Longrightarrow> j \<in> A \<Longrightarrow> swap i j f ` A = f ` A"
proof -
  assume A: "i \<in> A" "j \<in> A"
  have "f x \<in> swap i j f ` A" if "x \<in> A" for x
  proof -
    have "f x = swap i j f (if x = i then j else if x = j then i else x)" by (simp add: swap_def)
    then show ?thesis using that A by (metis (full_types) image_eqI)
  qed
  then show ?thesis using A by (auto simp: swap_def)
qed

lemma swap_inj: "i \<in> A \<Longrightarrow> j \<in> A \<Longrightarrow> inj_on f A \<Longrightarrow> inj_on (swap i j f) A"
  by (auto simp: swap_def inj_on_def)

text \<open>\<open>heap_node_swap\<close> exchanges a node with the node above it.\<close>

lemma when_some_simps [simp]:
  "when_some None f s = s" "when_some (Some a) f s = f a s"
  by (simp_all add: when_some_def)

lemma set_simps [simp]:
  "nodes (set_node a v H) = (nodes H)(a := v)" "hmin (set_node a v H) = hmin H" "nelts (set_node a v H) = nelts H"
  "nodes (set_left a p H) = (nodes H)(a := (nodes H a)\<lparr>left := p\<rparr>)" "hmin (set_left a p H) = hmin H"
  "nelts (set_left a p H) = nelts H"
  "nodes (set_right a p H) = (nodes H)(a := (nodes H a)\<lparr>right := p\<rparr>)" "hmin (set_right a p H) = hmin H"
  "nelts (set_right a p H) = nelts H"
  "nodes (set_parent a p H) = (nodes H)(a := (nodes H a)\<lparr>parent := p\<rparr>)" "hmin (set_parent a p H) = hmin H"
  "nelts (set_parent a p H) = nelts H"
  by (auto simp: set_node_def set_left_def set_right_def set_parent_def)

lemma when_set_parent:
  "nodes (when_some p (\<lambda>a. set_parent a v) H) =
     (\<lambda>x. if p = Some x then (nodes H x)\<lparr>parent := v\<rparr> else nodes H x)"
  "hmin (when_some p (\<lambda>a. set_parent a v) H) = hmin H" "nelts (when_some p (\<lambda>a. set_parent a v) H) = nelts H"
  by (cases p; auto)+

lemma heap_node_swap_rep:
  assumes R: "rep H f n" and c: "2 \<le> c" "c \<le> n"
  shows "rep (heap_node_swap (f (c div 2)) (f c) H) (swap (c div 2) c f) n"
proof -
  define p where "p = c div 2"
  define d where "d = (if even c then c + 1 else c - 1)"
  have p: "1 \<le> p" "p \<le> n" "p < c" and pc: "c = 2 * p \<or> c = 2 * p + 1" and d: "d div 2 = p" "d \<noteq> c" "1 < d" "d \<noteq> p"
    using c by (auto simp: p_def d_def elim!: oddE evenE)
  note nd = rep_node [OF R] and eq = rep_inj [OF R] and seq = rep_slot_eq [OF R]
  let ?P = "f p" and ?C = "f c" and ?H = "heap_node_swap (f p) (f c) H" and ?g = "swap p c f"
  have "?P \<noteq> ?C" using eq p c by simp
  have sib: "(if even c then slot f n (2 * p + 1) else slot f n (2 * p)) = slot f n d"
    using pc by (auto simp: d_def)
  define H1 where "H1 = set_parent ?P (Some ?C) (set_node ?C (nodes H ?P) (set_node ?P (nodes H ?C) H))"
  have N1: "nodes H1 = (nodes H)(?C := cell f n p, ?P := (cell f n c)\<lparr>parent := Some ?C\<rparr>)"
    using \<open>?P \<noteq> ?C\<close> p c by (auto simp: H1_def nd fun_upd_twist)
  define H2 where "H2 = (if even c then set_left ?C (Some ?P) H1 else set_right ?C (Some ?P) H1)"
  have N2: "nodes H2 = (nodes H)(?P := (cell f n c)\<lparr>parent := Some ?C\<rparr>,
      ?C := \<lparr>left = if even c then Some ?P else slot f n d,
             right = if even c then slot f n d else Some ?P, parent = slot f n (p div 2)\<rparr>)"
    using \<open>?P \<noteq> ?C\<close> pc by (auto simp: H2_def N1 fun_upd_twist cell_def d_def)
  have 1: "hleft H1 ?C = Some ?C \<longleftrightarrow> even c"
    using \<open>?P \<noteq> ?C\<close> pc c by (auto simp: N1 seq)
  have C2: "hleft H2 ?C = (if even c then Some ?P else slot f n d)"
      "hright H2 ?C = (if even c then slot f n d else Some ?P)"
    by (auto simp: N2)
  have sd: "slot f n d \<noteq> Some ?P" "slot f n d \<noteq> Some ?C"
    using d p c by (auto simp: seq)
  have sc: "slot f n (2 * c) \<noteq> Some ?P" "slot f n (2 * c) \<noteq> Some ?C"
     "slot f n (2 * c + 1) \<noteq> Some ?P" "slot f n (2 * c + 1) \<noteq> Some ?C"
    using p c by (auto simp: seq)
  define H3 where "H3 = when_some (slot f n d) (\<lambda>sib. set_parent sib (Some ?C)) H2"
  have N3: "hleft H3 ?P = slot f n (2 * c)" "hright H3 ?P = slot f n (2 * c + 1)"
    using sd \<open>?P \<noteq> ?C\<close> by (auto simp: H3_def when_set_parent N2)
  define H4 where "H4 = when_some (slot f n (2 * c)) (\<lambda>l. set_parent l (Some ?P)) H3"
  have N4: "hright H4 ?P = slot f n (2 * c + 1)"
    using sc N3 by (simp add: H4_def when_set_parent)
  define H5 where "H5 = when_some (slot f n (2 * c + 1)) (\<lambda>r. set_parent r (Some ?P)) H4"
  have N5: "nodes H5 x = (if slot f n (2 * c + 1) = Some x \<or> slot f n (2 * c) = Some x
      then (nodes H2 x)\<lparr>parent := Some ?P\<rparr>
      else if slot f n d = Some x then (nodes H2 x)\<lparr>parent := Some ?C\<rparr> else nodes H2 x)" for x
  proof -
    have "slot f n d \<noteq> Some x" if "slot f n (2 * c + 1) = Some x \<or> slot f n (2 * c) = Some x"
    proof -
      have "2 * c + 1 \<noteq> d" "2 * c \<noteq> d" using d p pc by auto
      with that show ?thesis
        using rep_slot_inj [OF R, of "2 * c + 1" x d] rep_slot_inj [OF R, of "2 * c" x d] by blast
    qed
    then show ?thesis by (auto simp: H5_def H4_def H3_def when_set_parent)
  qed
  have H5': "?H = (case hparent H5 ?C of None \<Rightarrow> H5\<lparr>hmin := Some ?C\<rparr>
         | Some pp \<Rightarrow> if hleft H5 pp = Some ?P then set_left pp (Some ?C) H5
                     else set_right pp (Some ?C) H5)"
  proof (cases "even c")
    case True
    have e: "set_left ?C (Some ?P) H1 = H2" by (simp add: H2_def True)
    show ?thesis
      unfolding heap_node_swap_def Let_def H1_def [symmetric]
      by (simp only: 1 True if_True e prod.case C2 H3_def [symmetric] N3 H4_def [symmetric] N4 H5_def [symmetric])
  next
    case False
    have e: "set_right ?C (Some ?P) H1 = H2" by (simp add: H2_def False)
    show ?thesis
      unfolding heap_node_swap_def Let_def H1_def [symmetric]
      by (simp only: 1 False if_False e prod.case C2 H3_def [symmetric] N3 H4_def [symmetric] N4 H5_def [symmetric])
  qed
  have inC: "nodes H5 ?C = nodes H2 ?C" "nodes H5 ?P = nodes H2 ?P"
    using sd sc by (auto simp: N5)
  have NH: "nodes ?H x = (if p \<noteq> 1 \<and> x = f (p div 2)
      then (if even p then (nodes H5 x)\<lparr>left := Some ?C\<rparr> else (nodes H5 x)\<lparr>right := Some ?C\<rparr>) else nodes H5 x)"
    and min: "hmin ?H = (if p = 1 then Some ?C else hmin H)" and ne: "nelts ?H = nelts H" for x
  proof -
    have par: "hparent H5 ?C = slot f n (p div 2)" by (simp add: inC N2)
    have lft: "hleft H5 (f (p div 2)) = Some ?P \<longleftrightarrow> even p" if "p \<noteq> 1"
    proof -
      have q: "1 \<le> p div 2" "p div 2 \<le> n" "f (p div 2) \<noteq> ?P" "f (p div 2) \<noteq> ?C"
        using that p c eq by auto
      then have "hleft H5 (f (p div 2)) = slot f n (2 * (p div 2))"
        by (simp add: N5 N2 nd)
      with p have "hleft H5 (f (p div 2)) = Some ?P \<longleftrightarrow> 2 * (p div 2) = p" by (simp add: seq)
      then show ?thesis by presburger
    qed
    have 5: "hmin H5 = hmin H" "nelts H5 = nelts H"
      by (simp_all add: H5_def H4_def H3_def H2_def H1_def when_set_parent)
    have "nodes ?H x = (if p \<noteq> 1 \<and> x = f (p div 2)
        then (if even p then (nodes H5 x)\<lparr>left := Some ?C\<rparr> else (nodes H5 x)\<lparr>right := Some ?C\<rparr>) else nodes H5 x)
      \<and> hmin ?H = (if p = 1 then Some ?C else hmin H) \<and> nelts ?H = nelts H" (is ?goal)
    proof (cases "p = 1")
      case True
      then have "?H = H5\<lparr>hmin := Some ?C\<rparr>" unfolding H5' par by simp
      with True 5 show ?goal by simp
    next
      case False
      then have "slot f n (p div 2) = Some (f (p div 2))"
        using p div_le_dividend [of p 2] by (auto simp: slot_def)
      then have "?H = (if even p then set_left (f (p div 2)) (Some ?C) H5 else set_right (f (p div 2)) (Some ?C) H5)"
        unfolding H5' par using lft [OF False] by simp
      with False 5 show ?goal by simp
    qed
    then show "nodes ?H x = (if p \<noteq> 1 \<and> x = f (p div 2)
        then (if even p then (nodes H5 x)\<lparr>left := Some ?C\<rparr> else (nodes H5 x)\<lparr>right := Some ?C\<rparr>) else nodes H5 x)"
      and "hmin ?H = (if p = 1 then Some ?C else hmin H)" and "nelts ?H = nelts H" by blast+
  qed
  have sg: "slot ?g n j = (if j = p then Some ?C else if j = c then Some ?P else slot f n j)" for j
    using p c by (auto simp: slot_def swap_def)
  have "nodes ?H (?g i) = cell ?g n i" if i: "1 \<le> i" "i \<le> n" for i
  proof -
    consider "i = p" | "i = c" | "i \<noteq> p" "i \<noteq> c" by blast
    then show ?thesis
    proof cases
      case 1
      have C: "?C \<noteq> f (p div 2)" if "p \<noteq> 1" using that p c by (subst eq) auto
      have 2: "2 * p = (if even c then c else d)" "Suc (2 * p) = (if even c then d else c)" "p div 2 \<noteq> p" "p div 2 \<noteq> c"
        using pc p by (auto simp: d_def)
      have "nodes ?H (?g i) = nodes H2 ?C"
        using 1 C p by (auto simp: NH inC swap_def)
      also have "\<dots> = cell ?g n p"
        using 2 d(2,4) p c by (cases "even c"; simp add: N2 cell_def sg)
      finally show ?thesis using 1 by simp
    next
      case 2
      have P: "?P \<noteq> f (p div 2)" if "p \<noteq> 1" using that p c by (subst eq) auto
      have "nodes ?H (?g i) = nodes H2 ?P"
        using 2 P p \<open>?P \<noteq> ?C\<close> by (auto simp: NH inC swap_def)
      also have "\<dots> = cell ?g n c"
        using p c \<open>?P \<noteq> ?C\<close> by (simp add: N2 cell_def sg flip: p_def)
      finally show ?thesis using 2 by simp
    next
      case 3
      then have gi: "?g i = f i" "f i \<noteq> ?P" "f i \<noteq> ?C"
        using i p c eq by (auto simp: swap_def)
      have pi: "p \<noteq> 1 \<and> f i = f (p div 2) \<longleftrightarrow> p \<noteq> 1 \<and> i = p div 2"
        using i p eq by auto
      have e2: "nodes H2 (f i) = cell f n i" using gi i by (simp add: N2 nd)
      have "nodes ?H (f i) = (let M = (if 2 * c + 1 = i \<or> 2 * c = i then (cell f n i)\<lparr>parent := Some ?P\<rparr>
          else if d = i then (cell f n i)\<lparr>parent := Some ?C\<rparr> else cell f n i)
          in if p \<noteq> 1 \<and> i = p div 2 then (if even p then M\<lparr>left := Some ?C\<rparr> else M\<lparr>right := Some ?C\<rparr>) else M)"
        unfolding NH pi N5 seq [OF i] Let_def e2 by (rule refl)
      also have "\<dots> = cell ?g n i"
      proof -
        have "2 * i \<noteq> c" "Suc (2 * i) \<noteq> c" using 3 pc by presburger+
        moreover have "2 * i = p \<longleftrightarrow> p \<noteq> 1 \<and> i = p div 2 \<and> even p" "Suc (2 * i) = p \<longleftrightarrow> p \<noteq> 1 \<and> i = p div 2 \<and> odd p"
          using i(1) by presburger+
        moreover have "i div 2 = p \<longleftrightarrow> d = i" using 3 pc by (auto simp: d_def)
        moreover have "i div 2 = c \<longleftrightarrow> 2 * c + 1 = i \<or> 2 * c = i" using i(1) by presburger
        moreover have "d \<noteq> 2 * c + 1" "d \<noteq> 2 * c" "p \<noteq> c" using d(1) p pc by auto
        ultimately show ?thesis by (auto simp: sg cell_def Let_def)
      qed
      finally show ?thesis using gi by simp
    qed
  qed
  moreover have "hmin ?H = slot ?g n 1" using R p c by (auto simp: min sg rep_def)
  ultimately show ?thesis
    using R p c swap_inj [of p "{1..n}" c f] by (simp add: rep_def ne flip: p_def)
qed

subsection \<open>The loops as array operations\<close>

function sift_up :: "('n \<Rightarrow> 'n \<Rightarrow> bool) \<Rightarrow> (nat \<Rightarrow> 'n) \<Rightarrow> nat \<Rightarrow> nat \<Rightarrow> 'n" where
  "sift_up lt f i =
     (if 2 \<le> i \<and> lt (f i) (f (i div 2)) then sift_up lt (swap (i div 2) i f) (i div 2) else f)"
  by pat_completeness auto
termination by (relation "measure (\<lambda>(lt, f, i). i)") auto

declare sift_up.simps [simp del]

definition smallest :: "('n \<Rightarrow> 'n \<Rightarrow> bool) \<Rightarrow> nat \<Rightarrow> (nat \<Rightarrow> 'n) \<Rightarrow> nat \<Rightarrow> nat" where
  "smallest lt n f i =
     (let s = i;
          s = (if 2 * i \<le> n \<and> lt (f (2 * i)) (f s) then 2 * i else s)
      in if 2 * i + 1 \<le> n \<and> lt (f (2 * i + 1)) (f s) then 2 * i + 1 else s)"

lemma smallest_cases:
  "smallest lt n f i = i \<or> (smallest lt n f i div 2 = i \<and> i < smallest lt n f i \<and> smallest lt n f i \<le> n)"
  if "1 \<le> i" using that by (auto simp: smallest_def Let_def)

function sift_down :: "('n \<Rightarrow> 'n \<Rightarrow> bool) \<Rightarrow> nat \<Rightarrow> (nat \<Rightarrow> 'n) \<Rightarrow> nat \<Rightarrow> (nat \<Rightarrow> 'n) \<times> nat" where
  "sift_down lt n f i =
     (let s = smallest lt n f i
      in if i = 0 \<or> s = i then (f, i) else sift_down lt n (swap i s f) s)"
  by pat_completeness auto
termination
  by (relation "measure (\<lambda>(lt, n, f, i). n - i)") (auto, smt (verit) Suc_leI diff_less_mono2 le_trans less_le_trans smallest_cases One_nat_def)

declare sift_down.simps [simp del]

lemma heap_up_rep:
  "rep H f n \<Longrightarrow> 1 \<le> i \<Longrightarrow> i \<le> n \<Longrightarrow>
     \<exists>H'. heap_up lt (f i) H = Some H' \<and> rep H' (sift_up lt f i) n"
proof (induction lt f i arbitrary: H rule: sift_up.induct)
  case (1 lt f i)
  note R = \<open>rep H f n\<close>
  show ?case
  proof (cases "2 \<le> i \<and> lt (f i) (f (i div 2))")
    case True
    let ?H = "heap_node_swap (f (i div 2)) (f i) H" and ?f = "swap (i div 2) i f"
    have "rep ?H ?f n" using heap_node_swap_rep [OF R] True "1.prems" by blast
    moreover have "?f (i div 2) = f i" using True by (simp add: swap_def)
    ultimately obtain H' where "heap_up lt (f i) ?H = Some H'" "rep H' (sift_up lt ?f (i div 2)) n"
      using "1.IH" [OF True, of ?H] True "1.prems" div_le_dividend [of i 2] by (auto simp: Suc_le_eq)
    moreover have "slot f n (i div 2) = Some (f (i div 2))"
      using True "1.prems" div_le_dividend [of i 2] by (auto simp: slot_def)
    ultimately show ?thesis
      using True R "1.prems" by (subst heap_up.simps, subst sift_up.simps) (simp add: rep_node)
  next
    case False
    with R "1.prems" show ?thesis
      by (subst heap_up.simps, subst sift_up.simps) (auto simp: rep_node slot_def)
  qed
qed

lemma heap_down_rep:
  "rep H f n \<Longrightarrow> 1 \<le> i \<Longrightarrow> i \<le> n \<Longrightarrow> sift_down lt n f i = (g, j) \<Longrightarrow>
     \<exists>H'. heap_down lt (f i) H = Some H' \<and> rep H' g n \<and> g j = f i \<and> 1 \<le> j \<and> j \<le> n"
proof (induction lt n f i arbitrary: H rule: sift_down.induct)
  case (1 lt n f i)
  note R = \<open>rep H f n\<close>
  let ?s = "smallest lt n f i"
  have sm: "heap_smaller lt (hright H (f i)) (heap_smaller lt (hleft H (f i)) (f i)) = f ?s"
    using R "1.prems" by (auto simp: rep_node heap_smaller_def slot_def smallest_def Let_def)
  have s: "1 \<le> ?s" "?s \<le> n" using smallest_cases [of i lt n f] "1.prems" by auto
  show ?case
  proof (cases "?s = i")
    case True
    then have "g = f" "j = i"
      using "1.prems"(4) by (simp_all add: sift_down.simps Let_def)
    with "1.prems" True sm show ?thesis
      by (subst heap_down.simps) (simp add: Let_def)
  next
    case False
    let ?H = "heap_node_swap (f i) (f ?s) H" and ?f = "swap i ?s f"
    have sc: "?s div 2 = i" "2 \<le> ?s" using False smallest_cases [of i lt n f] "1.prems" by auto
    have "rep ?H ?f n" using heap_node_swap_rep [OF R sc(2) s(2)] sc(1) by simp
    moreover have "?f ?s = f i" by (simp add: swap_def)
    moreover have "sift_down lt n ?f ?s = (g, j)"
      using "1.prems"(2,4) False by (subst (asm) sift_down.simps) (auto simp: Let_def)
    ultimately obtain H' where "heap_down lt (f i) ?H = Some H'" "rep H' g n" "g j = f i" "1 \<le> j" "j \<le> n"
      using "1.IH" [of ?s ?H] False "1.prems"(2) s by auto
    moreover have "f ?s \<noteq> f i" using rep_inj [OF R s "1.prems"(2,3)] False by simp
    ultimately show ?thesis
      by (subst heap_down.simps) (simp add: sm Let_def)
  qed
qed


lemma rep_inj_on: "rep H f n \<Longrightarrow> inj_on f {1..n}"
  by (simp only: rep_def)

lemma rep_min: "rep H f n \<Longrightarrow> hmin H = slot f n 1"
  by (simp only: rep_def)

lemma rep_nelts: "rep H f n \<Longrightarrow> nelts H = n"
  by (simp only: rep_def)

subsection \<open>The path to the last node\<close>

text \<open>\<open>heap_go path k j\<close>: the number of the node that \<open>k\<close> steps along \<open>path\<close> lead to from node \<open>j\<close>.\<close>

fun heap_go :: "nat \<Rightarrow> nat \<Rightarrow> nat \<Rightarrow> nat" where
  "heap_go path 0 j = j"
| "heap_go path (Suc k) j = heap_go (path div 2) k (2 * j + path mod 2)"

definition loc_at :: "(nat \<Rightarrow> 'n) \<Rightarrow> nat \<Rightarrow> 'n loc" where
  "loc_at f j = (if j = 1 then LMin else if even j then LLeft (f (j div 2)) else LRight (f (j div 2)))"

lemma heap_go_path: "heap_path path k n = (path', k') \<Longrightarrow> 1 \<le> n \<Longrightarrow> heap_go path' k' 1 = heap_go path k n"
proof (induction path k n rule: heap_path.induct)
  case (1 path k n)
  show ?case
  proof (cases "2 \<le> n")
    case True
    with "1.prems" have "heap_path (2 * path + n mod 2) (k + 1) (n div 2) = (path', k')"
      by (simp add: heap_path.simps [of path k n])
    with True "1.IH" have "heap_go path' k' 1 = heap_go (2 * path + n mod 2) (k + 1) (n div 2)" by simp
    then show ?thesis by simp
  next
    case False
    with "1.prems" have "n = 1" by simp
    with "1.prems" show ?thesis by (simp add: heap_path.simps [of path k "Suc 0"])
  qed
qed

lemma heap_go_ge: "j \<le> heap_go path k j"
  by (induction path k j rule: heap_go.induct) auto

lemma heap_go_half: "1 \<le> k \<Longrightarrow> j \<le> heap_go path k j div 2"
proof (induction path k j rule: heap_go.induct)
  case (2 path k j)
  then show ?case by (cases k) auto
qed simp

lemma deref_loc_at: "rep H f n \<Longrightarrow> 1 \<le> j \<Longrightarrow> j \<le> n + 1 \<Longrightarrow> deref H (loc_at f j) = slot f n j"
proof -
  assume R: "rep H f n" and j: "1 \<le> j" "j \<le> n + 1"
  show ?thesis
  proof (cases "j = 1")
    case False
    with j have "1 \<le> j div 2" "j div 2 \<le> n" by auto
    with R False show ?thesis by (auto simp: loc_at_def rep_node elim!: oddE)
  qed (use R in \<open>simp add: loc_at_def rep_def\<close>)
qed

lemma heap_descend_rep:
  "rep H f n \<Longrightarrow> 1 \<le> j \<Longrightarrow> heap_go path k j \<le> n + 1 \<Longrightarrow>
   heap_descend H path k par (loc_at f j) =
     Some (if k = 0 then par else loc_at f (heap_go path k j div 2), loc_at f (heap_go path k j))"
proof (induction path k j arbitrary: par rule: heap_go.induct)
  case (2 path k j)
  note R = \<open>rep H f n\<close>
  have "j \<le> n" using heap_go_half [of "Suc k" j path] "2.prems" by simp
  with "2.prems" have d: "deref H (loc_at f j) = Some (f j)"
    by (simp add: deref_loc_at [OF R])
  have l: "(if odd path then LRight (f j) else LLeft (f j)) = loc_at f (2 * j + path mod 2)"
    using "2.prems"(2) by (auto simp: loc_at_def)
  show ?case
    using "2.prems" "2.IH" [of "loc_at f j"]
    by (cases k) (auto simp: d l)
qed simp

lemma heap_descend_last:
  assumes R: "rep H f n" and m: "1 \<le> m" "m \<le> n + 1" and p: "heap_path 0 0 m = (path, k)"
  shows "heap_descend H path k LMin LMin = Some (if m = 1 then LMin else loc_at f (m div 2), loc_at f m)"
proof -
  have go: "heap_go path k 1 = m" using heap_go_path [OF p m(1)] by simp
  moreover have "k = 0 \<longleftrightarrow> m = 1"
    using go heap_go_half [of k 1 path] by (cases k) auto
  moreover have "loc_at f 1 = LMin" by (simp add: loc_at_def)
  ultimately show ?thesis
    using heap_descend_rep [OF R, of 1 path k LMin] m(2) by auto
qed

subsection \<open>Insertion and removal as array operations\<close>

lemma rep_insert:
  assumes R: "rep H f n" and a: "a \<notin> f ` {1..n}"
  shows "\<exists>H'. heap_insert a lt H = Some H' \<and> rep H' (sift_up lt (f(n + 1 := a)) (n + 1)) (n + 1)"
proof -
  let ?H1 = "set_node a \<lparr>left = None, right = None, parent = None\<rparr> H" and ?f = "f(Suc n := a)"
  obtain path k where p: "heap_path 0 0 (1 + n) = (path, k)" by (cases "heap_path 0 0 (1 + n)")
  have R1: "rep ?H1 f n" using R a by (auto simp: rep_def)
  have n: "nelts ?H1 = n" using R by (simp add: rep_def)
  let ?par = "if n = 0 then LMin else loc_at f ((n + 1) div 2)"
  have des: "heap_descend ?H1 path k LMin LMin = Some (?par, loc_at f (n + 1))"
    using heap_descend_last [OF R1 _ _ p] by (cases n) auto
  have par: "deref ?H1 ?par = slot f n ((n + 1) div 2)"
  proof (cases "n = 0")
    case False
    then show ?thesis by (simp add: deref_loc_at [OF R1])
  qed (use R1 in \<open>simp add: rep_def\<close>)
  define H2 where "H2 = (assign (loc_at f (n + 1)) (Some a) (set_parent a (slot f n ((n + 1) div 2)) ?H1))\<lparr>nelts := n + 1\<rparr>"
  have sf: "slot ?f (Suc n) j = (if j = Suc n then Some a else slot f n j)" for j
    by (auto simp: slot_def)
  let ?q = "(n + 1) div 2"
  have q: "1 \<le> ?q" "?q \<le> n" if "n \<noteq> 0" using that by auto
  have fa: "f i \<noteq> a" if "1 \<le> i" "i \<le> n" for i using a that by auto
  have N2: "nodes H2 x = (if x = a then \<lparr>left = None, right = None, parent = slot f n ?q\<rparr>
      else if n \<noteq> 0 \<and> x = f ?q then (if odd n then (nodes H x)\<lparr>left := Some a\<rparr> else (nodes H x)\<lparr>right := Some a\<rparr>)
      else nodes H x)" for x
  proof (cases "n = 0")
    case False
    with fa q have "f ?q \<noteq> a" by auto
    with False show ?thesis by (cases "odd n"; simp add: H2_def loc_at_def)
  qed (simp add: H2_def loc_at_def)
  have "nodes H2 (?f i) = cell ?f (n + 1) i" if i: "1 \<le> i" "i \<le> n + 1" for i
  proof (cases "i = n + 1")
    case True
    moreover have "Suc n div 2 \<noteq> Suc n" by simp
    ultimately show ?thesis by (simp add: N2 cell_def sf)
  next
    case False
    with i have n: "i \<le> n" "n \<noteq> 0" by auto
    have fq: "f i = f ?q \<longleftrightarrow> i = ?q" using rep_inj [OF R i(1) n(1)] q [OF n(2)] by simp
    have "2 * i = Suc n \<longleftrightarrow> i = ?q \<and> odd n" "2 * i + 1 = Suc n \<longleftrightarrow> i = ?q \<and> even n" "i div 2 \<noteq> Suc n"
      using n(1) i(1) by presburger+
    then have c: "cell ?f (Suc n) i = (if i = ?q then (if odd n then (cell f n i)\<lparr>left := Some a\<rparr>
        else (cell f n i)\<lparr>right := Some a\<rparr>) else cell f n i)"
      by (cases "i = ?q"; cases "odd n"; simp only: cell_def sf if_True if_False simp_thms heap_node.simps)
    have "nodes H2 (f i) = (if i = ?q then (if odd n then (nodes H (f i))\<lparr>left := Some a\<rparr>
        else (nodes H (f i))\<lparr>right := Some a\<rparr>) else nodes H (f i))"
      using fa [OF i(1) n(1)] n(2) by (simp only: N2 fq if_False simp_thms)
    then show ?thesis
      unfolding rep_node [OF R i(1) n(1)] using c False by simp
  qed
  moreover have "inj_on ?f {1..n + 1}"
  proof -
    have S: "{1..n + 1} = insert (Suc n) {1..n}" "{1..n} - {Suc n} = {1..n}" by auto
    have I: "?f ` {1..n} = f ` {1..n}" by (rule image_cong) auto
    have "inj_on ?f {1..n}"
      using rep_inj_on [OF R] by (rule inj_on_cong [THEN iffD1, rotated]) auto
    then show ?thesis unfolding S(1) inj_on_insert S(2) I using a by simp
  qed
  moreover have "hmin H2 = slot ?f (n + 1) 1"
    using R by (auto simp: H2_def loc_at_def sf rep_def)
  ultimately have "rep H2 ?f (n + 1)" by (simp add: rep_def H2_def)
  then obtain H' where "heap_up lt (?f (n + 1)) H2 = Some H'" "rep H' (sift_up lt ?f (n + 1)) (n + 1)"
    using heap_up_rep [of H2 ?f "n + 1" "n + 1" lt] by auto
  moreover have "nelts (assign l v (set_parent a w ?H1)) = n" for l v w
    using n by (cases l) auto
  ultimately show ?thesis
    using n par by (simp add: heap_insert_def Let_def p [simplified] des [simplified] H2_def)
qed


lemma rep_unlink_last:
  assumes R: "rep H f n" and n: "1 \<le> n"
  shows "rep (assign (loc_at f n) None (H\<lparr>nelts := n - 1\<rparr>)) f (n - 1)"
proof -
  let ?H = "assign (loc_at f n) None (H\<lparr>nelts := n - 1\<rparr>)"
  have inj: "inj_on f {1..n - 1}" by (rule inj_on_subset [OF rep_inj_on [OF R]]) auto
  have ne: "nelts ?H = n - 1" by (cases "loc_at f n") auto
  have N: "nodes ?H x = (if n \<noteq> 1 \<and> x = f (n div 2) then (if even n then (nodes H x)\<lparr>left := None\<rparr>
      else (nodes H x)\<lparr>right := None\<rparr>) else nodes H x)" for x
    by (simp add: loc_at_def)
  have sl: "slot f (n - 1) j = (if j = n then None else slot f n j)" for j
    by (auto simp: slot_def)
  have "nodes ?H (f i) = cell f (n - 1) i" if i: "1 \<le> i" "i \<le> n - 1" for i
  proof -
    have i': "i \<le> n" and n': "n \<noteq> 1" using i by auto
    have q: "1 \<le> n div 2" "n div 2 \<le> n" using i by auto
    have fq: "f i = f (n div 2) \<longleftrightarrow> i = n div 2" using rep_inj [OF R i(1) i' q] .
    have "2 * i = n \<longleftrightarrow> i = n div 2 \<and> even n" "2 * i + 1 = n \<longleftrightarrow> i = n div 2 \<and> odd n" "i div 2 \<noteq> n"
      using i by presburger+
    then have "cell f (n - 1) i = (if i = n div 2 then (if even n then (cell f n i)\<lparr>left := None\<rparr>
        else (cell f n i)\<lparr>right := None\<rparr>) else cell f n i)"
      by (cases "i = n div 2"; cases "even n"; simp only: cell_def sl if_True if_False simp_thms heap_node.simps)
    moreover have "nodes ?H (f i) = (if i = n div 2 then (if even n then (nodes H (f i))\<lparr>left := None\<rparr>
        else (nodes H (f i))\<lparr>right := None\<rparr>) else nodes H (f i))"
      using n' by (simp only: N fq simp_thms)
    ultimately show ?thesis unfolding rep_node [OF R i(1) i'] by simp
  qed
  moreover have "hmin ?H = slot f (n - 1) 1"
    using R n by (auto simp: loc_at_def sl rep_def)
  ultimately show ?thesis using inj ne by (simp add: rep_def)
qed


lemma rep_replace:
  assumes R: "rep H f n" and i: "1 \<le> i" "i \<le> n" and c: "c \<notin> f ` {1..n}"
  shows "rep (heap_replace (f i) c H) (f(i := c)) n"
proof -
  let ?f = "f(i := c)" and ?H = "heap_replace (f i) c H"
  have fc: "f j \<noteq> c" if "1 \<le> j" "j \<le> n" for j using c that by auto
  have sc: "slot f n j \<noteq> Some c" for j using fc by (auto simp: slot_def)
  define H3 where "H3 = set_node c (nodes H (f i)) H"
  have H3: "set_parent c (hparent (set_right c (hright (set_left c (hleft H (f i)) H) (f i))
      (set_left c (hleft H (f i)) H)) (f i))
    (set_right c (hright (set_left c (hleft H (f i)) H) (f i)) (set_left c (hleft H (f i)) H)) = H3"
  proof -
    have "f i \<noteq> c" by (rule fc [OF i])
    then show ?thesis
      by (cases "nodes H c"; cases "nodes H (f i)")
        (simp add: H3_def set_parent_def set_right_def set_left_def set_node_def)
  qed
  have C3: "hleft H3 c = slot f n (2 * i)" by (simp add: H3_def rep_node [OF R i])
  define H4 where "H4 = when_some (slot f n (2 * i)) (\<lambda>l. set_parent l (Some c)) H3"
  have C4: "hright H4 c = slot f n (2 * i + 1)"
    by (simp add: H4_def H3_def when_set_parent rep_node [OF R i])
  define H5 where "H5 = when_some (slot f n (2 * i + 1)) (\<lambda>r. set_parent r (Some c)) H4"
  have N5: "nodes H5 x = (if x = c then cell f n i else if slot f n (2 * i + 1) = Some x \<or> slot f n (2 * i) = Some x
      then (nodes H x)\<lparr>parent := Some c\<rparr> else nodes H x)" for x
    using sc by (auto simp: H5_def H4_def when_set_parent H3_def rep_node [OF R i])
  have Hfi: "hparent H5 (f i) = slot f n (i div 2)"
  proof -
    have "slot f n (2 * i + 1) \<noteq> Some (f i)" "slot f n (2 * i) \<noteq> Some (f i)"
      using i rep_slot_eq [OF R i] by auto
    then show ?thesis using fc [OF i] by (simp add: N5 rep_node [OF R i])
  qed
  have HH: "?H = (case slot f n (i div 2) of
           None \<Rightarrow> H5\<lparr>hmin := Some c\<rparr>
         | Some p \<Rightarrow> if hleft H5 p = Some (f i) then set_left p (Some c) H5
                    else set_right p (Some c) H5)"
    unfolding heap_replace_def Let_def H3 C3 H4_def [symmetric] C4 H5_def [symmetric] Hfi by (rule refl)
  have 5: "hmin H5 = hmin H" "nelts H5 = nelts H"
    by (simp_all add: H5_def H4_def H3_def when_set_parent)
  have NH: "(nodes ?H x = (if i \<noteq> 1 \<and> x = f (i div 2) then (if even i then (nodes H5 x)\<lparr>left := Some c\<rparr>
       else (nodes H5 x)\<lparr>right := Some c\<rparr>) else nodes H5 x)) \<and>
      hmin ?H = (if i = 1 then Some c else hmin H) \<and> nelts ?H = nelts H" for x
  proof (cases "i = 1")
    case True
    then have "?H = H5\<lparr>hmin := Some c\<rparr>" unfolding HH by simp
    with True 5 show ?thesis by simp
  next
    case False
    then have q: "1 \<le> i div 2" "i div 2 \<le> n" using i by auto
    have "slot f n (2 * i + 1) \<noteq> Some (f (i div 2))" "slot f n (2 * i) \<noteq> Some (f (i div 2))"
      using i rep_slot_eq [OF R q] by auto
    then have "hleft H5 (f (i div 2)) = slot f n (2 * (i div 2))"
      using fc [OF q] by (simp add: N5 rep_node [OF R q])
    then have "hleft H5 (f (i div 2)) = Some (f i) \<longleftrightarrow> 2 * (i div 2) = i"
      using rep_slot_eq [OF R i] by simp
    then have "hleft H5 (f (i div 2)) = Some (f i) \<longleftrightarrow> even i" by presburger
    then have "?H = (if even i then set_left (f (i div 2)) (Some c) H5 else set_right (f (i div 2)) (Some c) H5)"
      using q unfolding HH by simp
    with False 5 show ?thesis by simp
  qed
  have sf: "slot ?f n j = (if j = i then Some c else slot f n j)" for j
    using i by (auto simp: slot_def)
  have "nodes ?H (?f j) = cell ?f n j" if j: "1 \<le> j" "j \<le> n" for j
  proof (cases "j = i")
    case True
    have "c \<noteq> f (i div 2)" if "i \<noteq> 1"
    proof -
      have "1 \<le> i div 2" "i div 2 \<le> n" using that i by auto
      then show ?thesis using fc by metis
    qed
    then have "(i \<noteq> 1 \<and> c = f (i div 2)) = False" by blast
    from NH [of c, unfolded this if_False] have "nodes ?H c = cell f n i" by (simp add: N5)
    moreover have "2 * i \<noteq> i" "2 * i + 1 \<noteq> i" "i div 2 \<noteq> i" using i by auto
    ultimately show ?thesis using True by (simp add: cell_def sf)
  next
    case False
    have fq: "i \<noteq> 1 \<and> f j = f (i div 2) \<longleftrightarrow> i \<noteq> 1 \<and> j = i div 2"
    proof -
      have "i \<noteq> 1 \<Longrightarrow> 1 \<le> i div 2" "i div 2 \<le> n" using i by auto
      then show ?thesis using rep_inj [OF R j, of "i div 2"] by blast
    qed
    have "2 * j = i \<longleftrightarrow> i \<noteq> 1 \<and> j = i div 2 \<and> even i" "2 * j + 1 = i \<longleftrightarrow> i \<noteq> 1 \<and> j = i div 2 \<and> odd i"
      and pj: "j div 2 = i \<longleftrightarrow> 2 * i + 1 = j \<or> 2 * i = j"
      using i(1) j(1) by presburger+
    then have "cell ?f n j = (let M = (if 2 * i + 1 = j \<or> 2 * i = j then (cell f n j)\<lparr>parent := Some c\<rparr> else cell f n j)
        in if i \<noteq> 1 \<and> j = i div 2 then (if even i then M\<lparr>left := Some c\<rparr> else M\<lparr>right := Some c\<rparr>) else M)"
      unfolding cell_def sf Let_def
      by (cases "2 * i + 1 = j \<or> 2 * i = j"; cases "i \<noteq> 1 \<and> j = i div 2"; cases "even i";
          simp only: if_True if_False simp_thms heap_node.simps)
    moreover have "nodes ?H (f j) = (let M = (if 2 * i + 1 = j \<or> 2 * i = j then (nodes H (f j))\<lparr>parent := Some c\<rparr>
        else nodes H (f j))
        in if i \<noteq> 1 \<and> j = i div 2 then (if even i then M\<lparr>left := Some c\<rparr> else M\<lparr>right := Some c\<rparr>) else M)"
      using fc [OF j] by (simp only: NH [THEN conjunct1] N5 fq rep_slot_eq [OF R j] Let_def if_False)
    ultimately show ?thesis using False by (simp add: rep_node [OF R j])
  qed
  moreover have "hmin ?H = slot ?f n 1"
    using NH rep_min [OF R] by (simp add: sf)
  moreover have "inj_on ?f {1..n}"
    by (rule inj_on_fun_updI [OF rep_inj_on [OF R] c])
  ultimately show ?thesis using NH rep_nelts [OF R] by (simp add: rep_def)
qed


lemma rep_remove:
  assumes R: "rep H f n" and i: "1 \<le> i" "i \<le> n"
  shows "\<exists>H'. heap_remove (f i) lt H = Some H' \<and>
     rep H' (if i = n then f else case sift_down lt (n - 1) (f(i := f n)) i of (g, j) \<Rightarrow> sift_up lt g j) (n - 1)"
proof -
  obtain path k where p: "heap_path 0 0 n = (path, k)" by (cases "heap_path 0 0 n")
  have n: "nelts H = n" "1 \<le> n" "n \<noteq> 0" using rep_nelts [OF R] i by auto
  obtain par where des: "heap_descend H path k LMin LMin = Some (par, loc_at f n)"
    using heap_descend_last [OF R n(2) _ p] by auto
  let ?H0 = "H\<lparr>nelts := n - 1\<rparr>" and ?H1 = "assign (loc_at f n) None (H\<lparr>nelts := n - 1\<rparr>)"
  have "deref ?H0 l = deref H l" for l by (cases l) auto
  then have d: "deref ?H0 (loc_at f n) = Some (f n)"
    using deref_loc_at [OF R n(2)] n(2) by simp
  have R1: "rep ?H1 f (n - 1)" by (rule rep_unlink_last [OF R n(2)])
  have eq: "heap_remove (f i) lt H =
      (if f n = f i then Some (if hmin ?H1 = Some (f n) then ?H1\<lparr>hmin := None\<rparr> else ?H1)
       else Option.bind (heap_down lt (f n) (heap_replace (f i) (f n) ?H1)) (heap_up lt (f n)))"
    using n(3) unfolding heap_remove_def n(1) p des d Let_def by (simp add: des d del: One_nat_def)
  show ?thesis
  proof (cases "i = n")
    case True
    have "hmin ?H1 \<noteq> Some (f n)"
      using rep_min [OF R1] rep_inj [OF R, of 1 n] n(2) by (auto simp: slot_def)
    with True R1 eq show ?thesis by simp
  next
    case False
    then have i': "i \<le> n - 1" using i by simp
    have c: "f n \<notin> f ` {1..n - 1}"
      using rep_inj [OF R _ _ n(2)] by fastforce
    let ?g = "f(i := f n)"
    obtain g j where gj: "sift_down lt (n - 1) ?g i = (g, j)" by (cases "sift_down lt (n - 1) ?g i")
    obtain H2 where H2: "heap_down lt (f n) (heap_replace (f i) (f n) ?H1) = Some H2" "rep H2 g (n - 1)"
        "g j = f n" "1 \<le> j" "j \<le> n - 1"
      using heap_down_rep [OF rep_replace [OF R1 i(1) i' c] i(1) i' gj] by auto
    obtain H' where "heap_up lt (f n) H2 = Some H'" "rep H' (sift_up lt g j) (n - 1)"
      using heap_up_rep [OF H2(2,4,5), of lt] H2(3) by auto
    moreover have "f n \<noteq> f i" using rep_inj [OF R i n(2)] False by auto
    ultimately show ?thesis using False eq H2(1) gj by simp
  qed
qed

subsection \<open>Order\<close>

text \<open>A comparison like \<^verbatim>\<open>timer_less_than\<close>: the strict part of a total preorder.\<close>

definition weak_order :: "('n \<Rightarrow> 'n \<Rightarrow> bool) \<Rightarrow> bool" where
  "weak_order lt \<longleftrightarrow> (\<forall>x y. lt x y \<longrightarrow> \<not> lt y x) \<and> (\<forall>x y z. \<not> lt y x \<longrightarrow> \<not> lt z y \<longrightarrow> \<not> lt z x)"

definition heap_ord :: "('n \<Rightarrow> 'n \<Rightarrow> bool) \<Rightarrow> (nat \<Rightarrow> 'n) \<Rightarrow> nat \<Rightarrow> bool" where
  "heap_ord lt f n \<longleftrightarrow> (\<forall>j. 2 \<le> j \<and> j \<le> n \<longrightarrow> \<not> lt (f j) (f (j div 2)))"

text \<open>The order holds but for node \<open>i\<close>, whose neighbours are ordered across it.\<close>

definition almost :: "('n \<Rightarrow> 'n \<Rightarrow> bool) \<Rightarrow> (nat \<Rightarrow> 'n) \<Rightarrow> nat \<Rightarrow> nat \<Rightarrow> bool" where
  "almost lt f n i \<longleftrightarrow>
     (\<forall>j. 2 \<le> j \<and> j \<le> n \<and> j \<noteq> i \<and> j div 2 \<noteq> i \<longrightarrow> \<not> lt (f j) (f (j div 2))) \<and>
     (\<forall>j. 2 \<le> j \<and> j \<le> n \<and> j div 2 = i \<and> 2 \<le> i \<longrightarrow> \<not> lt (f j) (f (i div 2)))"

definition below_ok :: "('n \<Rightarrow> 'n \<Rightarrow> bool) \<Rightarrow> (nat \<Rightarrow> 'n) \<Rightarrow> nat \<Rightarrow> nat \<Rightarrow> bool" where
  "below_ok lt f n i \<longleftrightarrow> (\<forall>j. 2 \<le> j \<and> j \<le> n \<and> j div 2 = i \<longrightarrow> \<not> lt (f j) (f i))"

lemma weak_order_asym: "weak_order lt \<Longrightarrow> lt x y \<Longrightarrow> \<not> lt y x"
  by (metis weak_order_def)

lemma weak_order_trans: "weak_order lt \<Longrightarrow> \<not> lt y x \<Longrightarrow> \<not> lt z y \<Longrightarrow> \<not> lt z x"
  by (metis weak_order_def)

lemma weak_order_refl: "weak_order lt \<Longrightarrow> \<not> lt x x"
  by (metis weak_order_def)

lemma sift_up_ord:
  "weak_order lt \<Longrightarrow> almost lt f n i \<Longrightarrow> below_ok lt f n i \<Longrightarrow> 1 \<le> i \<Longrightarrow> i \<le> n \<Longrightarrow>
     heap_ord lt (sift_up lt f i) n"
proof (induction lt f i rule: sift_up.induct)
  case (1 lt f i)
  note W = \<open>weak_order lt\<close>
  have A: "\<not> lt (f j) (f (j div 2))" if "2 \<le> j" "j \<le> n" "j \<noteq> i" "j div 2 \<noteq> i" for j
    using "1.prems"(2) that by (simp add: almost_def)
  have G: "\<not> lt (f j) (f (i div 2))" if "2 \<le> j" "j \<le> n" "j div 2 = i" "2 \<le> i" for j
    using "1.prems"(2) that by (simp add: almost_def)
  have B: "\<not> lt (f j) (f i)" if "2 \<le> j" "j \<le> n" "j div 2 = i" for j
    using "1.prems"(3) that by (simp add: below_ok_def)
  show ?case
  proof (cases "2 \<le> i \<and> lt (f i) (f (i div 2))")
    case False
    have "\<not> lt (f j) (f (j div 2))" if "2 \<le> j" "j \<le> n" for j
      using A B False that by (cases "j = i"; cases "j div 2 = i") auto
    with False show ?thesis by (subst sift_up.simps) (auto simp: heap_ord_def)
  next
    case True
    let ?p = "i div 2" and ?f = "swap (i div 2) i f"
    have lt: "lt (f i) (f ?p)" "\<not> lt (f ?p) (f i)" using True weak_order_asym [OF W] by auto
    have p: "1 \<le> ?p" "?p \<le> n" "?p < i" using True "1.prems"(5) by auto
    have sw: "?f i = f ?p" "?f ?p = f i" "\<And>j. j \<noteq> i \<Longrightarrow> j \<noteq> ?p \<Longrightarrow> ?f j = f j"
      using p by (auto simp: swap_def)
    have sib: "\<not> lt (f j) (f ?p)" if "2 \<le> j" "j \<le> n" "j div 2 = ?p" "j \<noteq> i" for j
      using A [of j] that p by auto
    have "almost lt ?f n ?p"
      unfolding almost_def
    proof (intro conjI allI impI; elim conjE)
      fix j assume j: "2 \<le> j" "j \<le> n" "j \<noteq> ?p" "j div 2 \<noteq> ?p"
      then have "j \<noteq> i" by auto
      show "\<not> lt (?f j) (?f (j div 2))"
      proof (cases "j div 2 = i")
        case T: True
        then show ?thesis using G [OF j(1,2)] True j sw \<open>j \<noteq> i\<close> by auto
      next
        case F: False
        then show ?thesis using A [OF j(1,2)] j sw \<open>j \<noteq> i\<close> by auto
      qed
    next
      fix j assume j: "2 \<le> j" "j \<le> n" "j div 2 = ?p" "2 \<le> ?p"
      then have pp: "?p div 2 < ?p" by auto
      have up: "\<not> lt (f ?p) (f (?p div 2))" using A [of ?p] p j(4) pp by auto
      show "\<not> lt (?f j) (?f (?p div 2))"
      proof (cases "j = i")
        case T: True
        then show ?thesis using up sw pp p by auto
      next
        case F: False
        have "j \<noteq> ?p" using j by auto
        then show ?thesis using weak_order_trans [OF W up sib [OF j(1-3) F]] sw F pp p by auto
      qed
    qed
    moreover have "below_ok lt ?f n ?p"
      unfolding below_ok_def
    proof (intro allI impI; elim conjE)
      fix j assume j: "2 \<le> j" "j \<le> n" "j div 2 = ?p"
      show "\<not> lt (?f j) (?f ?p)"
      proof (cases "j = i")
        case T: True
        then show ?thesis using lt sw by simp
      next
        case F: False
        have "j \<noteq> ?p" using j by auto
        then show ?thesis using weak_order_trans [OF W lt(2) sib [OF j F]] sw F by auto
      qed
    qed
    ultimately show ?thesis
      using "1.IH" [OF True W] True p by (subst sift_up.simps) auto
  qed
qed

lemma smallest_min:
  assumes W: "weak_order lt" and j: "2 \<le> j" "j \<le> n" "j div 2 = i"
  shows "\<not> lt (f j) (f (smallest lt n f i))"
proof -
  have "j = 2 * i \<or> j = 2 * i + 1" using j(3) by presburger
  then show ?thesis
    using j(2) weak_order_refl [OF W] weak_order_asym [OF W] weak_order_trans [OF W]
    unfolding smallest_def Let_def by (smt (verit))
qed

lemma smallest_self: "weak_order lt \<Longrightarrow> smallest lt n f i \<noteq> i \<Longrightarrow> lt (f (smallest lt n f i)) (f i)"
  using weak_order_refl [of lt] weak_order_asym [of lt] weak_order_trans [of lt]
  unfolding smallest_def Let_def by (smt (verit))

lemma sift_down_ord:
  "weak_order lt \<Longrightarrow> almost lt f n i \<Longrightarrow> 1 \<le> i \<Longrightarrow> i \<le> n \<Longrightarrow> sift_down lt n f i = (g, j) \<Longrightarrow>
     almost lt g n j \<and> below_ok lt g n j"
proof (induction lt n f i rule: sift_down.induct)
  case (1 lt n f i)
  note W = \<open>weak_order lt\<close>
  let ?s = "smallest lt n f i"
  have A: "\<not> lt (f j) (f (j div 2))" if "2 \<le> j" "j \<le> n" "j \<noteq> i" "j div 2 \<noteq> i" for j
    using "1.prems"(2) that by (simp add: almost_def)
  have G: "\<not> lt (f j) (f (i div 2))" if "2 \<le> j" "j \<le> n" "j div 2 = i" "2 \<le> i" for j
    using "1.prems"(2) that by (simp add: almost_def)
  have M: "\<not> lt (f j) (f ?s)" if "2 \<le> j" "j \<le> n" "j div 2 = i" for j
    by (rule smallest_min [OF W that])
  show ?case
  proof (cases "?s = i")
    case True
    with "1.prems"(5) have "g = f" "j = i" by (simp_all add: sift_down.simps Let_def)
    with "1.prems"(2) M True show ?thesis by (auto simp: below_ok_def)
  next
    case False
    let ?f = "swap i ?s f"
    have s: "?s div 2 = i" "i < ?s" "?s \<le> n" "2 \<le> ?s"
      using smallest_cases [OF "1.prems"(3), of lt n f] False "1.prems"(3) by auto
    have sw: "?f i = f ?s" "?f ?s = f i" "\<And>j. j \<noteq> i \<Longrightarrow> j \<noteq> ?s \<Longrightarrow> ?f j = f j"
      using s by (auto simp: swap_def)
    have "almost lt ?f n ?s"
      unfolding almost_def
    proof (intro conjI allI impI; elim conjE)
      fix j assume j: "2 \<le> j" "j \<le> n" "j \<noteq> ?s" "j div 2 \<noteq> ?s"
      show "\<not> lt (?f j) (?f (j div 2))"
      proof (cases "j = i")
        case T: True
        then have "j div 2 \<noteq> i" "j div 2 \<noteq> ?s" using j s by auto
        then show ?thesis using G [OF s(4,3,1)] T j sw by auto
      next
        case F: False
        show ?thesis
        proof (cases "j div 2 = i")
          case T2: True
          then show ?thesis using M [OF j(1,2)] sw F j by auto
        next
          case F2: False
          then show ?thesis using A [OF j(1,2) F F2] sw F j by auto
        qed
      qed
    next
      fix j assume j: "2 \<le> j" "j \<le> n" "j div 2 = ?s" "2 \<le> ?s"
      then have "j \<noteq> i" "j \<noteq> ?s" "j div 2 \<noteq> i" using s by auto
      then show "\<not> lt (?f j) (?f (?s div 2))" using A [OF j(1,2)] sw s j by auto
    qed
    moreover have "sift_down lt n ?f ?s = (g, j)"
      using "1.prems"(3,5) False by (subst (asm) sift_down.simps) (auto simp: Let_def)
    ultimately show ?thesis
      using "1.IH" [of ?s] False W s "1.prems"(3) by auto
  qed
qed


lemma heap_ord_root:
  assumes W: "weak_order lt" and o: "heap_ord lt f n"
  shows "1 \<le> j \<Longrightarrow> j \<le> n \<Longrightarrow> \<not> lt (f j) (f 1)"
proof (induction j rule: less_induct)
  case (less j)
  show ?case
  proof (cases "j = 1")
    case True
    then show ?thesis using weak_order_refl [OF W] by simp
  next
    case False
    then have "j div 2 < j" "1 \<le> j div 2" "j div 2 \<le> n" "2 \<le> j" using less.prems by auto
    then have "\<not> lt (f (j div 2)) (f 1)" "\<not> lt (f j) (f (j div 2))"
      using less.IH o less.prems by (auto simp: heap_ord_def)
    then show ?thesis by (rule weak_order_trans [OF W])
  qed
qed

lemma sift_up_image: "1 \<le> i \<Longrightarrow> i \<le> n \<Longrightarrow> sift_up lt f i ` {1..n} = f ` {1..n}"
proof (induction lt f i rule: sift_up.induct)
  case (1 lt f i)
  show ?case
  proof (cases "2 \<le> i \<and> lt (f i) (f (i div 2))")
    case True
    then have "i div 2 \<in> {1..n}" "i \<in> {1..n}" using "1.prems" by auto
    then show ?thesis
      using "1.IH" [OF True] True swap_image [of "i div 2" "{1..n}" i f] by (subst sift_up.simps) auto
  qed (subst sift_up.simps; auto)
qed

lemma sift_down_image:
  "1 \<le> i \<Longrightarrow> i \<le> n \<Longrightarrow> sift_down lt n f i = (g, j) \<Longrightarrow> g ` {1..n} = f ` {1..n} \<and> 1 \<le> j \<and> j \<le> n"
proof (induction lt n f i rule: sift_down.induct)
  case (1 lt n f i)
  let ?s = "smallest lt n f i"
  show ?case
  proof (cases "?s = i")
    case True
    with "1.prems" show ?thesis by (simp add: sift_down.simps Let_def)
  next
    case False
    have s: "?s \<in> {1..n}" "i \<in> {1..n}"
      using smallest_cases [OF "1.prems"(1), of lt n f] "1.prems" by auto
    have "sift_down lt n (swap i ?s f) ?s = (g, j)"
      using "1.prems"(1,3) False by (subst (asm) sift_down.simps) (auto simp: Let_def)
    then show ?thesis
      using "1.IH" [of ?s] False s "1.prems"(1) swap_image [OF s(2,1), of f] by auto
  qed
qed

subsection \<open>What the heap promises\<close>

text \<open>\<open>heap_ok lt H A\<close>: the structure is an ordered heap that holds the nodes \<open>A\<close>.\<close>

definition heap_ok :: "('n \<Rightarrow> 'n \<Rightarrow> bool) \<Rightarrow> 'n heap \<Rightarrow> 'n set \<Rightarrow> bool" where
  "heap_ok lt H A \<longleftrightarrow> (\<exists>f n. rep H f n \<and> heap_ord lt f n \<and> A = f ` {1..n})"

lemma heap_init_ok: "heap_ok lt (heap_init H) {}"
  unfolding heap_ok_def
  by (rule exI [of _ undefined], rule exI [of _ 0]) (simp add: rep_def heap_init_def heap_ord_def)

lemma heap_ok_card: "heap_ok lt H A \<Longrightarrow> nelts H = card A \<and> finite A"
proof -
  assume "heap_ok lt H A"
  then obtain f n where f: "rep H f n" "A = f ` {1..n}" by (auto simp: heap_ok_def)
  then show ?thesis using card_image [OF rep_inj_on [OF f(1)]] rep_nelts [OF f(1)] by simp
qed

lemma heap_ok_cong:
  assumes "heap_ok lt H A" and "\<And>x y. x \<in> A \<Longrightarrow> y \<in> A \<Longrightarrow> lt' x y = lt x y"
  shows "heap_ok lt' H A"
proof -
  obtain f n where f: "rep H f n" "heap_ord lt f n" "A = f ` {1..n}"
    using assms(1) by (auto simp: heap_ok_def)
  have "heap_ord lt' f n"
    unfolding heap_ord_def
  proof (intro allI impI; elim conjE)
    fix j assume j: "2 \<le> j" "j \<le> n"
    then have "j \<in> {1..n}" "j div 2 \<in> {1..n}" by auto
    then have "f j \<in> A" "f (j div 2) \<in> A" unfolding f(3) by (blast intro: imageI)+
    then show "\<not> lt' (f j) (f (j div 2))" using assms(2) f(2) j by (simp add: heap_ord_def)
  qed
  then show ?thesis using f by (auto simp: heap_ok_def)
qed

lemma heap_min_ok:
  assumes "weak_order lt" and "heap_ok lt H A"
  shows "case heap_min H of None \<Rightarrow> A = {} | Some m \<Rightarrow> m \<in> A \<and> (\<forall>a\<in>A. \<not> lt a m)"
proof -
  obtain f n where f: "rep H f n" "heap_ord lt f n" "A = f ` {1..n}"
    using assms(2) by (auto simp: heap_ok_def)
  then show ?thesis
    using rep_min [OF f(1)] heap_ord_root [OF assms(1) f(2)]
    by (cases "n = 0") (auto simp: heap_min_def)
qed

lemma heap_insert_ok:
  assumes W: "weak_order lt" and "heap_ok lt H A" and "a \<notin> A"
  shows "\<exists>H'. heap_insert a lt H = Some H' \<and> heap_ok lt H' (insert a A)"
proof -
  obtain f n where f: "rep H f n" "heap_ord lt f n" "A = f ` {1..n}"
    using assms(2) by (auto simp: heap_ok_def)
  let ?f = "f(Suc n := a)"
  obtain H' where H': "heap_insert a lt H = Some H'" "rep H' (sift_up lt ?f (n + 1)) (n + 1)"
    using rep_insert [OF f(1), of a lt] assms(3) f(3) by auto
  have "almost lt ?f (n + 1) (n + 1)" "below_ok lt ?f (n + 1) (n + 1)"
    using f(2) by (auto simp: almost_def below_ok_def heap_ord_def)
  then have "heap_ord lt (sift_up lt ?f (n + 1)) (n + 1)"
    by (intro sift_up_ord W) auto
  moreover have "sift_up lt ?f (n + 1) ` {1..n + 1} = insert a A"
  proof -
    have "{1..n + 1} = insert (Suc n) {1..n}" by auto
    moreover have "?f ` {1..n} = f ` {1..n}" by (rule image_cong) auto
    moreover have "?f (Suc n) = a" by simp
    ultimately have "?f ` {1..n + 1} = insert a A" unfolding f(3) by (simp only: image_insert)
    moreover have "sift_up lt ?f (n + 1) ` {1..n + 1} = ?f ` {1..n + 1}"
      by (rule sift_up_image) auto
    ultimately show ?thesis by (simp only:)
  qed
  ultimately show ?thesis using H' by (auto simp: heap_ok_def)
qed

lemma heap_remove_ok:
  assumes W: "weak_order lt" and "heap_ok lt H A" and "a \<in> A"
  shows "\<exists>H'. heap_remove a lt H = Some H' \<and> heap_ok lt H' (A - {a})"
proof -
  obtain f n where f: "rep H f n" "heap_ord lt f n" "A = f ` {1..n}"
    using assms(2) by (auto simp: heap_ok_def)
  obtain i where i: "1 \<le> i" "i \<le> n" "a = f i" using assms(3) f(3) by auto
  have img: "A - {a} = f ` ({1..n} - {i})"
    using inj_on_image_set_diff [OF rep_inj_on [OF f(1)], of "{1..n}" "{i}"] i f(3) by auto
  have o: "\<not> lt (f j) (f (j div 2))" if "2 \<le> j" "j \<le> n" for j
    using f(2) that by (simp add: heap_ord_def)
  show ?thesis
  proof (cases "i = n")
    case True
    then obtain H' where "heap_remove a lt H = Some H'" "rep H' f (n - 1)"
      using rep_remove [OF f(1) i(1,2), of lt] i(3) by auto
    moreover have "{1..n} - {i} = {1..n - 1}" using True by auto
    moreover have "heap_ord lt f (n - 1)" using o by (auto simp: heap_ord_def)
    ultimately show ?thesis using img by (auto simp: heap_ok_def)
  next
    case False
    let ?f = "f(i := f n)"
    obtain g j where gj: "sift_down lt (n - 1) ?f i = (g, j)" by (cases "sift_down lt (n - 1) ?f i")
    obtain H' where H': "heap_remove a lt H = Some H'" "rep H' (sift_up lt g j) (n - 1)"
      using rep_remove [OF f(1) i(1,2), of lt] i(3) gj False by auto
    have i': "i \<le> n - 1" using False i by auto
    have j: "g ` {1..n - 1} = ?f ` {1..n - 1}" "1 \<le> j" "j \<le> n - 1"
      using sift_down_image [OF i(1) i' gj] by auto
    have "almost lt ?f (n - 1) i"
      unfolding almost_def
    proof (intro conjI allI impI; elim conjE)
      fix k assume k: "2 \<le> k" "k \<le> n - 1" "k \<noteq> i" "k div 2 \<noteq> i"
      then show "\<not> lt (?f k) (?f (k div 2))" using o by simp
    next
      fix k assume k: "2 \<le> k" "k \<le> n - 1" "k div 2 = i" "2 \<le> i"
      then have "k \<noteq> i" "i div 2 \<noteq> i" by auto
      moreover have "\<not> lt (f k) (f i)" "\<not> lt (f i) (f (i div 2))" using o [of k] o [of i] k i by auto
      ultimately show "\<not> lt (?f k) (?f (i div 2))" using weak_order_trans [OF W] by simp
    qed
    from sift_up_ord [OF W _ _ j(2,3)] sift_down_ord [OF W this i(1) i' gj]
    have "heap_ord lt (sift_up lt g j) (n - 1)" by blast
    moreover have "sift_up lt g j ` {1..n - 1} = A - {a}"
    proof -
      have "?f ` {1..n - 1} = f ` ({1..n} - {i})"
      proof
        show "?f ` {1..n - 1} \<subseteq> f ` ({1..n} - {i})" using False i by auto
        show "f ` ({1..n} - {i}) \<subseteq> ?f ` {1..n - 1}"
        proof
          fix y assume "y \<in> f ` ({1..n} - {i})"
          then obtain k where "k \<in> {1..n} - {i}" and y: "y = f k" by (rule imageE)
          then have k: "1 \<le> k" "k \<le> n" "k \<noteq> i" by auto
          have "y = ?f (if k = n then i else k)" "(if k = n then i else k) \<in> {1..n - 1}"
            using i' i k y by auto
          then show "y \<in> ?f ` {1..n - 1}" by blast
        qed
      qed
      then show ?thesis using j(1) img sift_up_image [OF j(2,3), of lt g] by (simp only:)
    qed
    ultimately show ?thesis using H' unfolding heap_ok_def by (metis (no_types))
  qed
qed

lemma heap_remove_empty: "heap_ok lt H {} \<Longrightarrow> heap_remove a lt' H = Some H"
  using heap_ok_card [of lt H "{}"] by (simp add: heap_remove_def)

subsection \<open>The interface the timers rely on\<close>

text \<open>
  A priority queue over nodes: \<open>holds lt q A\<close> says that \<open>q\<close> is well formed for the comparison \<open>lt\<close>
  and holds exactly the nodes \<open>A\<close>. Every operation the client calls succeeds and has the effect on
  that set its name promises; the comparison matters on the nodes held only, so keys of other
  nodes may change.
\<close>

locale priority_queue =
  fixes holds :: "('n \<Rightarrow> 'n \<Rightarrow> bool) \<Rightarrow> 'q \<Rightarrow> 'n set \<Rightarrow> bool"
    and minimum :: "'q \<Rightarrow> 'n option"
    and insertq :: "'n \<Rightarrow> ('n \<Rightarrow> 'n \<Rightarrow> bool) \<Rightarrow> 'q \<Rightarrow> 'q option"
    and removeq :: "'n \<Rightarrow> ('n \<Rightarrow> 'n \<Rightarrow> bool) \<Rightarrow> 'q \<Rightarrow> 'q option"
  assumes holds_finite: "holds lt q A \<Longrightarrow> finite A"
    and holds_cong: "holds lt q A \<Longrightarrow> (\<And>x y. x \<in> A \<Longrightarrow> y \<in> A \<Longrightarrow> lt' x y = lt x y) \<Longrightarrow> holds lt' q A"
    and minimum_ok: "weak_order lt \<Longrightarrow> holds lt q A \<Longrightarrow>
      case minimum q of None \<Rightarrow> A = {} | Some m \<Rightarrow> m \<in> A \<and> (\<forall>a\<in>A. \<not> lt a m)"
    and insert_ok: "weak_order lt \<Longrightarrow> holds lt q A \<Longrightarrow> a \<notin> A \<Longrightarrow>
      \<exists>q'. insertq a lt q = Some q' \<and> holds lt q' (insert a A)"
    and remove_ok: "weak_order lt \<Longrightarrow> holds lt q A \<Longrightarrow> a \<in> A \<Longrightarrow>
      \<exists>q'. removeq a lt q = Some q' \<and> holds lt q' (A - {a})"
begin

lemma minimum_None: "weak_order lt \<Longrightarrow> holds lt q A \<Longrightarrow> minimum q = None \<longleftrightarrow> A = {}"
  using minimum_ok [of lt q A] by (auto split: option.splits)

lemma minimum_Some: "weak_order lt \<Longrightarrow> holds lt q A \<Longrightarrow> minimum q = Some m \<Longrightarrow> m \<in> A \<and> (\<forall>a\<in>A. \<not> lt a m)"
  using minimum_ok [of lt q A] by simp

lemma pop_min:
  assumes "weak_order lt" and "holds lt q A" and "minimum q = Some m"
  shows "\<exists>q'. removeq m lt q = Some q' \<and> holds lt q' (A - {m})"
  using remove_ok [OF assms(1,2)] minimum_Some [OF assms] by blast

end

interpretation uvheap: priority_queue heap_ok heap_min heap_insert heap_remove
proof
  show "finite A" if "heap_ok lt H A" for lt :: "'a \<Rightarrow> 'a \<Rightarrow> bool" and H A
    using heap_ok_card [OF that] by simp
qed (auto intro: heap_ok_cong heap_min_ok heap_insert_ok heap_remove_ok)


subsection \<open>The properties of the heap\<close>

text \<open>
  C29. The path to node number \<open>n\<close> fits the \<^verbatim>\<open>unsigned int\<close> the code keeps it in: it has the
  length of the binary logarithm of \<open>n\<close>, one bit per step.
\<close>

lemma heap_path_bound:
  "heap_path path k n = (path', k') \<Longrightarrow> path < 2 ^ k \<Longrightarrow> 1 \<le> n \<Longrightarrow>
     path' < 2 ^ k' \<and> 2 ^ (k' - k) \<le> n \<and> n < 2 ^ (k' - k + 1) \<and> k \<le> k'"
proof (induction path k n rule: heap_path.induct)
  case (1 path k n)
  show ?case
  proof (cases "2 \<le> n")
    case True
    have "heap_path (2 * path + n mod 2) (k + 1) (n div 2) = (path', k')"
      using "1.prems"(1) True by (simp add: heap_path.simps [of path k n])
    moreover have "2 * path + n mod 2 < 2 ^ (k + 1)" using "1.prems"(2) by simp
    ultimately have IH: "path' < 2 ^ k'" "2 ^ (k' - (k + 1)) \<le> n div 2" "n div 2 < 2 ^ (k' - (k + 1) + 1)" "k + 1 \<le> k'"
      using "1.IH" [OF True] True by auto
    then have "k' - k = Suc (k' - (k + 1))" by simp
    with IH show ?thesis by auto
  qed (use "1.prems" in \<open>auto simp: heap_path.simps [of path k n]\<close>)
qed



text \<open>A sequence of operations on the heap and on the set of its nodes.\<close>

datatype 'n heap_op = HInsert 'n | HRemove 'n | HDequeue

fun run_heap_op :: "('n \<Rightarrow> 'n \<Rightarrow> bool) \<Rightarrow> 'n heap_op \<Rightarrow> 'n heap \<Rightarrow> 'n heap option" where
  "run_heap_op lt (HInsert a) H = heap_insert a lt H"
| "run_heap_op lt (HRemove a) H = heap_remove a lt H"
| "run_heap_op lt HDequeue H = heap_dequeue lt H"

fun heap_ops :: "('n \<Rightarrow> 'n \<Rightarrow> bool) \<Rightarrow> 'n heap_op list \<Rightarrow> 'n heap \<Rightarrow> 'n heap option" where
  "heap_ops lt [] H = Some H"
| "heap_ops lt (x # xs) H = do { H \<leftarrow> run_heap_op lt x H; heap_ops lt xs H }"

fun heap_drain :: "('n \<Rightarrow> 'n \<Rightarrow> bool) \<Rightarrow> nat \<Rightarrow> 'n heap \<Rightarrow> ('n list \<times> 'n heap) option" where
  "heap_drain lt 0 H = Some ([], H)"
| "heap_drain lt (Suc n) H =
     (case heap_min H of
        None \<Rightarrow> Some ([], H)
      | Some a \<Rightarrow> do { H \<leftarrow> heap_dequeue lt H; (xs, H) \<leftarrow> heap_drain lt n H; Some (a # xs, H) })"

inductive set_op :: "('n \<Rightarrow> 'n \<Rightarrow> bool) \<Rightarrow> 'n heap_op \<Rightarrow> 'n set \<Rightarrow> 'n set \<Rightarrow> bool" for lt where
  set_insert: "a \<notin> A \<Longrightarrow> set_op lt (HInsert a) A (insert a A)"
| set_remove: "a \<in> A \<Longrightarrow> set_op lt (HRemove a) A (A - {a})"
| set_dequeue_empty: "set_op lt HDequeue {} {}"
| set_dequeue: "a \<in> A \<Longrightarrow> \<forall>b\<in>A. \<not> lt b a \<Longrightarrow> set_op lt HDequeue A (A - {a})"

inductive_cases set_insertE: "set_op lt (HInsert a) A B"
inductive_cases set_removeE: "set_op lt (HRemove a) A B"

lemma heap_dequeue_ok:
  assumes "weak_order lt" and "heap_ok lt H A"
  shows "\<exists>H' B. heap_dequeue lt H = Some H' \<and> heap_ok lt H' B \<and> set_op lt HDequeue A B \<and>
    (\<forall>a. heap_min H = Some a \<longrightarrow> B = A - {a})"
proof (cases "heap_min H")
  case None
  then have "A = {}" using uvheap.minimum_None [OF assms] by simp
  moreover have "nelts H = 0" using heap_ok_card [OF assms(2)] calculation by simp
  ultimately show ?thesis using None assms(2) set_dequeue_empty by (auto simp: heap_dequeue_def heap_min_def)
next
  case (Some a)
  from uvheap.pop_min [OF assms Some] uvheap.minimum_Some [OF assms Some] Some show ?thesis
    by (auto simp: heap_dequeue_def heap_min_def intro: set_dequeue)
qed

text \<open>
  C14. The pointer heap implements a set of nodes with a least element: whatever the comparison, every
  insertion of a new node, removal of a node wherever it is, and removal of the minimum succeeds on the
  pointers and does to the set of nodes what its name says; the minimum the heap reports is a least one.
\<close>

theorem heap_refines_set:
  assumes "weak_order lt" and "heap_ok lt H A"
    and "\<And>a. x = HInsert a \<Longrightarrow> a \<notin> A" and "\<And>a. x = HRemove a \<Longrightarrow> a \<in> A"
  shows "\<exists>H' B. run_heap_op lt x H = Some H' \<and> set_op lt x A B \<and> heap_ok lt H' B \<and> nelts H' = card B \<and>
    (case heap_min H' of None \<Rightarrow> B = {} | Some m \<Rightarrow> m \<in> B \<and> (\<forall>b\<in>B. \<not> lt b m))"
proof -
  have "\<exists>H' B. run_heap_op lt x H = Some H' \<and> set_op lt x A B \<and> heap_ok lt H' B"
  proof (cases x)
    case (HInsert a)
    then show ?thesis
      using uvheap.insert_ok [OF assms(1,2), of a] assms(3) by (auto intro: set_insert)
  next
    case (HRemove a)
    then show ?thesis
      using uvheap.remove_ok [OF assms(1,2), of a] assms(4) by (auto intro: set_remove)
  next
    case HDequeue
    then show ?thesis using heap_dequeue_ok [OF assms(1,2)] by auto
  qed
  then show ?thesis
    using uvheap.minimum_ok [OF assms(1)] heap_ok_card by blast
qed

theorem heap_refines_set_witness:
  "\<forall>H. \<exists>H' B. run_heap_op (<) (HInsert (5 :: nat)) (heap_init H) = Some H' \<and> set_op (<) (HInsert 5) {} B \<and> heap_ok (<) H' B"
proof
  fix H :: "nat heap"
  have "weak_order ((<) :: nat \<Rightarrow> nat \<Rightarrow> bool)" by (auto simp: weak_order_def)
  from heap_refines_set [OF this heap_init_ok, of "HInsert 5" H] show "\<exists>H' B. run_heap_op (<) (HInsert (5 :: nat)) (heap_init H) = Some H' \<and> set_op (<) (HInsert 5) {} B \<and> heap_ok (<) H' B" by auto
qed

lemma heap_drain_ok:
  assumes W: "weak_order lt"
  shows "heap_ok lt H A \<Longrightarrow> card A \<le> n \<Longrightarrow>
    \<exists>xs H'. heap_drain lt n H = Some (xs, H') \<and> heap_ok lt H' {} \<and> distinct xs \<and> set xs = A \<and>
      sorted_wrt (\<lambda>a b. \<not> lt b a) xs"
proof (induction n arbitrary: H A)
  case 0
  then have "A = {}" using heap_ok_card by fastforce
  with 0 show ?case by simp
next
  case (Suc n)
  show ?case
  proof (cases "heap_min H")
    case None
    then have "A = {}" using uvheap.minimum_None [OF W Suc.prems(1)] by simp
    with None Suc.prems show ?thesis by simp
  next
    case (Some a)
    then obtain H1 where H1: "heap_dequeue lt H = Some H1" "heap_ok lt H1 (A - {a})"
      using heap_dequeue_ok [OF W Suc.prems(1)] by blast
    have a: "a \<in> A" "\<forall>b\<in>A. \<not> lt b a" using uvheap.minimum_Some [OF W Suc.prems(1) Some] by auto
    have "card (A - {a}) \<le> n" using a Suc.prems heap_ok_card by fastforce
    then obtain xs H' where "heap_drain lt n H1 = Some (xs, H')" "heap_ok lt H' {}" "distinct xs" "set xs = A - {a}"
      "sorted_wrt (\<lambda>a b. \<not> lt b a) xs"
      using Suc.IH [OF H1(2)] by blast
    then show ?thesis using Some H1 a by auto
  qed
qed

lemma heap_ops_insert:
  assumes W: "weak_order lt"
  shows "heap_ok lt H A \<Longrightarrow> distinct xs \<Longrightarrow> set xs \<inter> A = {} \<Longrightarrow>
    \<exists>H'. heap_ops lt (map HInsert xs) H = Some H' \<and> heap_ok lt H' (A \<union> set xs)"
proof (induction xs arbitrary: H A)
  case (Cons x xs)
  then obtain H1 where "heap_insert x lt H = Some H1" "heap_ok lt H1 (insert x A)"
    using uvheap.insert_ok [OF W, of H A x] by auto
  with Cons.IH [of H1 "insert x A"] Cons.prems show ?case by auto
qed simp

text \<open>
  C25. Inserting nodes in any order and then taking the minimum until the heap is empty gives
  each node back once, in the order of the comparison: the heap sorts.
\<close>

theorem heap_sorts:
  assumes "weak_order lt" and "distinct xs"
  shows "\<exists>H ys H'. heap_ops lt (map HInsert xs) (heap_init H0) = Some H \<and>
    heap_drain lt (length xs) H = Some (ys, H') \<and> heap_min H' = None \<and> mset ys = mset xs \<and>
    sorted_wrt (\<lambda>a b. \<not> lt b a) ys"
proof -
  obtain H where H: "heap_ops lt (map HInsert xs) (heap_init H0) = Some H" "heap_ok lt H (set xs)"
    using heap_ops_insert [OF assms(1) heap_init_ok assms(2)] by auto
  obtain ys H' where ys: "heap_drain lt (length xs) H = Some (ys, H')" "heap_ok lt H' {}" "distinct ys"
    "set ys = set xs" "sorted_wrt (\<lambda>a b. \<not> lt b a) ys"
    using heap_drain_ok [OF assms(1) H(2), of "length xs"] by (auto simp: card_length)
  have "mset ys = mset xs" using ys(3,4) assms(2) by (simp add: set_eq_iff_mset_eq_distinct)
  moreover have "heap_min H' = None" using uvheap.minimum_None [OF assms(1) ys(2)] by simp
  ultimately show ?thesis using H(1) ys(1,5) by blast
qed

theorem heap_sorts_witness:
  "\<forall>H0. \<exists>H ys H'. heap_ops (<) (map HInsert [3, 1, 2 :: nat]) (heap_init H0) = Some H \<and>
    heap_drain (<) 3 H = Some (ys, H') \<and> mset ys = {#1, 2, 3#} \<and> sorted_wrt (\<lambda>a b. \<not> b < a) ys"
proof
  fix H0 :: "nat heap"
  have "weak_order ((<) :: nat \<Rightarrow> nat \<Rightarrow> bool)" by (auto simp: weak_order_def)
  moreover have "distinct [3, 1, 2 :: nat]" "length [3, 1, 2 :: nat] = 3" "mset [3, 1, 2 :: nat] = {#1, 2, 3#}"
    by (simp_all add: add_mset_commute)
  ultimately show "\<exists>H ys H'. heap_ops (<) (map HInsert [3, 1, 2 :: nat]) (heap_init H0) = Some H \<and>
    heap_drain (<) 3 H = Some (ys, H') \<and> mset ys = {#1, 2, 3#} \<and> sorted_wrt (\<lambda>a b. \<not> b < a) ys" using heap_sorts [of "(<)" "[3, 1, 2 :: nat]" H0] by metis
qed

end
