(* ===== verification/UvBase.thy ===== *)
theory UvBase
  imports Queue
begin

text \<open>
  The part of an event loop that all handles share: \<^verbatim>\<open>uv_handle_t\<close> with its flags, the macros of
  \<^verbatim>\<open>3rd/libuv/src/uv-common.h\<close> that start, stop, reference and initialise a handle, and the
  counters of the loop they keep.

  A handle is named by its address (\<open>hid\<close>); \<open>handles\<close> is the memory behind the addresses. The
  rings of the loop are the lists that Queue.thy shows them to be. The flag word keeps its 32
  bits and the counters are \<^verbatim>\<open>unsigned int\<close>s that wrap.

  \<open>base_inv\<close> is the accounting invariant: the counter \<open>active_handles\<close> equals, modulo \<open>2 ^ 32\<close>,
  the number of handles that are active and referenced.
\<close>

subsection \<open>Handles and loops\<close>

type_synonym hid = nat

text \<open>A callback is the address of a client function; \<open>None\<close> is the null pointer.\<close>

type_synonym cb = nat

datatype uv_handle_type =
    UV_UNKNOWN_HANDLE | UV_ASYNC | UV_CHECK | UV_FS_EVENT | UV_FS_POLL | UV_HANDLE | UV_IDLE
  | UV_NAMED_PIPE | UV_POLL | UV_PREPARE | UV_PROCESS | UV_STREAM | UV_TCP | UV_TIMER | UV_TTY
  | UV_UDP | UV_SIGNAL | UV_FILE

record uv_handle =
  htype :: uv_handle_type
  hflags :: u32
  hdata :: u64
  close_cb :: "cb option"
  next_closing :: "hid option"

text \<open>
  \<open>trace\<close> is not part of the C structure: it lists the client callbacks invoked so far, each with
  the handle it was invoked for.
\<close>

record uv_loop =
  active_handles :: u32
  active_reqs :: u32
  handle_queue :: "hid list"
  walk_queue :: "hid list"
  closing_handles :: "hid option"
  time :: u64
  stop_flag :: bool
  handles :: "hid \<Rightarrow> uv_handle"
  trace :: "(cb \<times> hid) list"

abbreviation flags_of :: "'a uv_loop_scheme \<Rightarrow> hid \<Rightarrow> u32" where
  "flags_of s h \<equiv> hflags (handles s h)"

subsection \<open>The flags\<close>

definition UV_HANDLE_CLOSING :: u32 where "UV_HANDLE_CLOSING = 0x00000001"
definition UV_HANDLE_CLOSED :: u32 where "UV_HANDLE_CLOSED = 0x00000002"
definition UV_HANDLE_ACTIVE :: u32 where "UV_HANDLE_ACTIVE = 0x00000004"
definition UV_HANDLE_REF :: u32 where "UV_HANDLE_REF = 0x00000008"
definition UV_HANDLE_INTERNAL :: u32 where "UV_HANDLE_INTERNAL = 0x00000010"

definition upd_handle :: "hid \<Rightarrow> (uv_handle \<Rightarrow> uv_handle) \<Rightarrow> 'a uv_loop_scheme \<Rightarrow> 'a uv_loop_scheme" where
  "upd_handle h f s = s\<lparr>handles := (handles s)(h := f (handles s h))\<rparr>"

definition set_flag :: "u32 \<Rightarrow> hid \<Rightarrow> 'a uv_loop_scheme \<Rightarrow> 'a uv_loop_scheme" where
  "set_flag f h s = upd_handle h (\<lambda>r. r\<lparr>hflags := hflags r OR f\<rparr>) s"

definition clear_flag :: "u32 \<Rightarrow> hid \<Rightarrow> 'a uv_loop_scheme \<Rightarrow> 'a uv_loop_scheme" where
  "clear_flag f h s = upd_handle h (\<lambda>r. r\<lparr>hflags := hflags r AND NOT f\<rparr>) s"

definition has_flag :: "u32 \<Rightarrow> hid \<Rightarrow> 'a uv_loop_scheme \<Rightarrow> bool" where
  "has_flag f h s \<longleftrightarrow> flags_of s h AND f \<noteq> 0"

subsection \<open>The macros of uv-common.h\<close>

definition uv__has_active_reqs :: "'a uv_loop_scheme \<Rightarrow> bool" where
  "uv__has_active_reqs s \<longleftrightarrow> active_reqs s > 0"

definition uv__req_register :: "'a uv_loop_scheme \<Rightarrow> 'a uv_loop_scheme" where
  "uv__req_register s = s\<lparr>active_reqs := active_reqs s + 1\<rparr>"

definition uv__req_unregister :: "'a uv_loop_scheme \<Rightarrow> 'a uv_loop_scheme option" where
  "uv__req_unregister s =
     (if uv__has_active_reqs s then Some (s\<lparr>active_reqs := active_reqs s - 1\<rparr>) else None)"

definition uv__has_active_handles :: "'a uv_loop_scheme \<Rightarrow> bool" where
  "uv__has_active_handles s \<longleftrightarrow> active_handles s > 0"

definition uv__active_handle_add :: "'a uv_loop_scheme \<Rightarrow> 'a uv_loop_scheme" where
  "uv__active_handle_add s = s\<lparr>active_handles := active_handles s + 1\<rparr>"

definition uv__active_handle_rm :: "'a uv_loop_scheme \<Rightarrow> 'a uv_loop_scheme" where
  "uv__active_handle_rm s = s\<lparr>active_handles := active_handles s - 1\<rparr>"

definition uv__is_active :: "hid \<Rightarrow> 'a uv_loop_scheme \<Rightarrow> bool" where
  "uv__is_active h s \<longleftrightarrow> has_flag UV_HANDLE_ACTIVE h s"

definition uv__is_closing :: "hid \<Rightarrow> 'a uv_loop_scheme \<Rightarrow> bool" where
  "uv__is_closing h s \<longleftrightarrow> has_flag (UV_HANDLE_CLOSING OR UV_HANDLE_CLOSED) h s"

definition uv__handle_start :: "hid \<Rightarrow> 'a uv_loop_scheme \<Rightarrow> 'a uv_loop_scheme" where
  "uv__handle_start h s =
     (if has_flag UV_HANDLE_ACTIVE h s then s
      else (let s = set_flag UV_HANDLE_ACTIVE h s in
            if has_flag UV_HANDLE_REF h s then uv__active_handle_add s else s))"

definition uv__handle_stop :: "hid \<Rightarrow> 'a uv_loop_scheme \<Rightarrow> 'a uv_loop_scheme" where
  "uv__handle_stop h s =
     (if \<not> has_flag UV_HANDLE_ACTIVE h s then s
      else (let s = clear_flag UV_HANDLE_ACTIVE h s in
            if has_flag UV_HANDLE_REF h s then uv__active_handle_rm s else s))"

definition uv__handle_ref :: "hid \<Rightarrow> 'a uv_loop_scheme \<Rightarrow> 'a uv_loop_scheme" where
  "uv__handle_ref h s =
     (if has_flag UV_HANDLE_REF h s then s
      else (let s = set_flag UV_HANDLE_REF h s in
            if has_flag UV_HANDLE_CLOSING h s then s
            else if has_flag UV_HANDLE_ACTIVE h s then uv__active_handle_add s else s))"

definition uv__handle_unref :: "hid \<Rightarrow> 'a uv_loop_scheme \<Rightarrow> 'a uv_loop_scheme" where
  "uv__handle_unref h s =
     (if \<not> has_flag UV_HANDLE_REF h s then s
      else (let s = clear_flag UV_HANDLE_REF h s in
            if has_flag UV_HANDLE_CLOSING h s then s
            else if has_flag UV_HANDLE_ACTIVE h s then uv__active_handle_rm s else s))"

definition uv__has_ref :: "hid \<Rightarrow> 'a uv_loop_scheme \<Rightarrow> bool" where
  "uv__has_ref h s \<longleftrightarrow> has_flag UV_HANDLE_REF h s"

definition uv__handle_init :: "hid \<Rightarrow> uv_handle_type \<Rightarrow> 'a uv_loop_scheme \<Rightarrow> 'a uv_loop_scheme" where
  "uv__handle_init h typ s =
     (let s = upd_handle h (\<lambda>r. r\<lparr>htype := typ, hflags := UV_HANDLE_REF\<rparr>) s;
          s = s\<lparr>handle_queue := handle_queue s @ [h]\<rparr>
      in upd_handle h (\<lambda>r. r\<lparr>next_closing := None\<rparr>) s)"

text \<open>\<open>uv__make_close_pending\<close> of unix/core.c pushes the handle on the list of closing handles.\<close>

definition uv__make_close_pending :: "hid \<Rightarrow> 'a uv_loop_scheme \<Rightarrow> 'a uv_loop_scheme option" where
  "uv__make_close_pending h s =
     (if \<not> has_flag UV_HANDLE_CLOSING h s then None
      else if has_flag UV_HANDLE_CLOSED h s then None
      else (let s = upd_handle h (\<lambda>r. r\<lparr>next_closing := closing_handles s\<rparr>) s
            in Some (s\<lparr>closing_handles := Some h\<rparr>)))"

text \<open>A callback runs client code: \<open>call\<close> is what that code does to the loop.\<close>

type_synonym 's client = "cb \<Rightarrow> hid \<Rightarrow> 's \<Rightarrow> 's option"

definition invoke :: "'a uv_loop_scheme client \<Rightarrow> cb \<Rightarrow> hid \<Rightarrow> 'a uv_loop_scheme \<Rightarrow> 'a uv_loop_scheme option" where
  "invoke call c h s = call c h (s\<lparr>trace := trace s @ [(c, h)]\<rparr>)"

subsection \<open>Reading the flags\<close>

text \<open>A flag is a bit of the word, so every question about flags is one about bits.\<close>

lemma bits_def: "UV_HANDLE_CLOSING = push_bit 0 1" "UV_HANDLE_CLOSED = push_bit 1 1"
  "UV_HANDLE_ACTIVE = push_bit 2 1" "UV_HANDLE_REF = push_bit 3 1" "UV_HANDLE_INTERNAL = push_bit 4 1"
  by (simp_all add: UV_HANDLE_CLOSING_def UV_HANDLE_CLOSED_def UV_HANDLE_ACTIVE_def
      UV_HANDLE_REF_def UV_HANDLE_INTERNAL_def push_bit_eq_mult)

lemma and_push_bit_one: "(w AND push_bit n 1 \<noteq> 0) = bit (w :: 'a::len word) n"
proof -
  have "w AND push_bit n 1 = (if bit w n then push_bit n 1 else 0)"
    by (rule bit_word_eqI) (auto simp: bit_simps)
  moreover have "push_bit n 1 \<noteq> (0 :: 'a word)" if "bit w n"
  proof -
    have "bit (push_bit n 1 :: 'a word) n" using bit_imp_le_length [OF that] by (simp add: bit_simps)
    then show ?thesis by (metis bit_0_eq bot_apply bot_bool_def)
  qed
  ultimately show ?thesis by auto
qed

lemma bit_one_flag: "bit (push_bit k 1 :: 'a::len word) n \<longleftrightarrow> n = k \<and> n < LENGTH('a)"
  by (auto simp: bit_simps)

lemma has_flag_bit: "f = push_bit k 1 \<Longrightarrow> has_flag f h s \<longleftrightarrow> bit (flags_of s h) k"
  by (simp only: has_flag_def and_push_bit_one)

lemma has_flag_or: "has_flag (f OR g) h s \<longleftrightarrow> has_flag f h s \<or> has_flag g h s"
  by (auto simp: has_flag_def bit.conj_disj_distrib or_eq_0_iff)

lemmas flag_test [flag_simps] =
  has_flag_or bits_def [THEN has_flag_bit]

lemma flag_bits [flag_simps]:
  "bit UV_HANDLE_CLOSING n \<longleftrightarrow> n = 0" "bit UV_HANDLE_CLOSED n \<longleftrightarrow> n = 1"
  "bit UV_HANDLE_ACTIVE n \<longleftrightarrow> n = 2" "bit UV_HANDLE_REF n \<longleftrightarrow> n = 3" "bit UV_HANDLE_INTERNAL n \<longleftrightarrow> n = 4"
  unfolding bits_def bit_one_flag by auto


subsection \<open>What the macros leave alone\<close>

lemma upd_handle_simps [simp]:
  "handles (upd_handle h f s) = (handles s)(h := f (handles s h))"
  "active_handles (upd_handle h f s) = active_handles s" "active_reqs (upd_handle h f s) = active_reqs s"
  "handle_queue (upd_handle h f s) = handle_queue s" "walk_queue (upd_handle h f s) = walk_queue s"
  "closing_handles (upd_handle h f s) = closing_handles s" "time (upd_handle h f s) = time s"
  "stop_flag (upd_handle h f s) = stop_flag s" "trace (upd_handle h f s) = trace s"
  "uv_loop.more (upd_handle h f s) = uv_loop.more s"
  by (simp_all add: upd_handle_def)

lemma flag_words [simp]:
  "bit (w OR UV_HANDLE_ACTIVE) n \<longleftrightarrow> bit w n \<or> n = 2" "bit (w OR UV_HANDLE_REF) n \<longleftrightarrow> bit w n \<or> n = 3"
  "bit (w OR UV_HANDLE_CLOSING) n \<longleftrightarrow> bit w n \<or> n = 0" "bit (w OR UV_HANDLE_CLOSED) n \<longleftrightarrow> bit w n \<or> n = 1"
  "bit (w AND NOT UV_HANDLE_ACTIVE) n \<longleftrightarrow> bit w n \<and> n \<noteq> 2" "bit (w AND NOT UV_HANDLE_REF) n \<longleftrightarrow> bit w n \<and> n \<noteq> 3"
  "bit UV_HANDLE_REF n \<longleftrightarrow> n = 3"
  using bit_imp_le_length [of w n] by (auto simp: bit_simps flag_simps)

lemma flag_idem:
  "bit w 2 \<Longrightarrow> w OR UV_HANDLE_ACTIVE = w" "bit w 3 \<Longrightarrow> w OR UV_HANDLE_REF = w"
  "\<not> bit w 2 \<Longrightarrow> w AND NOT UV_HANDLE_ACTIVE = w" "\<not> bit w 3 \<Longrightarrow> w AND NOT UV_HANDLE_REF = w"
  by (auto intro!: bit_word_eqI)

lemma flags_update_id: "hflags r = w \<Longrightarrow> r\<lparr>hflags := w\<rparr> = r"
  by (cases r) simp

lemmas macro_defs = uv__handle_start_def uv__handle_stop_def uv__handle_ref_def uv__handle_unref_def
  set_flag_def clear_flag_def uv__active_handle_add_def uv__active_handle_rm_def

lemma handles_start [simp]:
  "handles (uv__handle_start h s) = (handles s)(h := (handles s h)\<lparr>hflags := flags_of s h OR UV_HANDLE_ACTIVE\<rparr>)"
  by (auto simp: macro_defs flag_simps Let_def flags_update_id flag_idem fun_upd_idem_iff)

lemma handles_stop [simp]:
  "handles (uv__handle_stop h s) = (handles s)(h := (handles s h)\<lparr>hflags := flags_of s h AND NOT UV_HANDLE_ACTIVE\<rparr>)"
  by (auto simp: macro_defs flag_simps Let_def flags_update_id flag_idem fun_upd_idem_iff)

lemma handles_ref [simp]:
  "handles (uv__handle_ref h s) = (handles s)(h := (handles s h)\<lparr>hflags := flags_of s h OR UV_HANDLE_REF\<rparr>)"
  by (auto simp: macro_defs flag_simps Let_def flags_update_id flag_idem fun_upd_idem_iff)

lemma handles_unref [simp]:
  "handles (uv__handle_unref h s) = (handles s)(h := (handles s h)\<lparr>hflags := flags_of s h AND NOT UV_HANDLE_REF\<rparr>)"
  by (auto simp: macro_defs flag_simps Let_def flags_update_id flag_idem fun_upd_idem_iff)

lemma macro_frames [simp]:
  "active_reqs (uv__handle_start h s) = active_reqs s" "active_reqs (uv__handle_stop h s) = active_reqs s"
  "active_reqs (uv__handle_ref h s) = active_reqs s" "active_reqs (uv__handle_unref h s) = active_reqs s"
  "handle_queue (uv__handle_start h s) = handle_queue s" "handle_queue (uv__handle_stop h s) = handle_queue s"
  "handle_queue (uv__handle_ref h s) = handle_queue s" "handle_queue (uv__handle_unref h s) = handle_queue s"
  "walk_queue (uv__handle_start h s) = walk_queue s" "walk_queue (uv__handle_stop h s) = walk_queue s"
  "walk_queue (uv__handle_ref h s) = walk_queue s" "walk_queue (uv__handle_unref h s) = walk_queue s"
  "closing_handles (uv__handle_start h s) = closing_handles s" "closing_handles (uv__handle_stop h s) = closing_handles s"
  "closing_handles (uv__handle_ref h s) = closing_handles s" "closing_handles (uv__handle_unref h s) = closing_handles s"
  "time (uv__handle_start h s) = time s" "time (uv__handle_stop h s) = time s"
  "time (uv__handle_ref h s) = time s" "time (uv__handle_unref h s) = time s"
  "stop_flag (uv__handle_start h s) = stop_flag s" "stop_flag (uv__handle_stop h s) = stop_flag s"
  "stop_flag (uv__handle_ref h s) = stop_flag s" "stop_flag (uv__handle_unref h s) = stop_flag s"
  "trace (uv__handle_start h s) = trace s" "trace (uv__handle_stop h s) = trace s"
  "trace (uv__handle_ref h s) = trace s" "trace (uv__handle_unref h s) = trace s"
  "uv_loop.more (uv__handle_start h s) = uv_loop.more s" "uv_loop.more (uv__handle_stop h s) = uv_loop.more s"
  "uv_loop.more (uv__handle_ref h s) = uv_loop.more s" "uv_loop.more (uv__handle_unref h s) = uv_loop.more s"
  by (simp_all add: macro_defs Let_def)

subsection \<open>The accounting of active handles\<close>

definition members :: "'a uv_loop_scheme \<Rightarrow> hid set" where
  "members s = set (handle_queue s @ walk_queue s)"

definition counted :: "'a uv_loop_scheme \<Rightarrow> hid set" where
  "counted s = {h \<in> members s. bit (flags_of s h) 2 \<and> bit (flags_of s h) 3}"

definition count_ok :: "'a uv_loop_scheme \<Rightarrow> bool" where
  "count_ok s \<longleftrightarrow> active_handles s = of_nat (card (counted s))"

lemma finite_counted [simp]: "finite (counted s)"
  by (simp add: counted_def members_def)

lemma count_insert: "a \<notin> A \<Longrightarrow> finite A \<Longrightarrow> (of_nat (card (insert a A)) :: u32) = of_nat (card A) + 1"
  by (simp add: add.commute)

lemma count_remove:
  assumes "a \<in> A" and "finite A"
  shows "(of_nat (card (A - {a})) :: u32) = of_nat (card A) - 1"
proof -
  have "card A = Suc (card (A - {a}))" using assms by (metis card_Suc_Diff1)
  then show ?thesis by simp
qed

lemma members_macros [simp]:
  "members (uv__handle_start h s) = members s" "members (uv__handle_stop h s) = members s"
  "members (uv__handle_ref h s) = members s" "members (uv__handle_unref h s) = members s"
  "members (upd_handle h f s) = members s"
  by (simp_all add: members_def)

lemma counted_start:
  "h \<in> members s \<Longrightarrow> counted (uv__handle_start h s) = (if bit (flags_of s h) 3 then insert h (counted s) else counted s)"
  by (auto simp: counted_def)

lemma counted_stop: "counted (uv__handle_stop h s) = counted s - {h}"
  by (auto simp: counted_def)

lemma counted_ref:
  "h \<in> members s \<Longrightarrow> counted (uv__handle_ref h s) = (if bit (flags_of s h) 2 then insert h (counted s) else counted s)"
  by (auto simp: counted_def)

lemma counted_unref: "counted (uv__handle_unref h s) = counted s - {h}"
  by (auto simp: counted_def)

lemma active_start: "active_handles (uv__handle_start h s) =
    active_handles s + (if \<not> bit (flags_of s h) 2 \<and> bit (flags_of s h) 3 then 1 else 0)"
  by (simp add: macro_defs flag_simps Let_def)

lemma active_stop: "active_handles (uv__handle_stop h s) =
    active_handles s - (if bit (flags_of s h) 2 \<and> bit (flags_of s h) 3 then 1 else 0)"
  by (simp add: macro_defs flag_simps Let_def)

lemma active_ref: "active_handles (uv__handle_ref h s) =
    active_handles s + (if bit (flags_of s h) 2 \<and> \<not> bit (flags_of s h) 3 \<and> \<not> bit (flags_of s h) 0 then 1 else 0)"
  by (simp add: macro_defs flag_simps Let_def)

lemma active_unref: "active_handles (uv__handle_unref h s) =
    active_handles s - (if bit (flags_of s h) 2 \<and> bit (flags_of s h) 3 \<and> \<not> bit (flags_of s h) 0 then 1 else 0)"
  by (simp add: macro_defs flag_simps Let_def)

lemma counted_iff: "h \<in> counted s \<longleftrightarrow> h \<in> members s \<and> bit (flags_of s h) 2 \<and> bit (flags_of s h) 3"
  by (simp add: counted_def)

lemma count_ok_start: "count_ok s \<Longrightarrow> h \<in> members s \<Longrightarrow> count_ok (uv__handle_start h s)"
  unfolding count_ok_def
  by (cases "h \<in> counted s") (auto simp: active_start counted_start counted_iff insert_absorb count_insert simp del: of_nat_Suc card_insert_disjoint)

lemma count_ok_stop: "count_ok s \<Longrightarrow> h \<in> members s \<Longrightarrow> count_ok (uv__handle_stop h s)"
  unfolding count_ok_def
  by (cases "h \<in> counted s") (auto simp: active_stop counted_stop counted_iff count_remove simp del: card_Diff_insert card_Diff_singleton)

text \<open>
  Referencing is accounted for while the handle is not closing. A closing handle that is still
  active would lose its count here; \<open>base_inv\<close> below excludes it.
\<close>

lemma count_ok_ref:
  "count_ok s \<Longrightarrow> h \<in> members s \<Longrightarrow> (bit (flags_of s h) 0 \<longrightarrow> \<not> bit (flags_of s h) 2) \<Longrightarrow> count_ok (uv__handle_ref h s)"
  unfolding count_ok_def
  by (cases "h \<in> counted s") (auto simp: active_ref counted_ref counted_iff insert_absorb count_insert simp del: of_nat_Suc card_insert_disjoint)

lemma count_ok_unref:
  "count_ok s \<Longrightarrow> h \<in> members s \<Longrightarrow> (bit (flags_of s h) 0 \<longrightarrow> \<not> bit (flags_of s h) 2) \<Longrightarrow> count_ok (uv__handle_unref h s)"
  unfolding count_ok_def
  by (cases "h \<in> counted s") (auto simp: active_unref counted_unref counted_iff count_remove simp del: card_Diff_insert card_Diff_singleton)


subsection \<open>The closing handles and the invariant of a loop\<close>

text \<open>\<open>chain m p xs\<close>: following \<open>next_closing\<close> from \<open>p\<close> meets the handles \<open>xs\<close>.\<close>

fun chain :: "(hid \<Rightarrow> uv_handle) \<Rightarrow> hid option \<Rightarrow> hid list \<Rightarrow> bool" where
  "chain m p [] \<longleftrightarrow> p = None"
| "chain m p (h # xs) \<longleftrightarrow> p = Some h \<and> chain m (next_closing (m h)) xs"

definition first :: "hid list \<Rightarrow> hid option" where
  "first ys = (case ys of [] \<Rightarrow> None | h # _ \<Rightarrow> Some h)"

definition closing :: "'a uv_loop_scheme \<Rightarrow> hid set" where
  "closing s = {h \<in> members s. bit (flags_of s h) 0}"

text \<open>
  \<open>base_inv D ys s\<close>: \<open>ys\<close> are the handles \<open>uv__run_closing_handles\<close> has taken off the loop and has
  not finished, and \<open>D\<close> the handles whose closing has begun but which are not on the list of closing
  handles yet. Without those two, every closing handle is inactive and on the list exactly once.
\<close>

definition closing_ok :: "hid set \<Rightarrow> hid list \<Rightarrow> 'a uv_loop_scheme \<Rightarrow> bool" where
  "closing_ok D ys s \<longleftrightarrow>
     (\<exists>xs. chain (handles s) (closing_handles s) xs \<and> chain (handles s) (first ys) ys \<and>
           distinct (xs @ ys) \<and> set (xs @ ys) = closing s - D)"

definition flags_ok :: "hid set \<Rightarrow> 'a uv_loop_scheme \<Rightarrow> bool" where
  "flags_ok D s \<longleftrightarrow>
     (\<forall>h\<in>members s. \<not> bit (flags_of s h) 1 \<and> (h \<notin> D \<longrightarrow> bit (flags_of s h) 0 \<longrightarrow> \<not> bit (flags_of s h) 2))"

definition base_inv :: "hid set \<Rightarrow> hid list \<Rightarrow> 'a uv_loop_scheme \<Rightarrow> bool" where
  "base_inv D ys s \<longleftrightarrow>
     distinct (handle_queue s @ walk_queue s) \<and> count_ok s \<and> flags_ok D s \<and> closing_ok D ys s"

lemma chain_cong: "chain m p xs \<Longrightarrow> (\<And>h. h \<in> set xs \<Longrightarrow> next_closing (m' h) = next_closing (m h)) \<Longrightarrow> chain m' p xs"
  by (induction m p xs rule: chain.induct) auto

lemma chain_first: "chain m p xs \<Longrightarrow> p = first xs"
  by (cases xs) (auto simp: first_def)

lemma first_simps [simp]: "first [] = None" "first (h # ys) = Some h"
  by (simp_all add: first_def)

lemma base_invD:
  assumes "base_inv D ys s"
  shows "distinct (handle_queue s @ walk_queue s)" "count_ok s" "flags_ok D s" "closing_ok D ys s"
  using assms by (simp_all add: base_inv_def)

lemma base_inv_closed: "base_inv D ys s \<Longrightarrow> h \<in> members s \<Longrightarrow> \<not> bit (flags_of s h) 1"
  by (simp add: base_inv_def flags_ok_def)

lemma base_inv_active: "base_inv D ys s \<Longrightarrow> h \<in> members s \<Longrightarrow> h \<notin> D \<Longrightarrow> bit (flags_of s h) 0 \<Longrightarrow> \<not> bit (flags_of s h) 2"
  by (simp add: base_inv_def flags_ok_def)

lemma members_cong: "handle_queue s' = handle_queue s \<Longrightarrow> walk_queue s' = walk_queue s \<Longrightarrow> members s' = members s"
  by (simp add: members_def)

lemma closing_ok_cong:
  assumes "closing_ok D ys s" and "closing s' - D' = closing s - D" and "closing_handles s' = closing_handles s"
    and "\<And>h. next_closing (handles s' h) = next_closing (handles s h)"
  shows "closing_ok D' ys s'"
proof -
  obtain xs where "chain (handles s) (closing_handles s) xs" "chain (handles s) (first ys) ys"
    "distinct (xs @ ys)" "set (xs @ ys) = closing s - D"
    using assms(1) unfolding closing_ok_def by blast
  then show ?thesis
    using assms(2-) chain_cong [of "handles s" _ _ "handles s'"] unfolding closing_ok_def by metis
qed

lemma closing_macros [simp]:
  "closing (uv__handle_start h s) = closing s" "closing (uv__handle_stop h s) = closing s"
  "closing (uv__handle_ref h s) = closing s" "closing (uv__handle_unref h s) = closing s"
  by (auto simp: closing_def)

text \<open>Parts of the loop the invariant does not look at.\<close>

lemma base_inv_cong:
  assumes "base_inv D ys s" and "handle_queue s' = handle_queue s" "walk_queue s' = walk_queue s"
    "closing_handles s' = closing_handles s" "handles s' = handles s" "active_handles s' = active_handles s"
  shows "base_inv D ys s'"
proof -
  have m: "members s' = members s" "closing s' = closing s" "counted s' = counted s"
    using assms by (simp_all add: members_def closing_def counted_def)
  with assms(1) closing_ok_cong [of D ys s s' D] show ?thesis
    by (simp add: base_inv_def assms(2-) count_ok_def flags_ok_def)
qed

lemma base_inv_start [inv_intros]:
  "base_inv D ys s \<Longrightarrow> h \<in> members s \<Longrightarrow> \<not> bit (flags_of s h) 0 \<Longrightarrow> base_inv D ys (uv__handle_start h s)"
  by (auto simp: base_inv_def count_ok_start flags_ok_def elim: closing_ok_cong)

lemma base_inv_stop [inv_intros]: "base_inv D ys s \<Longrightarrow> h \<in> members s \<Longrightarrow> base_inv D ys (uv__handle_stop h s)"
  by (auto simp: base_inv_def count_ok_stop flags_ok_def elim: closing_ok_cong)

lemma base_inv_ref [inv_intros]:
  "base_inv D ys s \<Longrightarrow> h \<in> members s \<Longrightarrow> h \<notin> D \<Longrightarrow> base_inv D ys (uv__handle_ref h s)"
  by (auto simp: base_inv_def flags_ok_def elim: closing_ok_cong intro: count_ok_ref)

lemma base_inv_unref [inv_intros]:
  "base_inv D ys s \<Longrightarrow> h \<in> members s \<Longrightarrow> h \<notin> D \<Longrightarrow> base_inv D ys (uv__handle_unref h s)"
  by (auto simp: base_inv_def flags_ok_def elim: closing_ok_cong intro: count_ok_unref)

text \<open>A new handle: its address is not that of a live one.\<close>

lemma handle_init_eqs [simp]:
  "handles (uv__handle_init h t s) = (handles s)(h := (handles s h)\<lparr>htype := t, hflags := UV_HANDLE_REF, next_closing := None\<rparr>)"
  "handle_queue (uv__handle_init h t s) = handle_queue s @ [h]" "walk_queue (uv__handle_init h t s) = walk_queue s"
  "closing_handles (uv__handle_init h t s) = closing_handles s" "active_handles (uv__handle_init h t s) = active_handles s"
  "active_reqs (uv__handle_init h t s) = active_reqs s" "time (uv__handle_init h t s) = time s"
  "stop_flag (uv__handle_init h t s) = stop_flag s" "trace (uv__handle_init h t s) = trace s"
  "uv_loop.more (uv__handle_init h t s) = uv_loop.more s"
  by (simp_all add: uv__handle_init_def Let_def)

lemma members_init [simp]: "members (uv__handle_init h t s) = insert h (members s)"
  by (auto simp: members_def)

lemma base_inv_init [inv_intros]:
  assumes "base_inv D ys s" and "h \<notin> members s" and "h \<notin> D"
  shows "base_inv D ys (uv__handle_init h t s)"
proof -
  let ?s = "uv__handle_init h t s"
  have "counted ?s = counted s" "closing ?s = closing s"
    using assms(2) by (auto simp: counted_def closing_def)
  moreover obtain xs where xs: "chain (handles s) (closing_handles s) xs" "chain (handles s) (first ys) ys"
    "distinct (xs @ ys)" "set (xs @ ys) = closing s - D"
    using assms(1) by (auto simp: base_inv_def closing_ok_def)
  have n: "next_closing (handles ?s x) = next_closing (handles s x)" if "x \<in> set (xs @ ys)" for x
    using that xs(4) assms(2) by (auto simp: closing_def)
  have "chain (handles ?s) (closing_handles ?s) xs" "chain (handles ?s) (first ys) ys"
    unfolding handle_init_eqs(4) using xs(1,2) n by (auto elim!: chain_cong)
  ultimately show ?thesis
    using assms xs unfolding base_inv_def closing_ok_def
    by (auto simp: count_ok_def flags_ok_def members_def)
qed

subsection \<open>Closing a handle\<close>

text \<open>What \<^verbatim>\<open>uv_close\<close> does to every handle around the part that depends on its type.\<close>

definition mark_closing :: "hid \<Rightarrow> cb option \<Rightarrow> 'a uv_loop_scheme \<Rightarrow> 'a uv_loop_scheme" where
  "mark_closing h c s = upd_handle h (\<lambda>r. r\<lparr>close_cb := c\<rparr>) (set_flag UV_HANDLE_CLOSING h s)"

lemma mark_closing_eqs [simp]:
  "handles (mark_closing h c s) = (handles s)(h := (handles s h)\<lparr>hflags := flags_of s h OR UV_HANDLE_CLOSING, close_cb := c\<rparr>)"
  "handle_queue (mark_closing h c s) = handle_queue s" "walk_queue (mark_closing h c s) = walk_queue s"
  "closing_handles (mark_closing h c s) = closing_handles s" "active_handles (mark_closing h c s) = active_handles s"
  "active_reqs (mark_closing h c s) = active_reqs s" "time (mark_closing h c s) = time s"
  "stop_flag (mark_closing h c s) = stop_flag s" "trace (mark_closing h c s) = trace s"
  "uv_loop.more (mark_closing h c s) = uv_loop.more s" "members (mark_closing h c s) = members s"
  by (simp_all add: mark_closing_def set_flag_def members_def)

lemma base_inv_mark [inv_intros]:
  assumes "base_inv D ys s" and "h \<in> members s" and "\<not> bit (flags_of s h) 0"
  shows "base_inv (insert h D) ys (mark_closing h c s)"
proof -
  let ?s = "mark_closing h c s"
  have "counted ?s = counted s" by (auto simp: counted_def)
  moreover have "closing ?s - insert h D = closing s - D"
    using assms(3) by (auto simp: closing_def)
  then have "closing_ok (insert h D) ys ?s"
    by (rule closing_ok_cong [OF base_invD(4) [OF assms(1)]]) simp_all
  ultimately show ?thesis
    using assms by (auto simp: base_inv_def count_ok_def flags_ok_def)
qed

lemma make_close_pending:
  assumes "base_inv (insert h D) ys s" and "h \<in> members s" and "h \<notin> D"
    and "bit (flags_of s h) 0" and "\<not> bit (flags_of s h) 2"
  shows "\<exists>s'. uv__make_close_pending h s = Some s' \<and> base_inv D ys s' \<and> members s' = members s \<and>
    uv_loop.more s' = uv_loop.more s \<and> trace s' = trace s \<and> closing_handles s' = Some h \<and>
    handles s' = (handles s)(h := (handles s h)\<lparr>next_closing := closing_handles s\<rparr>)"
proof -
  let ?s = "(upd_handle h (\<lambda>r. r\<lparr>next_closing := closing_handles s\<rparr>) s)\<lparr>closing_handles := Some h\<rparr>"
  have e: "uv__make_close_pending h s = Some ?s"
    using assms base_inv_closed [OF assms(1,2)] by (simp add: uv__make_close_pending_def flag_simps Let_def)
  have m: "members ?s = members s" "counted ?s = counted s" "closing ?s = closing s"
    by (auto simp: members_def counted_def closing_def)
  obtain xs where xs: "chain (handles s) (closing_handles s) xs" "chain (handles s) (first ys) ys"
    "distinct (xs @ ys)" "set (xs @ ys) = closing s - insert h D"
    using assms(1) by (auto simp: base_inv_def closing_ok_def)
  then have h: "h \<notin> set (xs @ ys)" by blast
  have "chain (handles ?s) (closing_handles ?s) (h # xs)" "chain (handles ?s) (first ys) ys"
    using xs(1,2) h by (auto elim!: chain_cong)
  moreover have "distinct ((h # xs) @ ys)" "set ((h # xs) @ ys) = closing ?s - D"
    using xs(3,4) h assms(2-4) m(3) by (auto simp: closing_def)
  ultimately have "closing_ok D ys ?s" unfolding closing_ok_def by blast
  then have "base_inv D ys ?s"
    using assms m unfolding base_inv_def by (auto simp: count_ok_def flags_ok_def)
  then show ?thesis using e m(1) by auto
qed

end
