(* ===== verification/UvTimer.thy ===== *)
theory UvTimer
  imports UvBase Heap
begin

text \<open>
  The timers of a loop, \<^verbatim>\<open>3rd/libuv/src/timer.c\<close>. A loop keeps its started timers in a binary heap
  (Heap.thy), ordered by due time and, between timers due at the same time, by the order of their
  starts. Times and identifiers are \<^verbatim>\<open>uint64_t\<close>.

  \<open>timers_inv\<close> says that the heap is ordered and holds exactly the active timers of the loop, and
  that an active timer has a callback. Every operation keeps it. The order of the heap follows the
  keys of the nodes on the heap only, which is why writing the key of a stopped timer is harmless.
\<close>

subsection \<open>The code\<close>

definition UV_EINVAL :: int where "UV_EINVAL = - 22"

record uv_timer =
  timer_cb :: "cb option"
  timeout :: u64
  repeat :: u64
  start_id :: u64

record timer_loop = uv_loop +
  timer_heap :: "hid heap"
  timer_counter :: u64
  timers :: "hid \<Rightarrow> uv_timer"

definition upd_timer :: "hid \<Rightarrow> (uv_timer \<Rightarrow> uv_timer) \<Rightarrow> 'a timer_loop_scheme \<Rightarrow> 'a timer_loop_scheme" where
  "upd_timer h f s = s\<lparr>timers := (timers s)(h := f (timers s h))\<rparr>"

definition timer_less_than :: "(hid \<Rightarrow> uv_timer) \<Rightarrow> hid \<Rightarrow> hid \<Rightarrow> bool" where
  "timer_less_than ts ha hb =
     (let a = ts ha; b = ts hb in
      if timeout a < timeout b then True
      else if timeout b < timeout a then False
      else if start_id a < start_id b then True
      else if start_id b < start_id a then False
      else False)"

definition uv_timer_init :: "hid \<Rightarrow> 'a timer_loop_scheme \<Rightarrow> int \<times> 'a timer_loop_scheme" where
  "uv_timer_init h s =
     (let s = uv__handle_init h UV_TIMER s
      in (0, upd_timer h (\<lambda>t. t\<lparr>timer_cb := None, repeat := 0\<rparr>) s))"

definition uv_timer_stop :: "hid \<Rightarrow> 'a timer_loop_scheme \<Rightarrow> (int \<times> 'a timer_loop_scheme) option" where
  "uv_timer_stop h s =
     (if \<not> uv__is_active h s then Some (0, s)
      else do {
        H \<leftarrow> heap_remove h (timer_less_than (timers s)) (timer_heap s);
        Some (0, uv__handle_stop h (s\<lparr>timer_heap := H\<rparr>))
      })"

definition uv_timer_start ::
  "hid \<Rightarrow> cb option \<Rightarrow> u64 \<Rightarrow> u64 \<Rightarrow> 'a timer_loop_scheme \<Rightarrow> (int \<times> 'a timer_loop_scheme) option" where
  "uv_timer_start h c to rpt s =
     (if c = None then Some (UV_EINVAL, s)
      else do {
        (_, s) \<leftarrow> (if uv__is_active h s then uv_timer_stop h s else Some (0, s));
        let clamped_timeout = time s + to;
        let clamped_timeout = (if clamped_timeout < to then - 1 else clamped_timeout);
        let s = upd_timer h (\<lambda>t. t\<lparr>timer_cb := c, timeout := clamped_timeout, repeat := rpt,
                                   start_id := timer_counter s\<rparr>) s;
        let s = s\<lparr>timer_counter := timer_counter s + 1\<rparr>;
        H \<leftarrow> heap_insert h (timer_less_than (timers s)) (timer_heap s);
        Some (0, uv__handle_start h (s\<lparr>timer_heap := H\<rparr>))
      })"

definition uv_timer_again :: "hid \<Rightarrow> 'a timer_loop_scheme \<Rightarrow> (int \<times> 'a timer_loop_scheme) option" where
  "uv_timer_again h s =
     (if timer_cb (timers s h) = None then Some (UV_EINVAL, s)
      else if repeat (timers s h) \<noteq> 0 then do {
        (_, s) \<leftarrow> uv_timer_stop h s;
        (_, s) \<leftarrow> uv_timer_start h (timer_cb (timers s h)) (repeat (timers s h)) (repeat (timers s h)) s;
        Some (0, s)
      } else Some (0, s))"

definition uv_timer_set_repeat :: "hid \<Rightarrow> u64 \<Rightarrow> 'a timer_loop_scheme \<Rightarrow> 'a timer_loop_scheme" where
  "uv_timer_set_repeat h rpt s = upd_timer h (\<lambda>t. t\<lparr>repeat := rpt\<rparr>) s"

definition uv_timer_get_repeat :: "hid \<Rightarrow> 'a timer_loop_scheme \<Rightarrow> u64" where
  "uv_timer_get_repeat h s = repeat (timers s h)"

definition INT_MAX :: int where "INT_MAX = 2147483647"

definition uv__next_timeout :: "'a timer_loop_scheme \<Rightarrow> int" where
  "uv__next_timeout s =
     (case heap_min (timer_heap s) of
        None \<Rightarrow> - 1
      | Some h \<Rightarrow>
          if timeout (timers s h) \<le> time s then 0
          else (let diff = timeout (timers s h) - time s;
                    diff = (if uint diff > INT_MAX then word_of_int INT_MAX else diff)
                in uint diff))"

text \<open>
  The loop of \<^verbatim>\<open>uv__run_timers\<close> has no bound: a callback may start a timer that is due at once.
  \<open>None\<close> also covers a run that never ends.
\<close>

partial_function (option) uv__run_timers ::
  "'a timer_loop_scheme client \<Rightarrow> 'a timer_loop_scheme \<Rightarrow> 'a timer_loop_scheme option" where
  "uv__run_timers call s =
     (case heap_min (timer_heap s) of
        None \<Rightarrow> Some s
      | Some h \<Rightarrow>
          if timeout (timers s h) > time s then Some s
          else do {
            (_, s) \<leftarrow> uv_timer_stop h s;
            (_, s) \<leftarrow> uv_timer_again h s;
            c \<leftarrow> timer_cb (timers s h);
            s \<leftarrow> invoke call c h s;
            uv__run_timers call s
          })"

declare uv__run_timers.simps [code]

definition uv__timer_close :: "hid \<Rightarrow> 'a timer_loop_scheme \<Rightarrow> 'a timer_loop_scheme option" where
  "uv__timer_close h s = do { (_, s) \<leftarrow> uv_timer_stop h s; Some s }"

subsection \<open>What the operations leave alone\<close>

lemma upd_timer_simps [simp]:
  "timers (upd_timer h f s) = (timers s)(h := f (timers s h))"
  "timer_heap (upd_timer h f s) = timer_heap s" "timer_counter (upd_timer h f s) = timer_counter s"
  "active_handles (upd_timer h f s) = active_handles s" "active_reqs (upd_timer h f s) = active_reqs s"
  "handle_queue (upd_timer h f s) = handle_queue s" "walk_queue (upd_timer h f s) = walk_queue s"
  "closing_handles (upd_timer h f s) = closing_handles s" "time (upd_timer h f s) = time s"
  "stop_flag (upd_timer h f s) = stop_flag s" "trace (upd_timer h f s) = trace s"
  "handles (upd_timer h f s) = handles s" "timer_loop.more (upd_timer h f s) = timer_loop.more s"
  "members (upd_timer h f s) = members s"
  by (simp_all add: upd_timer_def members_def)

lemma timer_base_frames [simp]:
  "timers (uv__handle_start h s) = timers s" "timers (uv__handle_stop h s) = timers s"
  "timers (uv__handle_ref h s) = timers s" "timers (uv__handle_unref h s) = timers s"
  "timers (uv__handle_init h t s) = timers s" "timers (mark_closing h c s) = timers s"
  "timer_heap (uv__handle_start h s) = timer_heap s" "timer_heap (uv__handle_stop h s) = timer_heap s"
  "timer_heap (uv__handle_ref h s) = timer_heap s" "timer_heap (uv__handle_unref h s) = timer_heap s"
  "timer_heap (uv__handle_init h t s) = timer_heap s" "timer_heap (mark_closing h c s) = timer_heap s"
  "timer_counter (uv__handle_start h s) = timer_counter s" "timer_counter (uv__handle_stop h s) = timer_counter s"
  "timer_counter (uv__handle_ref h s) = timer_counter s" "timer_counter (uv__handle_unref h s) = timer_counter s"
  "timer_counter (uv__handle_init h t s) = timer_counter s" "timer_counter (mark_closing h c s) = timer_counter s"
  "timer_loop.more (uv__handle_start h s) = timer_loop.more s" "timer_loop.more (uv__handle_stop h s) = timer_loop.more s"
  "timer_loop.more (uv__handle_ref h s) = timer_loop.more s" "timer_loop.more (uv__handle_unref h s) = timer_loop.more s"
  "timer_loop.more (uv__handle_init h t s) = timer_loop.more s" "timer_loop.more (mark_closing h c s) = timer_loop.more s"
  by (simp_all add: macro_defs uv__handle_init_def mark_closing_def upd_handle_def Let_def)

lemma members_timer_upds [simp]:
  "members (timer_heap_update f s) = members s" "members (timer_counter_update g s) = members s"
  by (simp_all add: members_def)

subsection \<open>The order of timers\<close>

lemma timer_less_than_lex:
  "timer_less_than ts a b \<longleftrightarrow>
     timeout (ts a) < timeout (ts b) \<or> timeout (ts a) = timeout (ts b) \<and> start_id (ts a) < start_id (ts b)"
  by (auto simp: timer_less_than_def Let_def)

lemma timer_less_than_order: "weak_order (timer_less_than ts)"
  unfolding weak_order_def timer_less_than_lex by auto

subsection \<open>The invariant\<close>

definition active_timers :: "'a timer_loop_scheme \<Rightarrow> hid set" where
  "active_timers s = {h \<in> members s. htype (handles s h) = UV_TIMER \<and> bit (flags_of s h) 2}"

definition timers_inv :: "'a timer_loop_scheme \<Rightarrow> bool" where
  "timers_inv s \<longleftrightarrow> heap_ok (timer_less_than (timers s)) (timer_heap s) (active_timers s) \<and>
     (\<forall>h\<in>active_timers s. timer_cb (timers s h) \<noteq> None)"

lemma timers_inv_cong:
  assumes "timers_inv s" and "timer_heap s' = timer_heap s" and "active_timers s' = active_timers s"
    and "\<And>h. h \<in> active_timers s \<Longrightarrow> timeout (timers s' h) = timeout (timers s h) \<and>
      start_id (timers s' h) = start_id (timers s h) \<and> timer_cb (timers s' h) = timer_cb (timers s h)"
  shows "timers_inv s'"
proof -
  have "heap_ok (timer_less_than (timers s')) (timer_heap s) (active_timers s)"
    by (rule uvheap.holds_cong [where lt = "timer_less_than (timers s)"])
      (use assms(1,4) in \<open>auto simp: timers_inv_def timer_less_than_lex\<close>)
  then show ?thesis using assms by (simp add: timers_inv_def)
qed

text \<open>Operations on other handles, and those on timers that do not start or stop one.\<close>

lemma active_timers_other:
  assumes "htype (handles s h) \<noteq> UV_TIMER"
  shows "active_timers (uv__handle_start h s) = active_timers s" "active_timers (uv__handle_stop h s) = active_timers s"
  using assms by (auto simp: active_timers_def)

lemma active_timers_same [simp]:
  "active_timers (uv__handle_ref h s) = active_timers s" "active_timers (uv__handle_unref h s) = active_timers s"
  "active_timers (mark_closing h c s) = active_timers s" "active_timers (upd_timer h f s) = active_timers s"
  "active_timers (timer_heap_update g s) = active_timers s" "active_timers (timer_counter_update k s) = active_timers s"
  by (auto simp: active_timers_def members_def)

lemma active_timers_init: "h \<notin> members s \<Longrightarrow> active_timers (uv__handle_init h t s) = active_timers s"
  by (auto simp: active_timers_def)

lemma timers_inv_other [inv_intros]:
  "timers_inv s \<Longrightarrow> htype (handles s h) \<noteq> UV_TIMER \<Longrightarrow> timers_inv (uv__handle_start h s)"
  "timers_inv s \<Longrightarrow> htype (handles s h) \<noteq> UV_TIMER \<Longrightarrow> timers_inv (uv__handle_stop h s)"
  "timers_inv s \<Longrightarrow> timers_inv (uv__handle_ref h s)"
  "timers_inv s \<Longrightarrow> timers_inv (uv__handle_unref h s)"
  "timers_inv s \<Longrightarrow> timers_inv (mark_closing h c s)"
  "timers_inv s \<Longrightarrow> h \<notin> members s \<Longrightarrow> timers_inv (uv__handle_init h t s)"
  by (erule timers_inv_cong; simp add: active_timers_other active_timers_init)+

lemma uv_timer_set_repeat_inv [inv_intros]: "timers_inv s \<Longrightarrow> timers_inv (uv_timer_set_repeat h r s)"
  unfolding uv_timer_set_repeat_def by (erule timers_inv_cong) simp_all


subsection \<open>Stopping and starting\<close>

text \<open>The parts of the loop that starting and stopping a handle leaves alone.\<close>

definition same_loop :: "'a uv_loop_scheme \<Rightarrow> 'a uv_loop_scheme \<Rightarrow> bool" where
  "same_loop s s' \<longleftrightarrow> handle_queue s' = handle_queue s \<and> walk_queue s' = walk_queue s \<and>
     closing_handles s' = closing_handles s \<and> time s' = time s \<and> stop_flag s' = stop_flag s \<and>
     trace s' = trace s \<and> active_reqs s' = active_reqs s"

lemma same_loop_members: "same_loop s s' \<Longrightarrow> members s' = members s"
  by (simp add: same_loop_def members_def)

lemma same_loop_trans: "same_loop s s' \<Longrightarrow> same_loop s' s'' \<Longrightarrow> same_loop s s''"
  by (simp add: same_loop_def)

lemma timer_heap_update_simps [simp]:
  "has_flag f h (timer_heap_update g s) = has_flag f h s" "has_flag f h (timer_counter_update k s) = has_flag f h s"
  "has_flag f h (upd_timer h' u s) = has_flag f h s" "uv__is_active h (timer_heap_update g s) = uv__is_active h s"
  by (simp_all add: has_flag_def uv__is_active_def)

lemma is_active_bit: "uv__is_active h s \<longleftrightarrow> bit (flags_of s h) 2"
  by (simp add: uv__is_active_def flag_simps)

lemma is_closing_bit: "uv__is_closing h s \<longleftrightarrow> bit (flags_of s h) 0 \<or> bit (flags_of s h) 1"
  by (simp add: uv__is_closing_def flag_simps)

lemma base_inv_timer_upds:
  "base_inv D ys (timer_heap_update g s) = base_inv D ys s" "base_inv D ys (timer_counter_update k s) = base_inv D ys s"
  "base_inv D ys (upd_timer h u s) = base_inv D ys s"
  by (auto elim!: base_inv_cong)

lemma uv_timer_stop_inactive: "\<not> bit (flags_of s h) 2 \<Longrightarrow> uv_timer_stop h s = Some (0, s)"
  by (simp add: uv_timer_stop_def is_active_bit)

lemma uv_timer_stop_ok:
  assumes "timers_inv s" and "h \<in> members s" and "htype (handles s h) = UV_TIMER"
  shows "\<exists>s'. uv_timer_stop h s = Some (0, s') \<and> timers_inv s' \<and> active_timers s' = active_timers s - {h} \<and>
    s' = uv__handle_stop h (s\<lparr>timer_heap := timer_heap s'\<rparr>)"
proof (cases "bit (flags_of s h) 2")
  case False
  then have "uv__handle_stop h s = s" by (simp add: uv__handle_stop_def flag_simps)
  with False assms show ?thesis
    by (intro exI [of _ s]) (auto simp: uv_timer_stop_inactive active_timers_def)
next
  case True
  then have "h \<in> active_timers s" using assms by (simp add: active_timers_def)
  then obtain H where H: "heap_remove h (timer_less_than (timers s)) (timer_heap s) = Some H"
    "heap_ok (timer_less_than (timers s)) H (active_timers s - {h})"
    using uvheap.remove_ok [OF timer_less_than_order] assms(1) unfolding timers_inv_def by blast
  let ?s = "uv__handle_stop h (s\<lparr>timer_heap := H\<rparr>)"
  have e: "uv_timer_stop h s = Some (0, ?s)" using True H(1) by (simp add: uv_timer_stop_def is_active_bit)
  have a: "active_timers ?s = active_timers s - {h}" by (auto simp: active_timers_def)
  have "timers_inv ?s" using H(2) assms(1) by (simp add: timers_inv_def a)
  then show ?thesis using e a by simp
qed

text \<open>The due time of a timer: the sum does not wrap, it sticks at the largest \<^verbatim>\<open>uint64_t\<close>.\<close>

definition due_time :: "u64 \<Rightarrow> u64 \<Rightarrow> u64" where
  "due_time now to = (if now + to < to then - 1 else now + to)"

lemma uint_due_time: "uint (due_time now to) = min (uint now + uint to) (2 ^ 64 - 1)"
proof -
  have e: "now + to < to \<longleftrightarrow> 2 ^ 64 \<le> uint now + uint to"
  proof -
    have b: "uint now < 2 ^ 64" "uint to < 2 ^ 64" "0 \<le> uint now" "0 \<le> uint to"
      using uint_bounded [of now] uint_bounded [of to] by simp_all
    show ?thesis
    proof (cases "uint now + uint to < 2 ^ 64")
      case True
      then show ?thesis using b by (simp add: word_less_def uint_word_ariths)
    next
      case False
      then have "(uint now + uint to) mod 2 ^ 64 = uint now + uint to - 2 ^ 64"
        using b minus_mod_self2 [of "uint now + uint to" "2 ^ 64"]
          mod_pos_pos_trivial [of "uint now + uint to - 2 ^ 64" "2 ^ 64"] by linarith
      then show ?thesis using b False by (simp add: word_less_def uint_word_ariths)
    qed
  qed
  have m: "uint (- 1 :: u64) = 2 ^ 64 - 1" by (simp add: unsigned_minus_1_eq_mask mask_eq_exp_minus_1)
  show ?thesis
  proof (cases "2 ^ 64 \<le> uint now + uint to")
    case True
    then show ?thesis using e m by (simp add: due_time_def)
  next
    case False
    then have "uint (now + to) = uint now + uint to" by (simp add: uint_word_ariths)
    then show ?thesis using e False by (simp add: due_time_def)
  qed
qed

lemma uv_timer_start_ok:
  assumes "timers_inv s" and "h \<in> members s" and "htype (handles s h) = UV_TIMER"
  shows "\<exists>s'. uv_timer_start h (Some c) to rpt s = Some (0, s') \<and> timers_inv s' \<and>
    active_timers s' = insert h (active_timers s) \<and>
    timers s' = (timers s)(h := \<lparr>timer_cb = Some c, timeout = due_time (time s) to, repeat = rpt, start_id = timer_counter s\<rparr>) \<and>
    timer_counter s' = timer_counter s + 1 \<and> same_loop s s' \<and> timer_loop.more s' = timer_loop.more s \<and>
    handles s' = (handles s)(h := (handles s h)\<lparr>hflags := flags_of s h OR UV_HANDLE_ACTIVE\<rparr>) \<and>
    (\<forall>D ys. base_inv D ys s \<longrightarrow> \<not> bit (flags_of s h) 0 \<longrightarrow> base_inv D ys s')"
proof -
  obtain s1 where s1: "uv_timer_stop h s = Some (0, s1)" "timers_inv s1" "active_timers s1 = active_timers s - {h}"
    "s1 = uv__handle_stop h (s\<lparr>timer_heap := timer_heap s1\<rparr>)"
    using uv_timer_stop_ok [OF assms] by blast
  have "uv_timer_start h (Some c) to rpt s =
      (let s = upd_timer h (\<lambda>t. t\<lparr>timer_cb := Some c, timeout := due_time (time s1) to, repeat := rpt,
                                   start_id := timer_counter s1\<rparr>) s1;
           s = s\<lparr>timer_counter := timer_counter s + 1\<rparr>
       in do { H \<leftarrow> heap_insert h (timer_less_than (timers s)) (timer_heap s);
               Some (0, uv__handle_start h (s\<lparr>timer_heap := H\<rparr>)) })"
    using s1(1) uv_timer_stop_inactive [of s h]
    by (cases "bit (flags_of s h) 2") (simp_all add: uv_timer_start_def due_time_def is_active_bit Let_def)
  moreover define s2 where "s2 = (upd_timer h (\<lambda>t. t\<lparr>timer_cb := Some c, timeout := due_time (time s1) to, repeat := rpt,
      start_id := timer_counter s1\<rparr>) s1)\<lparr>timer_counter := timer_counter s1 + 1\<rparr>"
  ultimately have e: "uv_timer_start h (Some c) to rpt s =
      do { H \<leftarrow> heap_insert h (timer_less_than (timers s2)) (timer_heap s2);
           Some (0, uv__handle_start h (s2\<lparr>timer_heap := H\<rparr>)) }"
    by (simp add: Let_def)
  have o: "timers_inv s2" using s1(2) by (rule timers_inv_cong) (auto simp: s2_def s1(3))
  have a2: "active_timers s2 = active_timers s - {h}" using s1(3) by (simp add: s2_def)
  then have "h \<notin> active_timers s2" by simp
  then obtain H where H: "heap_insert h (timer_less_than (timers s2)) (timer_heap s2) = Some H"
    "heap_ok (timer_less_than (timers s2)) H (insert h (active_timers s2))"
    using uvheap.insert_ok [OF timer_less_than_order] o unfolding timers_inv_def by blast
  let ?s = "uv__handle_start h (s2\<lparr>timer_heap := H\<rparr>)"
  have t1: "timers s1 = timers s" "timer_counter s1 = timer_counter s" "time s1 = time s" "same_loop s s1"
    "timer_loop.more s1 = timer_loop.more s" "members s1 = members s"
    "handles s1 = (handles s)(h := (handles s h)\<lparr>hflags := flags_of s h AND NOT UV_HANDLE_ACTIVE\<rparr>)"
    by (subst s1(4); simp add: same_loop_def)+
  have w: "(w AND NOT UV_HANDLE_ACTIVE) OR UV_HANDLE_ACTIVE = w OR UV_HANDLE_ACTIVE" for w :: u32
    by (rule bit_word_eqI) (auto simp: flag_simps bit_simps)
  have a: "active_timers ?s = insert h (active_timers s)"
    using assms by (auto simp: active_timers_def s2_def t1)
  have cb: "timer_cb (timers ?s x) \<noteq> None" if "x \<in> insert h (active_timers s)" for x
    using that assms(1) by (auto simp: s2_def timers_inv_def t1)
  have inv: "timers_inv ?s"
    unfolding timers_inv_def a using cb H(2) by (simp add: a2)
  have b: "base_inv D ys ?s" if "base_inv D ys s" "\<not> bit (flags_of s h) 0" for D ys
  proof -
    have "base_inv D ys s1" by (subst s1(4)) (simp add: base_inv_stop base_inv_timer_upds that assms(2))
    then have "base_inv D ys (s2\<lparr>timer_heap := H\<rparr>)" by (simp add: s2_def base_inv_timer_upds)
    then show ?thesis by (rule base_inv_start) (use that assms in \<open>simp_all add: s2_def t1\<close>)
  qed
  have "timers ?s = (timers s)(h := \<lparr>timer_cb = Some c, timeout = due_time (time s) to, repeat = rpt, start_id = timer_counter s\<rparr>)"
    by (rule ext) (simp add: s2_def t1)
  then show ?thesis
    using e H(1) inv a b t1 w by (auto simp: s2_def same_loop_def)
qed


lemma stop_frames:
  assumes "s' = uv__handle_stop h (s\<lparr>timer_heap := H\<rparr>)"
  shows "timers s' = timers s" "timer_counter s' = timer_counter s" "same_loop s s'" "time s' = time s"
    "timer_loop.more s' = timer_loop.more s" "members s' = members s"
    "handles s' = (handles s)(h := (handles s h)\<lparr>hflags := flags_of s h AND NOT UV_HANDLE_ACTIVE\<rparr>)"
    "h \<in> members s \<Longrightarrow> base_inv D ys s \<Longrightarrow> base_inv D ys s'"
  by (simp_all add: assms same_loop_def base_inv_stop base_inv_timer_upds)

text \<open>\<open>uv_timer_again\<close> on every branch.\<close>

lemma uv_timer_again_null: "timer_cb (timers s h) = None \<Longrightarrow> uv_timer_again h s = Some (UV_EINVAL, s)"
  by (simp add: uv_timer_again_def)

lemma uv_timer_again_once:
  "timer_cb (timers s h) \<noteq> None \<Longrightarrow> repeat (timers s h) = 0 \<Longrightarrow> uv_timer_again h s = Some (0, s)"
  by (auto simp: uv_timer_again_def)

lemma uv_timer_again_repeat:
  assumes "timers_inv s" and "h \<in> members s" and "htype (handles s h) = UV_TIMER"
    and "timer_cb (timers s h) = Some c" and "repeat (timers s h) \<noteq> 0"
  shows "\<exists>s'. uv_timer_again h s = Some (0, s') \<and> timers_inv s' \<and> active_timers s' = insert h (active_timers s) \<and>
    timers s' = (timers s)(h := \<lparr>timer_cb = Some c, timeout = due_time (time s) (repeat (timers s h)),
      repeat = repeat (timers s h), start_id = timer_counter s\<rparr>) \<and>
    timer_counter s' = timer_counter s + 1 \<and> same_loop s s' \<and> timer_loop.more s' = timer_loop.more s \<and>
    handles s' = (handles s)(h := (handles s h)\<lparr>hflags := flags_of s h OR UV_HANDLE_ACTIVE\<rparr>) \<and>
    (\<forall>D ys. base_inv D ys s \<longrightarrow> \<not> bit (flags_of s h) 0 \<longrightarrow> base_inv D ys s')"
proof -
  obtain s1 where s1: "uv_timer_stop h s = Some (0, s1)" "timers_inv s1" "active_timers s1 = active_timers s - {h}"
    "s1 = uv__handle_stop h (s\<lparr>timer_heap := timer_heap s1\<rparr>)"
    using uv_timer_stop_ok [OF assms(1-3)] by blast
  note f = stop_frames [OF s1(4)]
  have "h \<in> members s1" "htype (handles s1 h) = UV_TIMER" using assms f by simp_all
  then obtain s2 where s2: "uv_timer_start h (Some c) (repeat (timers s h)) (repeat (timers s h)) s1 = Some (0, s2)"
    "timers_inv s2" "active_timers s2 = insert h (active_timers s1)"
    "timers s2 = (timers s1)(h := \<lparr>timer_cb = Some c, timeout = due_time (time s1) (repeat (timers s h)),
       repeat = repeat (timers s h), start_id = timer_counter s1\<rparr>)"
    "timer_counter s2 = timer_counter s1 + 1" "same_loop s1 s2" "timer_loop.more s2 = timer_loop.more s1"
    "handles s2 = (handles s1)(h := (handles s1 h)\<lparr>hflags := flags_of s1 h OR UV_HANDLE_ACTIVE\<rparr>)"
    "\<forall>D ys. base_inv D ys s1 \<longrightarrow> \<not> bit (flags_of s1 h) 0 \<longrightarrow> base_inv D ys s2"
    using uv_timer_start_ok [OF s1(2)] by blast
  have "(w AND NOT UV_HANDLE_ACTIVE) OR UV_HANDLE_ACTIVE = w OR UV_HANDLE_ACTIVE" for w :: u32
    by (rule bit_word_eqI) (auto simp: flag_simps bit_simps)
  then have "handles s2 = (handles s)(h := (handles s h)\<lparr>hflags := flags_of s h OR UV_HANDLE_ACTIVE\<rparr>)"
    by (simp add: s2(8) f(7))
  moreover have "uv_timer_again h s = Some (0, s2)"
    using assms s1(1) s2(1) f(1) by (simp add: uv_timer_again_def)
  moreover have "same_loop s s2" using f(3) s2(6) by (rule same_loop_trans)
  moreover have "base_inv D ys s2" if "base_inv D ys s" "\<not> bit (flags_of s h) 0" for D ys
    using that s2(9) f(7) f(8) [OF assms(2), of D ys] by simp
  ultimately show ?thesis using s2 s1(3) f by auto
qed

subsection \<open>Due timers\<close>

definition due :: "'a timer_loop_scheme \<Rightarrow> hid set" where
  "due s = {h \<in> active_timers s. timeout (timers s h) \<le> time s}"

lemma finite_active_timers [simp]: "finite (active_timers s)" "finite (due s)"
  by (simp_all add: due_def active_timers_def members_def)

lemma timers_inv_min:
  assumes "timers_inv s" and "heap_min (timer_heap s) = Some h"
  shows "h \<in> active_timers s" "\<And>a. a \<in> active_timers s \<Longrightarrow> \<not> timer_less_than (timers s) a h"
  using uvheap.minimum_Some [OF timer_less_than_order, of "timers s" "timer_heap s" "active_timers s" h] assms
  by (auto simp: timers_inv_def)

lemma timers_inv_min_None: "timers_inv s \<Longrightarrow> heap_min (timer_heap s) = None \<longleftrightarrow> active_timers s = {}"
  using uvheap.minimum_None [OF timer_less_than_order] unfolding timers_inv_def by blast

lemma due_time_later: "now < - 1 \<Longrightarrow> r \<noteq> 0 \<Longrightarrow> now < due_time now r"
proof -
  assume a: "now < - 1" "r \<noteq> 0"
  have "uint r \<noteq> 0" using a(2) by (simp add: uint_0_iff)
  then have "uint r > 0" using uint_ge_0 [of r] by linarith
  moreover have "uint now < 2 ^ 64 - 1"
    using a(1) by (simp add: word_less_def unsigned_minus_1_eq_mask mask_eq_exp_minus_1)
  ultimately have "uint now < uint (due_time now r)" unfolding uint_due_time by linarith
  then show ?thesis by (simp add: word_less_def)
qed

text \<open>What the loop of \<open>uv__run_timers\<close> does to a due timer before it runs the callback.\<close>

lemma fire_step:
  assumes "timers_inv s" and h: "h \<in> active_timers s" and "timer_cb (timers s h) = Some c"
  shows "\<exists>s0 s1. uv_timer_stop h s = Some (0, s0) \<and> uv_timer_again h s0 = Some (0, s1) \<and> timers_inv s1 \<and>
    timer_cb (timers s1 h) = Some c \<and> (\<forall>x. x \<noteq> h \<longrightarrow> timers s1 x = timers s x) \<and> same_loop s s1 \<and>
    timer_loop.more s1 = timer_loop.more s \<and> (time s < - 1 \<longrightarrow> due s1 = due s - {h}) \<and>
    (\<forall>D ys. base_inv D ys s \<longrightarrow> \<not> bit (flags_of s h) 0 \<longrightarrow> base_inv D ys s1)"
proof -
  have m: "h \<in> members s" "htype (handles s h) = UV_TIMER" using h by (auto simp: active_timers_def)
  obtain s0 where s0: "uv_timer_stop h s = Some (0, s0)" "timers_inv s0" "active_timers s0 = active_timers s - {h}"
    "s0 = uv__handle_stop h (s\<lparr>timer_heap := timer_heap s0\<rparr>)"
    using uv_timer_stop_ok [OF assms(1) m] by blast
  note f = stop_frames [OF s0(4)]
  show ?thesis
  proof (cases "repeat (timers s h) = 0")
    case True
    then have "uv_timer_again h s0 = Some (0, s0)" using assms(3) f(1) by (simp add: uv_timer_again_once)
    moreover have "due s0 = due s - {h}" using s0(3) f by (auto simp: due_def)
    moreover have "\<forall>D ys. base_inv D ys s \<longrightarrow> base_inv D ys s0" using f(8) [OF m(1)] by blast
    ultimately show ?thesis using s0(1,2) f(1,3,5) assms(3) by (intro exI [of _ s0]) simp
  next
    case False
    have m0: "h \<in> members s0" "htype (handles s0 h) = UV_TIMER" "timer_cb (timers s0 h) = Some c"
      "repeat (timers s0 h) \<noteq> 0" using m f assms(3) False by simp_all
    obtain s1 where s1: "uv_timer_again h s0 = Some (0, s1)" "timers_inv s1" "active_timers s1 = insert h (active_timers s0)"
      "timers s1 = (timers s0)(h := \<lparr>timer_cb = Some c, timeout = due_time (time s0) (repeat (timers s0 h)),
         repeat = repeat (timers s0 h), start_id = timer_counter s0\<rparr>)"
      "same_loop s0 s1" "timer_loop.more s1 = timer_loop.more s0"
      "\<forall>D ys. base_inv D ys s0 \<longrightarrow> \<not> bit (flags_of s0 h) 0 \<longrightarrow> base_inv D ys s1"
      using uv_timer_again_repeat [OF s0(2) m0] by blast
    have "due s1 = due s - {h}" if "time s < - 1"
    proof -
      have t: "time s1 = time s" using f(3) s1(5) by (simp add: same_loop_def)
      have "time s < due_time (time s) (repeat (timers s h))" using that False by (rule due_time_later)
      then have "\<not> timeout (timers s1 h) \<le> time s" using f(1,4) by (simp add: s1(4) not_le)
      moreover have "timeout (timers s1 x) = timeout (timers s x)" if "x \<noteq> h" for x
        using that f(1) by (simp add: s1(4))
      ultimately show ?thesis unfolding due_def t s1(3) s0(3) by (intro set_eqI) (metis (mono_tags, lifting) Diff_iff insert_iff mem_Collect_eq singletonD)
    qed
    moreover have "base_inv D ys s1" if "base_inv D ys s" "\<not> bit (flags_of s h) 0" for D ys
      using that s1(7) f(7) f(8) [OF m(1), of D ys] by simp
    moreover have "same_loop s s1" using f(3) s1(5) by (rule same_loop_trans)
    moreover have "timer_cb (timers s1 h) = Some c" "\<forall>x. x \<noteq> h \<longrightarrow> timers s1 x = timers s x"
      using s1(4) f(1) by simp_all
    moreover have "timer_loop.more s1 = timer_loop.more s" using s1(6) f(5) by simp
    ultimately show ?thesis using s0(1) s1(1,2)
      by (rule_tac x = s0 in exI, rule_tac x = s1 in exI) (intro conjI; simp)
  qed
qed


subsection \<open>Running the due timers\<close>

text \<open>
  A calm client: its callbacks return, keep the timers of the loop well formed and make no timer
  due that was not due before. It may stop timers, due ones too, and start timers for later.
\<close>

locale calm_client =
  fixes call :: "'a timer_loop_scheme client"
  assumes calm: "timers_inv s \<Longrightarrow> time s < - 1 \<Longrightarrow>
    \<exists>s'. call c h s = Some s' \<and> timers_inv s' \<and> time s' = time s \<and> trace s' = trace s \<and>
      due s' \<subseteq> due s \<and> (\<forall>x\<in>due s'. timeout (timers s' x) = timeout (timers s x) \<and>
        start_id (timers s' x) = start_id (timers s x) \<and> timer_cb (timers s' x) = timer_cb (timers s x))"
begin

lemma run_timers_calm:
  assumes "timers_inv s" and "time s < - 1"
  shows "\<exists>s' xs. uv__run_timers call s = Some s' \<and> timers_inv s' \<and> due s' = {} \<and> time s' = time s \<and>
    trace s' = trace s @ map (\<lambda>x. (the (timer_cb (timers s x)), x)) xs \<and> distinct xs \<and> set xs \<subseteq> due s \<and>
    sorted_wrt (\<lambda>a b. \<not> timer_less_than (timers s) b a) xs \<and>
    ((\<forall>c h r r'. call c h r = Some r' \<longrightarrow> due r' = due r) \<longrightarrow> set xs = due s)"
  using assms
proof (induction "card (due s)" arbitrary: s rule: less_induct)
  case less
  note I = less.prems
  show ?case
  proof (cases "heap_min (timer_heap s)")
    case None
    then have "due s = {}" using timers_inv_min_None [OF I(1)] by (simp add: due_def)
    then show ?thesis using I None by (intro exI [of _ s] exI [of _ "[]"]) (subst uv__run_timers.simps; simp)
  next
    case (Some h)
    note min = timers_inv_min [OF I(1) Some]
    show ?thesis
    proof (cases "timeout (timers s h) > time s")
      case True
      then have "due s = {}" using min(2) by (fastforce simp: due_def timer_less_than_lex)
      then show ?thesis using I Some True
        by (intro exI [of _ s] exI [of _ "[]"]) (subst uv__run_timers.simps; simp)
    next
      case False
      then have hd: "h \<in> due s" using min(1) by (simp add: due_def)
      obtain c where c: "timer_cb (timers s h) = Some c" using I(1) min(1) by (auto simp: timers_inv_def)
      obtain s0 s1 where s1: "uv_timer_stop h s = Some (0, s0)" "uv_timer_again h s0 = Some (0, s1)" "timers_inv s1"
        "timer_cb (timers s1 h) = Some c" "\<forall>x. x \<noteq> h \<longrightarrow> timers s1 x = timers s x" "same_loop s s1" "due s1 = due s - {h}"
        using fire_step [OF I(1) min(1) c] I(2) by blast
      let ?s1 = "s1\<lparr>trace := trace s1 @ [(c, h)]\<rparr>"
      have i1: "timers_inv ?s1" by (rule timers_inv_cong [OF s1(3)]) (auto simp: active_timers_def members_def)
      have t1: "time ?s1 = time s" "trace ?s1 = trace s @ [(c, h)]" "due ?s1 = due s - {h}" "timers ?s1 = timers s1"
        using s1(6,7) by (auto simp: same_loop_def due_def active_timers_def members_def)
      obtain s2 where s2: "call c h ?s1 = Some s2" "timers_inv s2" "time s2 = time s" "trace s2 = trace s @ [(c, h)]"
        "due s2 \<subseteq> due s - {h}" "\<forall>x\<in>due s2. timeout (timers s2 x) = timeout (timers s1 x) \<and>
        start_id (timers s2 x) = start_id (timers s1 x) \<and> timer_cb (timers s2 x) = timer_cb (timers s1 x)"
        using calm [OF i1, of c h] I(2) unfolding t1 by blast
      then have ts: "timeout (timers s2 x) = timeout (timers s x) \<and> start_id (timers s2 x) = start_id (timers s x) \<and>
          timer_cb (timers s2 x) = timer_cb (timers s x)" if "x \<in> due s2" for x using that s1(5) by fastforce
      have "card (due s2) < card (due s)" by (rule psubset_card_mono) (use s2(5) hd in auto)
      from less.hyps [OF this s2(2)] I(2)
      obtain s' xs where s': "uv__run_timers call s2 = Some s'" "timers_inv s'" "due s' = {}" "time s' = time s"
        "trace s' = trace s2 @ map (\<lambda>x. (the (timer_cb (timers s2 x)), x)) xs" "distinct xs" "set xs \<subseteq> due s2"
        "sorted_wrt (\<lambda>a b. \<not> timer_less_than (timers s2) b a) xs"
        "(\<forall>c h r r'. call c h r = Some r' \<longrightarrow> due r' = due r) \<longrightarrow> set xs = due s2"
        unfolding s2(3) by blast
      have "uv__run_timers call s = Some s'"
        using Some False s1 s2(1) s'(1) by (subst uv__run_timers.simps) (simp add: invoke_def)
      moreover have "trace s' = trace s @ map (\<lambda>x. (the (timer_cb (timers s x)), x)) (h # xs)"
        using s'(5,7) s2(4) ts c by auto
      moreover have "timer_less_than (timers s2) b a = timer_less_than (timers s) b a"
        if "a \<in> set xs" "b \<in> set xs" for a b
        using ts [OF subsetD [OF s'(7) that(1)]] ts [OF subsetD [OF s'(7) that(2)]]
        by (simp add: timer_less_than_lex)
      then have "sorted_wrt (\<lambda>a b. \<not> timer_less_than (timers s) b a) xs"
        by (intro sorted_wrt_mono_rel [OF _ s'(8)]) simp
      then have "sorted_wrt (\<lambda>a b. \<not> timer_less_than (timers s) b a) (h # xs)"
        using min(2) s'(7) s2(5) by (auto simp: due_def)
      moreover have "distinct (h # xs)" "set (h # xs) \<subseteq> due s" using s'(6,7) s2(5) hd by auto
      moreover have "set (h # xs) = due s" if "\<forall>c h r r'. call c h r = Some r' \<longrightarrow> due r' = due r"
        using that s'(9) s2(1) t1(3) hd by auto
      ultimately show ?thesis using s'(2,3,4) by blast
    qed
  qed
qed

end


subsection \<open>Clients that use timers in their callbacks\<close>

text \<open>
  A callback as a list of calls to the timer functions, made only on timers that are alive and not
  closing, as the wrappers of Moe.UV check. \<open>OpStart\<close> starts a timer for later, at least one
  millisecond from now.
\<close>

datatype timer_op = OpStop hid | OpStart hid cb u64 u64 | OpAgain hid | OpSetRepeat hid u64

definition live_timer :: "hid \<Rightarrow> 'a timer_loop_scheme \<Rightarrow> bool" where
  "live_timer h s \<longleftrightarrow> h \<in> set (handle_queue s @ walk_queue s) \<and> htype (handles s h) = UV_TIMER \<and> \<not> uv__is_closing h s"

fun run_timer_op :: "timer_op \<Rightarrow> 'a timer_loop_scheme \<Rightarrow> 'a timer_loop_scheme option" where
  "run_timer_op (OpStop h) s = (if live_timer h s then map_option snd (uv_timer_stop h s) else Some s)"
| "run_timer_op (OpStart h c to r) s =
     (if live_timer h s then map_option snd (uv_timer_start h (Some c) (max 1 to) r s) else Some s)"
| "run_timer_op (OpAgain h) s = (if live_timer h s then map_option snd (uv_timer_again h s) else Some s)"
| "run_timer_op (OpSetRepeat h r) s = (if live_timer h s then Some (uv_timer_set_repeat h r s) else Some s)"

fun run_timer_ops :: "timer_op list \<Rightarrow> 'a timer_loop_scheme \<Rightarrow> 'a timer_loop_scheme option" where
  "run_timer_ops [] s = Some s"
| "run_timer_ops (x # xs) s = do { s \<leftarrow> run_timer_op x s; run_timer_ops xs s }"

definition timer_script :: "(cb \<Rightarrow> timer_op list) \<Rightarrow> 'a timer_loop_scheme client" where
  "timer_script prog c h s = run_timer_ops (prog c) s"

lemma live_timerD: "live_timer h s \<Longrightarrow> h \<in> members s" "live_timer h s \<Longrightarrow> htype (handles s h) = UV_TIMER"
  by (simp_all add: live_timer_def members_def)

lemma same_loopD: "same_loop s s' \<Longrightarrow> time s' = time s" "same_loop s s' \<Longrightarrow> trace s' = trace s"
  by (simp_all add: same_loop_def)

definition calm_step :: "'a timer_loop_scheme \<Rightarrow> 'a timer_loop_scheme \<Rightarrow> bool" where
  "calm_step s s' \<longleftrightarrow> timers_inv s' \<and> time s' = time s \<and> trace s' = trace s \<and> due s' \<subseteq> due s \<and>
     (\<forall>x\<in>due s'. timeout (timers s' x) = timeout (timers s x) \<and> start_id (timers s' x) = start_id (timers s x) \<and>
        timer_cb (timers s' x) = timer_cb (timers s x))"

lemma calm_step_start:
  assumes "timers_inv s" and "time s < - 1" and "live_timer h s" and "to \<noteq> 0"
  shows "\<exists>s'. uv_timer_start h (Some c) to r s = Some (0, s') \<and> calm_step s s'"
proof -
  obtain s' where s': "uv_timer_start h (Some c) to r s = Some (0, s')" "timers_inv s'"
    "active_timers s' = insert h (active_timers s)" "same_loop s s'"
    "timers s' = (timers s)(h := \<lparr>timer_cb = Some c, timeout = due_time (time s) to, repeat = r, start_id = timer_counter s\<rparr>)"
    using uv_timer_start_ok [OF assms(1) live_timerD [OF assms(3)]] by blast
  have "\<not> due_time (time s) to \<le> time s" using due_time_later [OF assms(2,4)] by simp
  then show ?thesis
    using s'(1,2) same_loopD [OF s'(4)] by (auto simp: calm_step_def due_def s'(3,5) split: if_splits)
qed

lemma calm_step_stop:
  assumes "timers_inv s" and "live_timer h s"
  shows "\<exists>s'. uv_timer_stop h s = Some (0, s') \<and> calm_step s s'"
proof -
  obtain s' where s': "uv_timer_stop h s = Some (0, s')" "timers_inv s'" "active_timers s' = active_timers s - {h}"
    "s' = uv__handle_stop h (s\<lparr>timer_heap := timer_heap s'\<rparr>)"
    using uv_timer_stop_ok [OF assms(1) live_timerD [OF assms(2)]] by blast
  note f = stop_frames [OF s'(4)]
  have "calm_step s s'"
    unfolding calm_step_def due_def s'(3) f(1) using same_loopD [OF f(3)] s'(2) by auto
  then show ?thesis using s'(1) by blast
qed

lemma calm_step_again:
  assumes "timers_inv s" and "time s < - 1" and "live_timer h s"
  shows "\<exists>r s'. uv_timer_again h s = Some (r, s') \<and> calm_step s s'"
proof (cases "timer_cb (timers s h)")
  case None
  then show ?thesis using assms(1) by (auto simp: uv_timer_again_null calm_step_def)
next
  case c: (Some c)
  show ?thesis
  proof (cases "repeat (timers s h) = 0")
    case True
    then show ?thesis using assms(1) c by (auto simp: uv_timer_again_once calm_step_def)
  next
    case False
    obtain s' where s': "uv_timer_again h s = Some (0, s')" "timers_inv s'"
      "active_timers s' = insert h (active_timers s)" "same_loop s s'"
      "timers s' = (timers s)(h := \<lparr>timer_cb = Some c, timeout = due_time (time s) (repeat (timers s h)),
        repeat = repeat (timers s h), start_id = timer_counter s\<rparr>)"
      using uv_timer_again_repeat [OF assms(1) live_timerD [OF assms(3)] c False] by blast
    have "\<not> due_time (time s) (repeat (timers s h)) \<le> time s" using due_time_later [OF assms(2) False] by simp
    then show ?thesis
      using s'(1,2) same_loopD [OF s'(4)] by (auto simp: calm_step_def due_def s'(3,5) split: if_splits)
  qed
qed

lemma calm_step_set_repeat: "timers_inv s \<Longrightarrow> calm_step s (uv_timer_set_repeat h r s)"
  using uv_timer_set_repeat_inv [of s h r] by (auto simp: calm_step_def due_def uv_timer_set_repeat_def)

lemma run_timer_op_calm:
  assumes "timers_inv s" and "time s < - 1"
  shows "\<exists>s'. run_timer_op x s = Some s' \<and> calm_step s s'"
proof -
  have id: "calm_step s s" using assms(1) by (simp add: calm_step_def)
  show ?thesis
  proof (cases x)
    case (OpStart h c to r)
    have "max 1 to \<noteq> 0" by (metis max.cobounded1 word_le_0_iff zero_neq_one)
    then show ?thesis using OpStart id calm_step_start [OF assms, of h "max 1 to" c r] by (cases "live_timer h s") auto
  next
    case (OpStop h)
    then show ?thesis using id calm_step_stop [OF assms(1), of h] by (cases "live_timer h s") auto
  next
    case (OpAgain h)
    then show ?thesis using id calm_step_again [OF assms, of h] by (cases "live_timer h s") auto
  next
    case (OpSetRepeat h r)
    then show ?thesis using id calm_step_set_repeat [OF assms(1), of h r] by (cases "live_timer h s") auto
  qed
qed

lemma calm_step_trans: "calm_step s s' \<Longrightarrow> calm_step s' s'' \<Longrightarrow> calm_step s s''"
  by (auto simp: calm_step_def)

lemma run_timer_ops_calm:
  "timers_inv s \<Longrightarrow> time s < - 1 \<Longrightarrow> \<exists>s'. run_timer_ops xs s = Some s' \<and> calm_step s s'"
proof (induction xs arbitrary: s)
  case Nil
  then show ?case by (simp add: calm_step_def)
next
  case (Cons x xs)
  then obtain s1 where s1: "run_timer_op x s = Some s1" "calm_step s s1" using run_timer_op_calm by blast
  then have "timers_inv s1" "time s1 < - 1" using Cons.prems by (simp_all add: calm_step_def)
  then obtain s2 where "run_timer_ops xs s1 = Some s2" "calm_step s1 s2" using Cons.IH by blast
  then show ?case using s1 calm_step_trans by auto
qed

interpretation script: calm_client "timer_script prog" for prog :: "cb \<Rightarrow> timer_op list"
proof
  fix s :: "'a timer_loop_scheme" and c :: cb and h :: hid
  assume "timers_inv s" "time s < - 1"
  then show "\<exists>s'. timer_script prog c h s = Some s' \<and> timers_inv s' \<and> time s' = time s \<and> trace s' = trace s \<and>
      due s' \<subseteq> due s \<and> (\<forall>x\<in>due s'. timeout (timers s' x) = timeout (timers s x) \<and>
        start_id (timers s' x) = start_id (timers s x) \<and> timer_cb (timers s' x) = timer_cb (timers s x))"
    using run_timer_ops_calm unfolding timer_script_def calm_step_def by blast
qed


subsection \<open>The properties of the timers\<close>

text \<open>A loop without handles, for the witnesses.\<close>

definition fresh_timer_loop :: "u64 \<Rightarrow> timer_loop" where
  "fresh_timer_loop now =
     \<lparr>active_handles = 0, active_reqs = 0, handle_queue = [], walk_queue = [], closing_handles = None,
      time = now, stop_flag = False,
      handles = (\<lambda>_. \<lparr>htype = UV_UNKNOWN_HANDLE, hflags = 0, hdata = 0, close_cb = None, next_closing = None\<rparr>),
      trace = [],
      timer_heap = \<lparr>hmin = None, nelts = 0, nodes = (\<lambda>_. \<lparr>left = None, right = None, parent = None\<rparr>)\<rparr>,
      timer_counter = 0,
      timers = (\<lambda>_. \<lparr>timer_cb = None, timeout = 0, repeat = 0, start_id = 0\<rparr>)\<rparr>"

lemma fresh_timer_loop_inv: "timers_inv (fresh_timer_loop now)" "base_inv {} [] (fresh_timer_loop now)"
proof -
  have "active_timers (fresh_timer_loop now) = {}" by (simp add: active_timers_def members_def fresh_timer_loop_def)
  moreover have "heap_init (timer_heap (fresh_timer_loop now)) = timer_heap (fresh_timer_loop now)"
    by (simp add: heap_init_def fresh_timer_loop_def)
  then have "heap_ok lt (timer_heap (fresh_timer_loop now)) {}" for lt
    using heap_init_ok [of lt "timer_heap (fresh_timer_loop now)"] by simp
  ultimately show "timers_inv (fresh_timer_loop now)" by (simp add: timers_inv_def)
  show "base_inv {} [] (fresh_timer_loop now)"
    by (simp add: base_inv_def count_ok_def flags_ok_def closing_ok_def counted_def closing_def members_def
        fresh_timer_loop_def exI [of _ "[]"])
qed

text \<open>Setting a loop up from the outside: initialise and start timers, in this order.\<close>

fun add_timers :: "(hid \<times> cb \<times> u64 \<times> u64) list \<Rightarrow> 'a timer_loop_scheme \<Rightarrow> 'a timer_loop_scheme option" where
  "add_timers [] s = Some s"
| "add_timers ((h, c, to, r) # xs) s =
     do { (_, s) \<leftarrow> uv_timer_start h (Some c) to r (snd (uv_timer_init h s)); add_timers xs s }"

lemma uv_timer_init_inv [inv_intros]:
  "timers_inv s \<Longrightarrow> h \<notin> members s \<Longrightarrow> timers_inv (snd (uv_timer_init h s))"
proof -
  assume a: "timers_inv s" "h \<notin> members s"
  then have "h \<notin> active_timers s" by (simp add: active_timers_def)
  then show ?thesis using a
    by (intro timers_inv_cong [OF a(1)]) (auto simp: uv_timer_init_def Let_def active_timers_init)
qed

lemma uv_timer_init_eqs [simp]:
  "fst (uv_timer_init h s) = 0" "members (snd (uv_timer_init h s)) = insert h (members s)"
  "handles (snd (uv_timer_init h s)) = (handles s)(h := (handles s h)\<lparr>htype := UV_TIMER, hflags := UV_HANDLE_REF, next_closing := None\<rparr>)"
  "active_timers (snd (uv_timer_init h s)) = active_timers s - {h}" "time (snd (uv_timer_init h s)) = time s"
  by (auto simp: uv_timer_init_def Let_def active_timers_def)

lemma add_timers_inv:
  "timers_inv s \<Longrightarrow> distinct (map fst xs) \<Longrightarrow> set (map fst xs) \<inter> members s = {} \<Longrightarrow>
   \<exists>s'. add_timers xs s = Some s' \<and> timers_inv s' \<and> time s' = time s"
proof (induction xs arbitrary: s)
  case (Cons x xs)
  obtain h c to r where x: "x = (h, c, to, r)" by (cases x)
  let ?s = "snd (uv_timer_init h s)"
  have "timers_inv ?s" "h \<in> members ?s" "htype (handles ?s h) = UV_TIMER"
    using Cons.prems x by (auto intro: uv_timer_init_inv)
  then obtain s1 where s1: "uv_timer_start h (Some c) to r ?s = Some (0, s1)" "timers_inv s1" "same_loop ?s s1"
    using uv_timer_start_ok by blast
  then have "set (map fst xs) \<inter> members s1 = {}" "time s1 = time s"
    using Cons.prems x same_loop_members [OF s1(3)] same_loopD [OF s1(3)] by auto
  with Cons.IH [OF s1(2)] Cons.prems x s1(1) show ?case by auto
qed simp



lemma one_timer:
  "\<exists>s. uv_timer_start 1 (Some 7) 3 4 (snd (uv_timer_init 1 (fresh_timer_loop 0))) = Some (0, s) \<and> timers_inv s \<and>
    active_timers s = {1} \<and> timer_cb (timers s 1) = Some 7 \<and> timeout (timers s 1) = 3 \<and> trace s = []"
proof -
  let ?s = "snd (uv_timer_init 1 (fresh_timer_loop 0))"
  have f: "members (fresh_timer_loop 0) = {}" "active_timers (fresh_timer_loop 0) = {}"
    by (simp_all add: members_def active_timers_def fresh_timer_loop_def)
  then have a: "timers_inv ?s" by (intro uv_timer_init_inv fresh_timer_loop_inv) simp
  have t: "trace ?s = []" "time ?s = 0" by (simp_all add: uv_timer_init_def fresh_timer_loop_def Let_def)
  obtain s where s: "uv_timer_start 1 (Some 7) 3 4 ?s = Some (0, s)" "timers_inv s"
    "active_timers s = insert 1 (active_timers ?s)" "same_loop ?s s"
    "timers s = (timers ?s)(1 := \<lparr>timer_cb = Some 7, timeout = due_time (time ?s) 3, repeat = 4, start_id = timer_counter ?s\<rparr>)"
    using uv_timer_start_ok [OF a, of 1 7 3 4] by auto
  have "due_time 0 3 = 3" by (simp add: due_time_def)
  then show ?thesis using s f t same_loopD(2) [OF s(4)] by (intro exI [of _ s]) simp
qed

text \<open>
  C20. Every due timer fires when the callbacks leave the timers alone, and a repeating one fires
  once per call.
\<close>

theorem run_timers_complete:
  assumes "timers_inv s" and "time s < - 1"
  shows "\<exists>s' xs. uv__run_timers (timer_script (\<lambda>_. [])) s = Some s' \<and> due s' = {} \<and>
    trace s' = trace s @ map (\<lambda>h. (the (timer_cb (timers s h)), h)) xs \<and> distinct xs \<and> set xs = due s"
  using script.run_timers_calm [OF assms, of "\<lambda>_. []"] by (auto simp: timer_script_def)

theorem run_timers_complete_witness:
  "\<exists>s s'. uv_timer_start 1 (Some 7) 3 4 (snd (uv_timer_init 1 (fresh_timer_loop 0))) = Some (0, s) \<and>
    uv__run_timers (timer_script (\<lambda>_. [])) (s\<lparr>time := 6\<rparr>) = Some s' \<and> trace s' = [(7, 1)] \<and> due s' = {}"
proof -
  obtain s where s: "uv_timer_start 1 (Some 7) 3 4 (snd (uv_timer_init 1 (fresh_timer_loop 0))) = Some (0, s)"
    "timers_inv s" "active_timers s = {1}" "timer_cb (timers s 1) = Some 7" "timeout (timers s 1) = 3" "trace s = []"
    using one_timer by blast
  have i: "timers_inv (s\<lparr>time := 6\<rparr>)"
    by (rule timers_inv_cong [OF s(2)]) (auto simp: active_timers_def members_def)
  have d: "due (s\<lparr>time := 6\<rparr>) = {1}"
  proof -
    have "active_timers (s\<lparr>time := 6\<rparr>) = {1}"
      using s(3) by (simp add: active_timers_def members_def)
    moreover have "timeout (timers (s\<lparr>time := 6\<rparr>) 1) \<le> time (s\<lparr>time := 6\<rparr>)" using s(5) by simp
    ultimately show ?thesis unfolding due_def by blast
  qed
  obtain s' xs where s': "uv__run_timers (timer_script (\<lambda>_. [])) (s\<lparr>time := 6\<rparr>) = Some s'" "due s' = {}"
    "trace s' = map (\<lambda>h. (the (timer_cb (timers s h)), h)) xs" "distinct xs" "set xs = {1}"
    using run_timers_complete [OF i] s(6) d by auto
  then have "xs = [1]" by (intro distinct_singleton)
  then show ?thesis using s s' by auto
qed

text \<open>
  C19. Starting a timer never wraps around: its due time is the sum of now and the timeout, or the
  largest \<^verbatim>\<open>uint64_t\<close> where the sum does not fit. The timer is active afterwards, the start gets the
  next identifier, and the timers of the loop stay well formed.
\<close>

theorem timer_start_clamps:
  assumes "timers_inv s" and "h \<in> members s" and "htype (handles s h) = UV_TIMER"
  shows "\<exists>s'. uv_timer_start h (Some c) to r s = Some (0, s') \<and> timers_inv s' \<and>
    active_timers s' = insert h (active_timers s) \<and>
    uint (timeout (timers s' h)) = min (uint (time s) + uint to) (2 ^ 64 - 1) \<and>
    start_id (timers s' h) = timer_counter s \<and> timer_counter s' = timer_counter s + 1"
proof -
  obtain s' where "uv_timer_start h (Some c) to r s = Some (0, s')" "timers_inv s'"
    "active_timers s' = insert h (active_timers s)" "timer_counter s' = timer_counter s + 1"
    "timers s' = (timers s)(h := \<lparr>timer_cb = Some c, timeout = due_time (time s) to, repeat = r, start_id = timer_counter s\<rparr>)"
    using uv_timer_start_ok [OF assms] by blast
  then show ?thesis by (intro exI [of _ s']) (simp add: uint_due_time)
qed

theorem timer_start_clamps_witness:
  "\<exists>s'. uv_timer_start 1 (Some 7) (- 1) 0 (snd (uv_timer_init 1 (fresh_timer_loop 5))) = Some (0, s') \<and>
     uint (timeout (timers s' 1)) = 2 ^ 64 - 1"
proof -
  have "1 \<notin> members (fresh_timer_loop 5)" by (simp add: members_def fresh_timer_loop_def)
  then have "timers_inv (snd (uv_timer_init 1 (fresh_timer_loop 5)))"
    by (intro uv_timer_init_inv fresh_timer_loop_inv)
  from timer_start_clamps [OF this, of 1 7 "- 1" 0] show ?thesis
    by (auto simp: fresh_timer_loop_def unsigned_minus_1_eq_mask mask_eq_exp_minus_1)
qed

lemma next_timeout_min:
  assumes "timers_inv s"
  shows "uv__next_timeout s =
    (if active_timers s = {} then - 1
     else (let m = Min ((\<lambda>h. uint (timeout (timers s h))) ` active_timers s) in
           if m \<le> uint (time s) then 0 else min (m - uint (time s)) INT_MAX))"
proof (cases "heap_min (timer_heap s)")
  case None
  then show ?thesis using timers_inv_min_None [OF assms] by (simp add: uv__next_timeout_def)
next
  case (Some h)
  note min = timers_inv_min [OF assms Some]
  let ?t = "\<lambda>h. uint (timeout (timers s h))"
  have "Min (?t ` active_timers s) = ?t h"
  proof (rule Min_eqI)
    show "?t h \<le> y" if "y \<in> ?t ` active_timers s" for y
      using that min(2) by (fastforce simp: timer_less_than_lex not_less word_le_def)
  qed (use min(1) in auto)
  moreover have "uint (timeout (timers s h) - time s) = ?t h - uint (time s)" if "\<not> timeout (timers s h) \<le> time s"
    using that by (simp add: uint_sub_if' word_le_def)
  moreover have "uint (word_of_int INT_MAX :: u64) = INT_MAX" by (simp add: INT_MAX_def)
  ultimately show ?thesis
    using Some min(1) by (auto simp: uv__next_timeout_def Let_def word_le_def min_def)
qed

text \<open>
  C18. The timeout the loop blocks for: -1 without active timers; 0 when one is due; otherwise the
  time left to the earliest one, but never more than \<^verbatim>\<open>INT_MAX\<close> milliseconds.
\<close>

theorem next_timeout_earliest:
  assumes "timers_inv s"
  shows "uv__next_timeout s =
    (if active_timers s = {} then - 1
     else (let m = Min ((\<lambda>h. uint (timeout (timers s h))) ` active_timers s) in
           if m \<le> uint (time s) then 0 else min (m - uint (time s)) INT_MAX))"
  by (rule next_timeout_min [OF assms])

theorem next_timeout_earliest_witness:
  "uv__next_timeout (fresh_timer_loop 3) = - 1"
  using next_timeout_earliest [OF fresh_timer_loop_inv(1), of 3]
  by (simp add: active_timers_def members_def fresh_timer_loop_def)

end
