(* ===== verification/UvWatcher.thy ===== *)
theory UvWatcher
  imports UvTimer "HOL-Library.Sublist"
begin

text \<open>
  The prepare, check and idle watchers of a loop, \<^verbatim>\<open>3rd/libuv/src/unix/loop-watcher.c\<close>. The C file
  is one macro, expanded for the three kinds; the definitions take the kind as an argument.

  \<open>uv__run_prepare\<close>, \<open>uv__run_check\<close> and \<open>uv__run_idle\<close> move the queue of the loop to a queue on
  their stack and take the watchers from there. A callback may start and stop watchers meanwhile, so
  the queue on the stack is part of the state (\<open>wlocal\<close>): a stopped watcher leaves whichever of the
  two it is on.

  \<open>watchers_inv\<close>: the two queues hold each active watcher of the kind once and nothing else. The
  lemma about a run says that it ends, that it invokes the callbacks of watchers of the queue in
  order, each at most once, and that watchers started meanwhile wait for the next run.
\<close>

subsection \<open>The code\<close>

datatype wkind = WPrepare | WCheck | WIdle

fun wtype :: "wkind \<Rightarrow> uv_handle_type" where
  "wtype WPrepare = UV_PREPARE"
| "wtype WCheck = UV_CHECK"
| "wtype WIdle = UV_IDLE"

record watcher_loop = timer_loop +
  wqueue :: "wkind \<Rightarrow> hid list"
  wlocal :: "wkind \<Rightarrow> hid list"
  watcher_cb :: "hid \<Rightarrow> cb option"

definition uv_watcher_init :: "wkind \<Rightarrow> hid \<Rightarrow> 'a watcher_loop_scheme \<Rightarrow> int \<times> 'a watcher_loop_scheme" where
  "uv_watcher_init k h s =
     (let s = uv__handle_init h (wtype k) s
      in (0, s\<lparr>watcher_cb := (watcher_cb s)(h := None)\<rparr>))"

definition uv_watcher_start :: "wkind \<Rightarrow> hid \<Rightarrow> cb option \<Rightarrow> 'a watcher_loop_scheme \<Rightarrow> int \<times> 'a watcher_loop_scheme" where
  "uv_watcher_start k h c s =
     (if uv__is_active h s then (0, s)
      else if c = None then (UV_EINVAL, s)
      else (let s = s\<lparr>wqueue := (wqueue s)(k := h # wqueue s k)\<rparr>;
                s = s\<lparr>watcher_cb := (watcher_cb s)(h := c)\<rparr>
            in (0, uv__handle_start h s)))"

text \<open>\<^verbatim>\<open>QUEUE_REMOVE\<close> takes the watcher off the queue it is on.\<close>

definition uv_watcher_stop :: "wkind \<Rightarrow> hid \<Rightarrow> 'a watcher_loop_scheme \<Rightarrow> int \<times> 'a watcher_loop_scheme" where
  "uv_watcher_stop k h s =
     (if \<not> uv__is_active h s then (0, s)
      else (let s = s\<lparr>wqueue := (wqueue s)(k := remove1 h (wqueue s k)),
                      wlocal := (wlocal s)(k := remove1 h (wlocal s k))\<rparr>
            in (0, uv__handle_stop h s)))"

partial_function (option) run_watchers ::
  "'a watcher_loop_scheme client \<Rightarrow> wkind \<Rightarrow> 'a watcher_loop_scheme \<Rightarrow> 'a watcher_loop_scheme option" where
  "run_watchers call k s =
     (case wlocal s k of
        [] \<Rightarrow> Some s
      | h # q \<Rightarrow>
          let s = s\<lparr>wlocal := (wlocal s)(k := q)\<rparr>;
              s = s\<lparr>wqueue := (wqueue s)(k := wqueue s k @ [h])\<rparr>
          in do {
            c \<leftarrow> watcher_cb s h;
            s \<leftarrow> invoke call c h s;
            run_watchers call k s
          })"

declare run_watchers.simps [code]

definition uv__run_watchers ::
  "'a watcher_loop_scheme client \<Rightarrow> wkind \<Rightarrow> 'a watcher_loop_scheme \<Rightarrow> 'a watcher_loop_scheme option" where
  "uv__run_watchers call k s =
     run_watchers call k (s\<lparr>wlocal := (wlocal s)(k := wqueue s k), wqueue := (wqueue s)(k := [])\<rparr>)"

definition uv__watcher_close :: "wkind \<Rightarrow> hid \<Rightarrow> 'a watcher_loop_scheme \<Rightarrow> 'a watcher_loop_scheme" where
  "uv__watcher_close k h s = snd (uv_watcher_stop k h s)"

subsection \<open>What the operations leave alone\<close>

lemma watcher_base_frames [simp]:
  "wqueue (uv__handle_start h s) = wqueue s" "wqueue (uv__handle_stop h s) = wqueue s"
  "wqueue (uv__handle_ref h s) = wqueue s" "wqueue (uv__handle_unref h s) = wqueue s"
  "wqueue (uv__handle_init h t s) = wqueue s" "wqueue (mark_closing h c s) = wqueue s"
  "wlocal (uv__handle_start h s) = wlocal s" "wlocal (uv__handle_stop h s) = wlocal s"
  "wlocal (uv__handle_ref h s) = wlocal s" "wlocal (uv__handle_unref h s) = wlocal s"
  "wlocal (uv__handle_init h t s) = wlocal s" "wlocal (mark_closing h c s) = wlocal s"
  "watcher_cb (uv__handle_start h s) = watcher_cb s" "watcher_cb (uv__handle_stop h s) = watcher_cb s"
  "watcher_cb (uv__handle_ref h s) = watcher_cb s" "watcher_cb (uv__handle_unref h s) = watcher_cb s"
  "watcher_cb (uv__handle_init h t s) = watcher_cb s" "watcher_cb (mark_closing h c s) = watcher_cb s"
  "watcher_loop.more (uv__handle_start h s) = watcher_loop.more s" "watcher_loop.more (uv__handle_stop h s) = watcher_loop.more s"
  "watcher_loop.more (uv__handle_ref h s) = watcher_loop.more s" "watcher_loop.more (uv__handle_unref h s) = watcher_loop.more s"
  "watcher_loop.more (uv__handle_init h t s) = watcher_loop.more s" "watcher_loop.more (mark_closing h c s) = watcher_loop.more s"
  by (simp_all add: macro_defs uv__handle_init_def mark_closing_def upd_handle_def Let_def)

lemma members_watcher_upds [simp]:
  "members (wqueue_update f s) = members s" "members (wlocal_update g s) = members s"
  "members (watcher_cb_update k s) = members s" "members (trace_update l s) = members s"
  by (simp_all add: members_def)

lemma base_inv_watcher_upds [simp]:
  "base_inv D ys (wqueue_update f s) = base_inv D ys s" "base_inv D ys (wlocal_update g s) = base_inv D ys s"
  "base_inv D ys (watcher_cb_update k s) = base_inv D ys s" "base_inv D ys (trace_update l s) = base_inv D ys s"
  by (auto elim!: base_inv_cong)

lemma active_timers_watcher_upds [simp]:
  "active_timers (wqueue_update f s) = active_timers s" "active_timers (wlocal_update g s) = active_timers s"
  "active_timers (watcher_cb_update k s) = active_timers s" "active_timers (trace_update l s) = active_timers s"
  by (simp_all add: active_timers_def)

lemma timers_inv_watcher_upds [simp]:
  "timers_inv (wqueue_update f s) = timers_inv s" "timers_inv (wlocal_update g s) = timers_inv s"
  "timers_inv (watcher_cb_update k s) = timers_inv s" "timers_inv (trace_update l s) = timers_inv s"
  by (simp_all add: timers_inv_def)

subsection \<open>The invariant\<close>

definition active_watchers :: "wkind \<Rightarrow> 'a watcher_loop_scheme \<Rightarrow> hid set" where
  "active_watchers k s = {h \<in> members s. htype (handles s h) = wtype k \<and> bit (flags_of s h) 2}"

definition watchers_inv :: "'a watcher_loop_scheme \<Rightarrow> bool" where
  "watchers_inv s \<longleftrightarrow> (\<forall>k. distinct (wqueue s k @ wlocal s k) \<and> set (wqueue s k @ wlocal s k) = active_watchers k s \<and>
     (\<forall>h\<in>active_watchers k s. watcher_cb s h \<noteq> None))"

lemma wtype_inj [simp]: "wtype k = wtype k' \<longleftrightarrow> k = k'"
  by (cases k; cases k') auto

lemma wtype_not_timer [simp]: "wtype k \<noteq> UV_TIMER" "UV_TIMER \<noteq> wtype k"
  by (cases k; simp)+

lemma watchers_inv_cong:
  assumes "watchers_inv s" and "wqueue s' = wqueue s" and "wlocal s' = wlocal s" and "watcher_cb s' = watcher_cb s"
    and "\<And>k. active_watchers k s' = active_watchers k s"
  shows "watchers_inv s'"
  using assms by (simp add: watchers_inv_def)

lemma active_watchers_other:
  assumes "\<And>k. htype (handles s h) \<noteq> wtype k"
  shows "active_watchers k (uv__handle_start h s) = active_watchers k s" "active_watchers k (uv__handle_stop h s) = active_watchers k s"
  using assms by (auto simp: active_watchers_def)

lemma active_watchers_same [simp]:
  "active_watchers k (uv__handle_ref h s) = active_watchers k s" "active_watchers k (uv__handle_unref h s) = active_watchers k s"
  "active_watchers k (mark_closing h c s) = active_watchers k s" "active_watchers k (wqueue_update f s) = active_watchers k s"
  "active_watchers k (wlocal_update g s) = active_watchers k s" "active_watchers k (watcher_cb_update l s) = active_watchers k s"
  "active_watchers k (trace_update m s) = active_watchers k s" "active_watchers k (timer_heap_update n s) = active_watchers k s"
  "active_watchers k (timer_counter_update p s) = active_watchers k s" "active_watchers k (upd_timer h u s) = active_watchers k s"
  by (auto simp: active_watchers_def)

lemma active_watchers_init: "h \<notin> members s \<Longrightarrow> active_watchers k (uv__handle_init h t s) = active_watchers k s"
  by (auto simp: active_watchers_def)

lemma watchers_inv_other [inv_intros]:
  "watchers_inv s \<Longrightarrow> (\<And>k. htype (handles s h) \<noteq> wtype k) \<Longrightarrow> watchers_inv (uv__handle_start h s)"
  "watchers_inv s \<Longrightarrow> (\<And>k. htype (handles s h) \<noteq> wtype k) \<Longrightarrow> watchers_inv (uv__handle_stop h s)"
  "watchers_inv s \<Longrightarrow> watchers_inv (uv__handle_ref h s)"
  "watchers_inv s \<Longrightarrow> watchers_inv (uv__handle_unref h s)"
  "watchers_inv s \<Longrightarrow> watchers_inv (mark_closing h c s)"
  "watchers_inv s \<Longrightarrow> h \<notin> members s \<Longrightarrow> watchers_inv (uv__handle_init h t s)"
  "watchers_inv s \<Longrightarrow> watchers_inv (trace_update m s)"
  by (erule watchers_inv_cong; simp add: active_watchers_other active_watchers_init)+

lemma uv_watcher_init_inv [inv_intros]:
  assumes "watchers_inv s" and "h \<notin> members s"
  shows "watchers_inv (snd (uv_watcher_init k h s))"
proof -
  have "h \<notin> active_watchers j s" for j using assms(2) by (simp add: active_watchers_def)
  then show ?thesis
    using assms active_watchers_init [OF assms(2)] by (auto simp: uv_watcher_init_def Let_def watchers_inv_def)
qed

lemma uv_watcher_start_inv [inv_intros]:
  assumes "watchers_inv s" and "h \<in> members s" and "htype (handles s h) = wtype k"
  shows "watchers_inv (snd (uv_watcher_start k h c s))"
proof (cases "bit (flags_of s h) 2 \<or> c = None")
  case True
  then show ?thesis using assms(1) by (auto simp: uv_watcher_start_def is_active_bit)
next
  case False
  then have na: "h \<notin> active_watchers j s" for j by (auto simp: active_watchers_def)
  let ?s = "snd (uv_watcher_start k h c s)"
  have a: "active_watchers j ?s = (if j = k then insert h (active_watchers j s) else active_watchers j s)" for j
    using assms(2,3) False by (auto simp: uv_watcher_start_def is_active_bit active_watchers_def Let_def)
  have q: "wqueue ?s = (wqueue s)(k := h # wqueue s k)" "wlocal ?s = wlocal s" "watcher_cb ?s = (watcher_cb s)(h := c)"
    using False by (auto simp: uv_watcher_start_def is_active_bit Let_def)
  have "h \<notin> set (wqueue s j) \<union> set (wlocal s j)" for j using assms(1) na [of j] by (auto simp: watchers_inv_def)
  then show ?thesis
    using assms(1) False na unfolding watchers_inv_def a q by auto
qed

lemma remove1_set: "distinct xs \<Longrightarrow> set (remove1 x xs) = set xs - {x}"
  by simp

lemma uv_watcher_stop_inv [inv_intros]:
  assumes "watchers_inv s" and "htype (handles s h) = wtype k"
  shows "watchers_inv (snd (uv_watcher_stop k h s))"
proof (cases "bit (flags_of s h) 2")
  case False
  then show ?thesis using assms(1) by (auto simp: uv_watcher_stop_def is_active_bit)
next
  case True
  let ?s = "snd (uv_watcher_stop k h s)"
  have a: "active_watchers j ?s = (if j = k then active_watchers j s - {h} else active_watchers j s)" for j
    using assms(2) True by (auto simp: uv_watcher_stop_def is_active_bit active_watchers_def Let_def)
  have q: "wqueue ?s = (wqueue s)(k := remove1 h (wqueue s k))" "wlocal ?s = (wlocal s)(k := remove1 h (wlocal s k))"
      "watcher_cb ?s = watcher_cb s"
    using True by (auto simp: uv_watcher_stop_def is_active_bit Let_def)
  have d: "distinct (wqueue s j)" "distinct (wlocal s j)" "set (wqueue s j) \<inter> set (wlocal s j) = {}"
    "set (wqueue s j) \<union> set (wlocal s j) = active_watchers j s" for j
    using assms(1) by (auto simp: watchers_inv_def)
  have c: "\<forall>x\<in>active_watchers j s. watcher_cb s x \<noteq> None" for j
    using assms(1) by (simp add: watchers_inv_def)
  show ?thesis
    unfolding watchers_inv_def a q
  proof (intro allI)
    fix j
    show "distinct (((wqueue s)(k := remove1 h (wqueue s k))) j @ ((wlocal s)(k := remove1 h (wlocal s k))) j) \<and>
      set (((wqueue s)(k := remove1 h (wqueue s k))) j @ ((wlocal s)(k := remove1 h (wlocal s k))) j) =
        (if j = k then active_watchers j s - {h} else active_watchers j s) \<and>
      (\<forall>x\<in>if j = k then active_watchers j s - {h} else active_watchers j s. watcher_cb s x \<noteq> None)"
      using c [of j] d(1,2,3) [of j] by (cases "j = k") (auto simp flip: d(4))
  qed
qed

lemma uv_watcher_base_inv [inv_intros]:
  "base_inv D ys s \<Longrightarrow> h \<in> members s \<Longrightarrow> \<not> bit (flags_of s h) 0 \<Longrightarrow> base_inv D ys (snd (uv_watcher_start k h c s))"
  "base_inv D ys s \<Longrightarrow> h \<in> members s \<Longrightarrow> base_inv D ys (snd (uv_watcher_stop k h s))"
  "base_inv D ys s \<Longrightarrow> h \<notin> members s \<Longrightarrow> h \<notin> D \<Longrightarrow> base_inv D ys (snd (uv_watcher_init k h s))"
  by (auto simp: uv_watcher_start_def uv_watcher_stop_def uv_watcher_init_def Let_def intro: base_inv_start base_inv_stop base_inv_init)


subsection \<open>A run over the watchers of a kind\<close>

text \<open>
  The clients of a run: a callback returns, keeps the queues well formed, and of the watchers that
  wait on the stack it can only stop some.
\<close>

lemma subseq_set: "subseq xs ys \<Longrightarrow> set xs \<subseteq> set ys"
  by (induction rule: list_emb.induct) auto

lemma watchers_invD:
  assumes "watchers_inv s"
  shows "distinct (wqueue s k @ wlocal s k)" "set (wqueue s k) \<union> set (wlocal s k) = active_watchers k s"
    "\<And>h. h \<in> active_watchers k s \<Longrightarrow> \<exists>c. watcher_cb s h = Some c"
  using assms by (simp_all only: watchers_inv_def set_append not_None_eq)

locale watcher_client =
  fixes call :: "'a watcher_loop_scheme client"
  assumes watch: "watchers_inv s \<Longrightarrow>
    \<exists>s'. call c h s = Some s' \<and> watchers_inv s' \<and> trace s' = trace s \<and>
      (\<forall>k. subseq (wlocal s' k) (wlocal s k) \<and> (\<forall>x\<in>set (wlocal s' k). watcher_cb s' x = watcher_cb s x))"
begin

lemma run_watchers_local:
  "watchers_inv s \<Longrightarrow>
    \<exists>s' xs. run_watchers call k s = Some s' \<and> watchers_inv s' \<and> wlocal s' k = [] \<and>
      trace s' = trace s @ map (\<lambda>x. (the (watcher_cb s x), x)) xs \<and> subseq xs (wlocal s k) \<and>
      ((\<forall>c h r r'. call c h r = Some r' \<longrightarrow> wlocal r' = wlocal r) \<longrightarrow> xs = wlocal s k)"
proof (induction "length (wlocal s k)" arbitrary: s rule: less_induct)
  case less
  show ?case
  proof (cases "wlocal s k")
    case Nil
    then show ?thesis using less.prems by (intro exI [of _ s] exI [of _ "[]"]) (subst run_watchers.simps; simp)
  next
    case (Cons h q)
    let ?s1 = "s\<lparr>wlocal := (wlocal s)(k := q), wqueue := (wqueue s)(k := wqueue s k @ [h])\<rparr>"
    have p: "distinct (wqueue s k @ h # q)" "set (wqueue s k) \<union> set (h # q) = active_watchers k s"
      using watchers_invD(1,2) [OF less.prems, where k = k] Cons by auto
    then have "h \<in> active_watchers k s" by auto
    then obtain c where c: "watcher_cb s h = Some c" using watchers_invD(3) [OF less.prems] by blast
    let ?s2 = "?s1\<lparr>trace := trace ?s1 @ [(c, h)]\<rparr>"
    have i2: "watchers_inv ?s2"
      using less.prems p unfolding watchers_inv_def by auto
    obtain s3 where c3: "call c h ?s2 = Some s3" "watchers_inv s3" "trace s3 = trace ?s2"
      "\<forall>j. subseq (wlocal s3 j) (wlocal ?s2 j) \<and> (\<forall>x\<in>set (wlocal s3 j). watcher_cb s3 x = watcher_cb ?s2 x)"
      using watch [OF i2, of c h] by blast
    have s3: "call c h ?s2 = Some s3" "watchers_inv s3" "trace s3 = trace s @ [(c, h)]"
      "subseq (wlocal s3 k) q" "\<forall>x\<in>set (wlocal s3 k). watcher_cb s3 x = watcher_cb s x"
      using c3(1-3) spec [OF c3(4), of k] by simp_all
    have "length (wlocal s3 k) < length (wlocal s k)"
      using list_emb_length [OF s3(4)] Cons by simp
    from less.hyps [OF this s3(2)] obtain s' xs where s': "run_watchers call k s3 = Some s'" "watchers_inv s'"
      "wlocal s' k = []" "trace s' = trace s3 @ map (\<lambda>x. (the (watcher_cb s3 x), x)) xs" "subseq xs (wlocal s3 k)"
      "(\<forall>c h r r'. call c h r = Some r' \<longrightarrow> wlocal r' = wlocal r) \<longrightarrow> xs = wlocal s3 k" by blast
    have "run_watchers call k s = Some s'"
      using Cons c s3(1) s'(1) by (subst run_watchers.simps) (simp add: invoke_def Let_def)
    moreover have "set xs \<subseteq> set (wlocal s3 k)" using s'(5) by (rule subseq_set)
    then have "map (\<lambda>x. (the (watcher_cb s3 x), x)) xs = map (\<lambda>x. (the (watcher_cb s x), x)) xs"
      using s3(5) by (auto simp: subset_iff)
    then have "trace s' = trace s @ map (\<lambda>x. (the (watcher_cb s x), x)) (h # xs)"
      using s'(4) s3(3) c by simp
    moreover have "subseq xs q" by (rule subseq_order.order_trans [OF s'(5) s3(4)])
    then have "subseq (h # xs) (wlocal s k)" using Cons by simp
    moreover have "h # xs = wlocal s k" if "\<forall>c h r r'. call c h r = Some r' \<longrightarrow> wlocal r' = wlocal r"
    proof -
      have "wlocal s3 = wlocal ?s2" using that s3(1) by blast
      then show ?thesis using that s'(6) Cons by simp
    qed
    ultimately show ?thesis using s'(2,3) by blast
  qed
qed

lemma run_watchers_once:
  assumes "watchers_inv s" and "wlocal s k = []"
  shows "\<exists>s' xs. uv__run_watchers call k s = Some s' \<and> watchers_inv s' \<and> wlocal s' k = [] \<and>
      trace s' = trace s @ map (\<lambda>x. (the (watcher_cb s x), x)) xs \<and> subseq xs (wqueue s k) \<and>
      ((\<forall>c h r r'. call c h r = Some r' \<longrightarrow> wlocal r' = wlocal r) \<longrightarrow> xs = wqueue s k)"
proof -
  let ?s = "s\<lparr>wlocal := (wlocal s)(k := wqueue s k), wqueue := (wqueue s)(k := [])\<rparr>"
  have "watchers_inv ?s"
    using assms watchers_invD(2) [OF assms(1), where k = k] by (auto simp add: watchers_inv_def)
  from run_watchers_local [OF this, of k] show ?thesis by (simp add: uv__run_watchers_def)
qed

end

text \<open>A callback as a list of calls to start and stop watchers, on handles that are alive.\<close>

datatype watcher_op = OpWStart wkind hid cb | OpWStop wkind hid

definition live_watcher :: "wkind \<Rightarrow> hid \<Rightarrow> 'a watcher_loop_scheme \<Rightarrow> bool" where
  "live_watcher k h s \<longleftrightarrow>
     h \<in> set (handle_queue s @ walk_queue s) \<and> htype (handles s h) = wtype k \<and> \<not> uv__is_closing h s"

fun run_watcher_op :: "watcher_op \<Rightarrow> 'a watcher_loop_scheme \<Rightarrow> 'a watcher_loop_scheme" where
  "run_watcher_op (OpWStart k h c) s = (if live_watcher k h s then snd (uv_watcher_start k h (Some c) s) else s)"
| "run_watcher_op (OpWStop k h) s = (if live_watcher k h s then snd (uv_watcher_stop k h s) else s)"

definition watcher_script :: "(cb \<Rightarrow> watcher_op list) \<Rightarrow> 'a watcher_loop_scheme client" where
  "watcher_script prog c h s = Some (fold run_watcher_op (prog c) s)"

definition watch_step :: "'a watcher_loop_scheme \<Rightarrow> 'a watcher_loop_scheme \<Rightarrow> bool" where
  "watch_step s s' \<longleftrightarrow> watchers_inv s' \<and> trace s' = trace s \<and>
     (\<forall>k. subseq (wlocal s' k) (wlocal s k) \<and> (\<forall>x\<in>set (wlocal s' k). watcher_cb s' x = watcher_cb s x))"

lemma subseq_remove1: "subseq (remove1 x xs) xs"
  by (induction xs) auto

lemma watch_step_start:
  assumes "watchers_inv s" and "live_watcher k h s"
  shows "watch_step s (snd (uv_watcher_start k h c s))"
proof -
  have m: "h \<in> members s" "htype (handles s h) = wtype k" using assms(2) by (auto simp: live_watcher_def members_def)
  have "h \<notin> set (wlocal s j)" if "\<not> bit (flags_of s h) 2" for j
    using assms(1) that by (auto simp: watchers_inv_def active_watchers_def)
  then show ?thesis
    using uv_watcher_start_inv [OF assms(1) m, of c]
    by (auto simp: watch_step_def uv_watcher_start_def is_active_bit Let_def)
qed

lemma watch_step_stop:
  assumes "watchers_inv s" and "live_watcher k h s"
  shows "watch_step s (snd (uv_watcher_stop k h s))"
proof -
  have m: "htype (handles s h) = wtype k" using assms(2) by (auto simp: live_watcher_def)
  then show ?thesis
    using uv_watcher_stop_inv [OF assms(1) m]
    by (auto simp: watch_step_def uv_watcher_stop_def is_active_bit Let_def subseq_remove1)
qed

lemma watch_step_trans: "watch_step s s' \<Longrightarrow> watch_step s' s'' \<Longrightarrow> watch_step s s''"
proof -
  assume a: "watch_step s s'" "watch_step s' s''"
  have "subseq (wlocal s'' k) (wlocal s k)" for k
    using a unfolding watch_step_def by (meson subseq_order.order_trans)
  moreover have "x \<in> set (wlocal s' k)" if "x \<in> set (wlocal s'' k)" for k x
    using a(2) that subseq_set [of "wlocal s'' k" "wlocal s' k"] unfolding watch_step_def by blast
  then have "\<forall>k. \<forall>x\<in>set (wlocal s'' k). watcher_cb s'' x = watcher_cb s x"
    using a unfolding watch_step_def by metis
  ultimately show ?thesis using a unfolding watch_step_def by simp
qed

lemma run_watcher_op_step: "watchers_inv s \<Longrightarrow> watch_step s (run_watcher_op x s)"
proof -
  assume i: "watchers_inv s"
  then have "watch_step s s" by (simp add: watch_step_def)
  then show ?thesis using watch_step_start [OF i] watch_step_stop [OF i] by (cases x) simp_all
qed

lemma run_watcher_ops_step: "watchers_inv s \<Longrightarrow> watch_step s (fold run_watcher_op xs s)"
proof (induction xs arbitrary: s)
  case (Cons x xs)
  have "watch_step s (run_watcher_op x s)" using Cons.prems by (rule run_watcher_op_step)
  moreover from this have "watchers_inv (run_watcher_op x s)" by (simp add: watch_step_def)
  ultimately show ?case using Cons.IH watch_step_trans by fastforce
qed (simp add: watch_step_def)

interpretation wscript: watcher_client "watcher_script prog" for prog :: "cb \<Rightarrow> watcher_op list"
proof
  fix s :: "'a watcher_loop_scheme" and c :: cb and h :: hid
  assume "watchers_inv s"
  then have "watch_step s (fold run_watcher_op (prog c) s)" by (rule run_watcher_ops_step)
  then show "\<exists>s'. watcher_script prog c h s = Some s' \<and> watchers_inv s' \<and> trace s' = trace s \<and>
      (\<forall>k. subseq (wlocal s' k) (wlocal s k) \<and> (\<forall>x\<in>set (wlocal s' k). watcher_cb s' x = watcher_cb s x))"
    by (simp add: watcher_script_def watch_step_def)
qed

subsection \<open>The properties of the watchers\<close>

definition fresh_watcher_loop :: "u64 \<Rightarrow> watcher_loop" where
  "fresh_watcher_loop now = timer_loop.extend (fresh_timer_loop now)
     \<lparr>wqueue = (\<lambda>_. []), wlocal = (\<lambda>_. []), watcher_cb = (\<lambda>_. None)\<rparr>"

lemma fresh_watcher_loop_eqs [simp]:
  "wqueue (fresh_watcher_loop now) = (\<lambda>_. [])" "wlocal (fresh_watcher_loop now) = (\<lambda>_. [])"
  "members (fresh_watcher_loop now) = {}" "trace (fresh_watcher_loop now) = []"
  by (simp_all add: fresh_watcher_loop_def timer_loop.extend_def fresh_timer_loop_def members_def)

lemma fresh_watcher_loop_inv: "watchers_inv (fresh_watcher_loop now)"
  by (simp add: watchers_inv_def active_watchers_def)



end
