(* ===== verification/Sys.thy ===== *)
theory Sys
  imports Prelude
begin

text \<open>
  The system calls libuv makes and the small functions around file descriptors in
  \<^verbatim>\<open>3rd/libuv/src/unix/core.c\<close>.

  The kernel is a parameter: a function from the calls made so far, with their results, and the next
  call to its result. Any deterministic kernel is one, and a theorem for every kernel covers every
  run. A result carries the return value, \<open>errno\<close> and whatever the call stores through its pointer
  arguments. Memory allocation of the C library goes through the same interface.

  The retry loops on \<^verbatim>\<open>EINTR\<close> have no bound, \<open>None\<close> covers the run that never ends, as well as failed
  assertions.

  \<open>live_fds\<close> reads the open descriptors off the calls. The lemmas show that the functions leak none:
  after an error the descriptors are those from before.
\<close>

subsection \<open>Calls and results\<close>

datatype clock = CLOCK_MONOTONIC | CLOCK_MONOTONIC_COARSE

datatype syscall =
    SysClose int | SysSocket int int int | SysAccept4 int int | SysAccept int | SysDup int
  | SysIoctl int string | SysGetFlags int | SysSetFlags int u32 | SysGetFd int | SysSetFd int u32
  | SysRead int nat | SysWrite int "u8 list" | SysWritev int "u8 list list" | SysRecvmsg int u32 | SysSendmsg int "u8 list list" "int option"
  | SysEpollCreate1 | SysEpollCreate | SysEpollCtl int string int u32 | SysEpollWait int int
  | SysEpollPwait int int u64 | SysSigmask bool | SysClockGetres clock | SysClockGettime clock
  | SysAlloc nat | SysShutdown int | SysListen int int | SysBind int "u8 list" | SysConnect int "u8 list"
  | SysGetsockopt int int int | SysSetsockopt int int int "u8 list" | SysGetsockname int | SysGetpeername int
  | SysEventfd2 | SysEventfd | SysPipe2 int | SysPipe | SysSocketpair int | SysOpen string int
  | SysPoll int | SysCall string "int list" "u8 list"

record sysret =
  ret :: int
  errno :: int
  rdata :: "u8 list"
  revents :: "(u32 \<times> int) list"
  rfds :: "int list"
  rtime :: "u64 \<times> u64"

record osw =
  sys_trace :: "(syscall \<times> sysret) list"
  no_accept4 :: bool
  no_msg_cmsg_cloexec :: bool
  no_epoll_wait :: bool
  no_epoll_pwait :: bool
  no_pipe2 :: bool
  no_socketpair_cloexec :: bool
  no_open_cloexec :: bool
  no_eventfd2 :: bool
  no_eventfd :: bool
  fast_clock_id :: "clock option"

type_synonym kernel = "(syscall \<times> sysret) list \<Rightarrow> syscall \<Rightarrow> sysret"

definition sys :: "kernel \<Rightarrow> syscall \<Rightarrow> osw \<Rightarrow> sysret \<times> osw" where
  "sys K c w = (let r = K (sys_trace w) c in (r, w\<lparr>sys_trace := sys_trace w @ [(c, r)]\<rparr>))"

definition EINTR :: int where "EINTR = 4"
definition EAGAIN :: int where "EAGAIN = 11"
definition EEXIST :: int where "EEXIST = 17"
definition EINVAL :: int where "EINVAL = 22"
definition ENOSYS :: int where "ENOSYS = 38"
definition EINPROGRESS :: int where "EINPROGRESS = 115"
definition O_NONBLOCK :: u32 where "O_NONBLOCK = 0x800"
definition FD_CLOEXEC :: u32 where "FD_CLOEXEC = 1"

text \<open>\<^verbatim>\<open>do r = call; while (r == -1 && errno == EINTR);\<close>\<close>

partial_function (option) retry :: "kernel \<Rightarrow> syscall \<Rightarrow> osw \<Rightarrow> (sysret \<times> osw) option" where
  "retry K c w =
     (let (r, w) = sys K c w in
      if ret r = - 1 \<and> errno r = EINTR then retry K c w else Some (r, w))"

declare retry.simps [code]

subsection \<open>Descriptors (unix/core.c)\<close>

definition uv__close_nocheckstdio :: "kernel \<Rightarrow> int \<Rightarrow> osw \<Rightarrow> (int \<times> osw) option" where
  "uv__close_nocheckstdio K fd w =
     (if \<not> fd > - 1 then None
      else (let (r, w) = sys K (SysClose fd) w;
                rc = (if ret r = - 1
                      then (if errno r = EINTR \<or> errno r = EINPROGRESS then 0 else - errno r)
                      else ret r)
            in Some (rc, w)))"

definition uv__close :: "kernel \<Rightarrow> int \<Rightarrow> osw \<Rightarrow> (int \<times> osw) option" where
  "uv__close K fd w = (if \<not> fd > 2 then None else uv__close_nocheckstdio K fd w)"

definition uv__nonblock_ioctl :: "kernel \<Rightarrow> int \<Rightarrow> bool \<Rightarrow> osw \<Rightarrow> (int \<times> osw) option" where
  "uv__nonblock_ioctl K fd on w =
     do { (r, w) \<leftarrow> retry K (SysIoctl fd (if on then ''FIONBIO 1'' else ''FIONBIO 0'')) w;
          Some (if ret r \<noteq> 0 then - errno r else 0, w) }"

definition uv__cloexec_ioctl :: "kernel \<Rightarrow> int \<Rightarrow> bool \<Rightarrow> osw \<Rightarrow> (int \<times> osw) option" where
  "uv__cloexec_ioctl K fd on w =
     do { (r, w) \<leftarrow> retry K (SysIoctl fd (if on then ''FIOCLEX'' else ''FIONCLEX'')) w;
          Some (if ret r \<noteq> 0 then - errno r else 0, w) }"

definition uv__nonblock_fcntl :: "kernel \<Rightarrow> int \<Rightarrow> bool \<Rightarrow> osw \<Rightarrow> (int \<times> osw) option" where
  "uv__nonblock_fcntl K fd on w = do {
     (r, w) \<leftarrow> retry K (SysGetFlags fd) w;
     if ret r = - 1 then Some (- errno r, w)
     else (let cur = (word_of_int (ret r) :: u32) in
       if (cur AND O_NONBLOCK \<noteq> 0) = on then Some (0, w)
       else (let flags = (if on then cur OR O_NONBLOCK else cur AND NOT O_NONBLOCK) in do {
         (r, w) \<leftarrow> retry K (SysSetFlags fd flags) w;
         Some (if ret r \<noteq> 0 then - errno r else 0, w) })) }"

definition uv__cloexec_fcntl :: "kernel \<Rightarrow> int \<Rightarrow> bool \<Rightarrow> osw \<Rightarrow> (int \<times> osw) option" where
  "uv__cloexec_fcntl K fd on w = do {
     (r, w) \<leftarrow> retry K (SysGetFd fd) w;
     if ret r = - 1 then Some (- errno r, w)
     else (let cur = (word_of_int (ret r) :: u32) in
       if (cur AND FD_CLOEXEC \<noteq> 0) = on then Some (0, w)
       else (let flags = (if on then cur OR FD_CLOEXEC else cur AND NOT FD_CLOEXEC) in do {
         (r, w) \<leftarrow> retry K (SysSetFd fd flags) w;
         Some (if ret r \<noteq> 0 then - errno r else 0, w) })) }"

text \<open>On Linux \<^verbatim>\<open>uv__nonblock\<close> and \<^verbatim>\<open>uv__cloexec\<close> are the ioctl variants.\<close>

abbreviation uv__nonblock :: "kernel \<Rightarrow> int \<Rightarrow> bool \<Rightarrow> osw \<Rightarrow> (int \<times> osw) option" where
  "uv__nonblock \<equiv> uv__nonblock_ioctl"

abbreviation uv__cloexec :: "kernel \<Rightarrow> int \<Rightarrow> bool \<Rightarrow> osw \<Rightarrow> (int \<times> osw) option" where
  "uv__cloexec \<equiv> uv__cloexec_ioctl"

definition SOCK_FLAGS :: int where "SOCK_FLAGS = 0x80800"

definition uv__socket :: "kernel \<Rightarrow> int \<Rightarrow> int \<Rightarrow> int \<Rightarrow> osw \<Rightarrow> (int \<times> osw) option" where
  "uv__socket K domain typ protocol w =
     (let (r, w) = sys K (SysSocket domain (or typ SOCK_FLAGS) protocol) w in
      if ret r \<noteq> - 1 then Some (ret r, w)
      else if errno r \<noteq> EINVAL then Some (- errno r, w)
      else (let (r, w) = sys K (SysSocket domain typ protocol) w; sockfd = ret r in
        if sockfd = - 1 then Some (- errno r, w)
        else do {
          (err, w) \<leftarrow> uv__nonblock K sockfd True w;
          (err, w) \<leftarrow> (if err = 0 then uv__cloexec K sockfd True w else Some (err, w));
          if err \<noteq> 0 then do { (_, w) \<leftarrow> uv__close K sockfd w; Some (err, w) }
          else Some (sockfd, w) }))"

definition uv__dup :: "kernel \<Rightarrow> int \<Rightarrow> osw \<Rightarrow> (int \<times> osw) option" where
  "uv__dup K fd w =
     (let (r, w) = sys K (SysDup fd) w; fd = ret r in
      if fd = - 1 then Some (- errno r, w)
      else do {
        (err, w) \<leftarrow> uv__cloexec K fd True w;
        if err \<noteq> 0 then do { (_, w) \<leftarrow> uv__close K fd w; Some (err, w) }
        else Some (fd, w) })"

text \<open>\<^verbatim>\<open>uv__accept\<close>, with the part after the label \<^verbatim>\<open>skip\<close> as a function of its own.\<close>

definition accept_prepare :: "kernel \<Rightarrow> int \<Rightarrow> osw \<Rightarrow> (int \<times> osw) option" where
  "accept_prepare K peerfd w = do {
     (err, w) \<leftarrow> uv__cloexec K peerfd True w;
     (err, w) \<leftarrow> (if err = 0 then uv__nonblock K peerfd True w else Some (err, w));
     if err \<noteq> 0 then do { (_, w) \<leftarrow> uv__close K peerfd w; Some (err, w) }
     else Some (peerfd, w) }"

partial_function (option) accept_loop :: "kernel \<Rightarrow> int \<Rightarrow> osw \<Rightarrow> (int \<times> osw) option" where
  "accept_loop K sockfd w =
     (let (r, w) = (if no_accept4 w then (\<lparr>ret = - 1, errno = ENOSYS, rdata = [], revents = [], rfds = [], rtime = (0, 0)\<rparr>, w)
                    else sys K (SysAccept4 sockfd SOCK_FLAGS) w)
      in if ret r \<noteq> - 1 then Some (ret r, w)
         else if errno r = EINTR then accept_loop K sockfd w
         else if errno r \<noteq> ENOSYS then Some (- errno r, w)
         else (let w = w\<lparr>no_accept4 := True\<rparr>; (r, w) = sys K (SysAccept sockfd) w in
           if ret r = - 1
           then (if errno r = EINTR then accept_loop K sockfd w else Some (- errno r, w))
           else accept_prepare K (ret r) w))"

declare accept_loop.simps [code]

definition uv__accept :: "kernel \<Rightarrow> int \<Rightarrow> osw \<Rightarrow> (int \<times> osw) option" where
  "uv__accept K sockfd w = (if \<not> sockfd \<ge> 0 then None else accept_loop K sockfd w)"

text \<open>
  \<^verbatim>\<open>uv__recvmsg\<close>. Of the control messages the descriptors of one \<^verbatim>\<open>SCM_RIGHTS\<close> message are read, which is
  what Linux delivers; they are the field \<open>rfds\<close> of the result. After a failure the return value is the negated
  \<^verbatim>\<open>errno\<close>, which stays set.
\<close>

fun cloexec_all :: "kernel \<Rightarrow> int list \<Rightarrow> osw \<Rightarrow> osw option" where
  "cloexec_all K [] w = Some w"
| "cloexec_all K (fd # fds) w = do { (_, w) \<leftarrow> uv__cloexec K fd True w; cloexec_all K fds w }"

definition recv_failed :: "sysret \<Rightarrow> sysret" where
  "recv_failed r = r\<lparr>ret := - errno r\<rparr>"

definition recv_done :: "kernel \<Rightarrow> sysret \<Rightarrow> osw \<Rightarrow> (sysret \<times> osw) option" where
  "recv_done K r w =
     (if ret r = - 1 then Some (recv_failed r, w)
      else if rfds r = [] then Some (r, w)
      else do { w \<leftarrow> cloexec_all K (rfds r) w; Some (r, w) })"

definition uv__recvmsg :: "kernel \<Rightarrow> int \<Rightarrow> u32 \<Rightarrow> osw \<Rightarrow> (sysret \<times> osw) option" where
  "uv__recvmsg K fd flags w =
     (if \<not> no_msg_cmsg_cloexec w
      then (let (r, w) = sys K (SysRecvmsg fd (flags OR 0x40000000)) w in
        if ret r \<noteq> - 1 then Some (r, w)
        else if errno r \<noteq> EINVAL then Some (recv_failed r, w)
        else (let (r, w) = sys K (SysRecvmsg fd flags) w in
          if ret r = - 1 then Some (recv_failed r, w)
          else recv_done K r (w\<lparr>no_msg_cmsg_cloexec := True\<rparr>)))
      else (let (r, w) = sys K (SysRecvmsg fd flags) w in recv_done K r w))"

text \<open>
  \<^verbatim>\<open>uv__make_pipe\<close> and \<^verbatim>\<open>uv__make_socketpair\<close> of unix/process.c store two descriptors; the results of the
  calls that set flags on them are ignored by the code. The flag \<^verbatim>\<open>UV__F_NONBLOCK\<close> is a boolean here.
\<close>

definition pair_setup :: "kernel \<Rightarrow> int \<Rightarrow> int \<Rightarrow> bool \<Rightarrow> osw \<Rightarrow> ((int \<times> int list) \<times> osw) option" where
  "pair_setup K a b nonblock w = do {
     (_, w) \<leftarrow> uv__cloexec K a True w;
     (_, w) \<leftarrow> uv__cloexec K b True w;
     if nonblock then do {
       (_, w) \<leftarrow> uv__nonblock K a True w;
       (_, w) \<leftarrow> uv__nonblock K b True w;
       Some ((0, [a, b]), w)
     } else Some ((0, [a, b]), w)
   }"

definition uv__make_pipe :: "kernel \<Rightarrow> bool \<Rightarrow> osw \<Rightarrow> ((int \<times> int list) \<times> osw) option" where
  "uv__make_pipe K nonblock w =
     (let plain = (\<lambda>w. let (r, w) = sys K SysPipe w in
            if ret r \<noteq> 0 then Some ((- errno r, []), w)
            else pair_setup K (rfds r ! 0) (rfds r ! 1) nonblock w)
      in if no_pipe2 w then plain w
         else (let (r, w) = sys K (SysPipe2 (if nonblock then 0x80800 else 0x80000)) w in
           if ret r = 0 then Some ((0, rfds r), w)
           else if errno r \<noteq> ENOSYS then Some ((- errno r, []), w)
           else plain (w\<lparr>no_pipe2 := True\<rparr>)))"

definition uv__make_socketpair :: "kernel \<Rightarrow> bool \<Rightarrow> osw \<Rightarrow> ((int \<times> int list) \<times> osw) option" where
  "uv__make_socketpair K nonblock w =
     (let plain = (\<lambda>w. let (r, w) = sys K (SysSocketpair 1) w in
            if ret r \<noteq> 0 then Some ((- errno r, []), w)
            else pair_setup K (rfds r ! 0) (rfds r ! 1) nonblock w)
      in if no_socketpair_cloexec w then plain w
         else (let (r, w) = sys K (SysSocketpair (if nonblock then 0x80801 else 0x80001)) w in
           if ret r = 0 then Some ((0, rfds r), w)
           else if errno r \<noteq> EINVAL then Some ((- errno r, []), w)
           else plain (w\<lparr>no_socketpair_cloexec := True\<rparr>)))"

definition open_plain :: "kernel \<Rightarrow> string \<Rightarrow> int \<Rightarrow> osw \<Rightarrow> (int \<times> osw) option" where
  "open_plain K path flags w =
     (let (r, w) = sys K (SysOpen path flags) w; fd = ret r in
      if fd = - 1 then Some (- errno r, w)
      else do {
        (err, w) \<leftarrow> uv__cloexec K fd True w;
        if err \<noteq> 0 then do { (_, w) \<leftarrow> uv__close K fd w; Some (err, w) } else Some (fd, w) })"

definition uv__open_cloexec :: "kernel \<Rightarrow> string \<Rightarrow> int \<Rightarrow> osw \<Rightarrow> (int \<times> osw) option" where
  "uv__open_cloexec K path flags w =
     (if no_open_cloexec w then open_plain K path flags w
      else (let (r, w) = sys K (SysOpen path (or flags 0x80000)) w in
        if ret r \<noteq> - 1 then Some (ret r, w)
        else if errno r \<noteq> EINVAL then Some (- errno r, w)
        else open_plain K path flags (w\<lparr>no_open_cloexec := True\<rparr>)))"

subsection \<open>The clock (unix/linux-core.c and unix/internal.h)\<close>

datatype uv_clocktype = UV_CLOCK_PRECISE | UV_CLOCK_FAST

definition uv__hrtime :: "kernel \<Rightarrow> uv_clocktype \<Rightarrow> osw \<Rightarrow> u64 \<times> osw" where
  "uv__hrtime K typ w =
     (let w = (if typ = UV_CLOCK_FAST \<and> fast_clock_id w = None
               then (let (r, w) = sys K (SysClockGetres CLOCK_MONOTONIC_COARSE) w
                     in if ret r = 0 \<and> snd (rtime r) \<le> 1000000
                        then w\<lparr>fast_clock_id := Some CLOCK_MONOTONIC_COARSE\<rparr>
                        else w\<lparr>fast_clock_id := Some CLOCK_MONOTONIC\<rparr>)
               else w);
          clock_id = (if typ = UV_CLOCK_FAST then the (fast_clock_id w) else CLOCK_MONOTONIC);
          (r, w) = sys K (SysClockGettime clock_id) w
      in if ret r \<noteq> 0 then (0, w)
         else (fst (rtime r) * 1000000000 + snd (rtime r), w))"

subsection \<open>Open descriptors\<close>

fun opens :: "syscall \<Rightarrow> bool" where
  "opens (SysSocket _ _ _) = True"
| "opens (SysAccept4 _ _) = True"
| "opens (SysAccept _) = True"
| "opens (SysDup _) = True"
| "opens (SysOpen _ _) = True"
| "opens SysEpollCreate1 = True"
| "opens SysEpollCreate = True"
| "opens SysEventfd2 = True"
| "opens SysEventfd = True"
| "opens _ = False"

fun opens_pair :: "syscall \<Rightarrow> bool" where
  "opens_pair (SysPipe2 _) = True"
| "opens_pair SysPipe = True"
| "opens_pair (SysSocketpair _) = True"
| "opens_pair _ = False"

definition new_fds :: "syscall \<Rightarrow> sysret \<Rightarrow> int list" where
  "new_fds c r = (if opens c \<and> ret r \<noteq> - 1 then [ret r] else if opens_pair c \<and> ret r = 0 then rfds r else [])"

definition fd_effect :: "syscall \<Rightarrow> sysret \<Rightarrow> int set \<Rightarrow> int set" where
  "fd_effect c r F = (case c of SysClose fd \<Rightarrow> F - {fd} | _ \<Rightarrow> F \<union> set (new_fds c r))"

definition live_fds :: "osw \<Rightarrow> int set" where
  "live_fds w = fold (\<lambda>(c, r). fd_effect c r) (sys_trace w) {}"

text \<open>
  What a kernel does: a new descriptor is not one that is open, nor one of the three of the standard
  streams, and \<open>errno\<close> is positive after a failure.
\<close>

definition kernel_ok :: "kernel \<Rightarrow> bool" where
  "kernel_ok K \<longleftrightarrow> (\<forall>w c. let r = K (sys_trace w) c in
     errno r > 0 \<and> distinct (new_fds c r) \<and> (\<forall>fd\<in>set (new_fds c r). fd > 2 \<and> fd \<notin> live_fds w) \<and>
     (opens_pair c \<longrightarrow> ret r = 0 \<longrightarrow> length (rfds r) = 2))"

lemma live_fds_sys: "sys K c w = (r, w') \<Longrightarrow> live_fds w' = fd_effect c r (live_fds w)"
  by (auto simp: sys_def live_fds_def Let_def)

lemma fd_effect_open: "opens c \<Longrightarrow> fd_effect c r F = (if ret r \<noteq> - 1 then insert (ret r) F else F)"
  by (cases c) (auto simp: fd_effect_def new_fds_def)

lemma sys_kernel_ok:
  assumes "kernel_ok K" and "sys K c w = (r, w')"
  shows "errno r > 0" and "opens c \<Longrightarrow> ret r \<noteq> - 1 \<Longrightarrow> ret r > 2 \<and> ret r \<notin> live_fds w"
proof -
  have r: "r = K (sys_trace w) c" using assms(2) by (auto simp: sys_def Let_def)
  show "errno r > 0" using assms(1) unfolding kernel_ok_def Let_def r by blast
  assume "opens c" "ret r \<noteq> - 1"
  then have "ret r \<in> set (new_fds c r)" by (simp add: new_fds_def)
  then show "ret r > 2 \<and> ret r \<notin> live_fds w"
    using assms(1) unfolding kernel_ok_def Let_def r by blast
qed

text \<open>A retried call leaves the descriptors alone unless it opens or closes one.\<close>

lemma retry_fds:
  assumes "retry K c w = Some rw" and "\<And>r F. fd_effect c r F = F"
  shows "live_fds (snd rw) = live_fds w \<and> (\<exists>w0. sys K c w0 = rw)"
proof -
  have "(\<forall>r F. fd_effect c r F = F) \<longrightarrow> live_fds (snd rw) = live_fds w \<and> (\<exists>w0. sys K c w0 = rw)"
  proof (rule retry.raw_induct [where P = "\<lambda>K c w rw. (\<forall>r F. fd_effect c r F = F) \<longrightarrow>
        live_fds (snd rw) = live_fds w \<and> (\<exists>w0. sys K c w0 = rw)", OF _ assms(1)])
    fix f :: "kernel \<Rightarrow> syscall \<Rightarrow> osw \<Rightarrow> (sysret \<times> osw) option" and K c w rw
    assume IH: "\<And>K c w rw. f K c w = Some rw \<Longrightarrow> (\<forall>r F. fd_effect c r F = F) \<longrightarrow>
        live_fds (snd rw) = live_fds w \<and> (\<exists>w0. sys K c w0 = rw)"
      and eq: "(let (r, w) = sys K c w in if ret r = - 1 \<and> errno r = EINTR then f K c w else Some (r, w)) = Some rw"
    obtain r w1 where s: "sys K c w = (r, w1)" by (cases "sys K c w")
    show "(\<forall>r F. fd_effect c r F = F) \<longrightarrow> live_fds (snd rw) = live_fds w \<and> (\<exists>w0. sys K c w0 = rw)"
    proof (cases "ret r = - 1 \<and> errno r = EINTR")
      case True
      then have "f K c w1 = Some rw" using eq s by simp
      then show ?thesis using IH live_fds_sys [OF s] by simp
    next
      case False
      then have "rw = (r, w1)" using eq s by (auto split: if_splits)
      then show ?thesis using live_fds_sys [OF s] s by auto
    qed
  qed
  then show ?thesis using assms(2) by blast
qed

text \<open>A kernel that interrupts no call; under it every function here returns.\<close>

definition prompt :: "kernel \<Rightarrow> bool" where
  "prompt K \<longleftrightarrow> (\<forall>tr c. errno (K tr c) \<noteq> EINTR)"

lemma prompt_sys: "prompt K \<Longrightarrow> sys K c w = (r, w') \<Longrightarrow> errno r \<noteq> EINTR"
  by (auto simp: prompt_def sys_def Let_def)

lemma retry_prompt: "prompt K \<Longrightarrow> retry K c w = Some (sys K c w)"
  by (subst retry.simps) (auto simp: Let_def prompt_sys split: prod.split)

lemma no_effect: "fd_effect (SysIoctl fd cmd) r F = F" "fd_effect (SysGetFlags fd) r F = F"
  "fd_effect (SysSetFlags fd v) r F = F" "fd_effect (SysGetFd fd) r F = F" "fd_effect (SysSetFd fd v) r F = F"
  by (simp_all add: fd_effect_def new_fds_def)

lemma ioctl_fds:
  "kernel_ok K \<Longrightarrow> uv__nonblock_ioctl K fd on w = Some (e, w') \<Longrightarrow> live_fds w' = live_fds w \<and> e \<le> 0"
  "kernel_ok K \<Longrightarrow> uv__cloexec_ioctl K fd on w = Some (e, w') \<Longrightarrow> live_fds w' = live_fds w \<and> e \<le> 0"
  by (auto simp: uv__nonblock_ioctl_def uv__cloexec_ioctl_def bind_Some_iff no_effect
      dest!: retry_fds dest: sys_kernel_ok(1))

lemma close_fds: "uv__close K fd w = Some (e, w') \<Longrightarrow> live_fds w' = live_fds w - {fd}"
  by (auto simp: uv__close_def uv__close_nocheckstdio_def fd_effect_def live_fds_sys split: if_splits prod.splits)

lemma close_returns: "fd > 2 \<Longrightarrow> \<exists>e w'. uv__close K fd w = Some (e, w')"
  by (auto simp: uv__close_def uv__close_nocheckstdio_def split: prod.splits)

text \<open>The tail of \<open>uv__socket\<close> and \<open>uv__accept\<close>: a descriptor that cannot be set up is closed again.\<close>

definition fd_result :: "osw \<Rightarrow> int \<Rightarrow> osw \<Rightarrow> bool" where
  "fd_result w fd w' \<longleftrightarrow>
     (fd < 0 \<and> live_fds w' = live_fds w) \<or> (fd > 2 \<and> fd \<notin> live_fds w \<and> live_fds w' = insert fd (live_fds w))"

lemma setup_fd:
  assumes K: "kernel_ok K" and fd: "fd > 2" "fd \<notin> F" "live_fds w = insert fd F"
    and f: "f = uv__nonblock_ioctl K fd True \<or> f = uv__cloexec_ioctl K fd True"
    and g: "g = uv__nonblock_ioctl K fd True \<or> g = uv__cloexec_ioctl K fd True"
    and r: "do { (err, w) \<leftarrow> f w; (err, w) \<leftarrow> (if err = 0 then g w else Some (err, w));
            if err \<noteq> 0 then do { (_, w) \<leftarrow> uv__close K fd w; Some (err, w) } else Some (fd, w) } = Some (res, w')"
  shows "(res < 0 \<and> live_fds w' = F) \<or> (res = fd \<and> live_fds w' = insert fd F)"
proof -
  obtain e1 w1 where 1: "f w = Some (e1, w1)" using r by (cases "f w") auto
  then have l1: "live_fds w1 = live_fds w" "e1 \<le> 0" using f ioctl_fds [OF K] by auto
  obtain e2 w2 where 2: "(if e1 = 0 then g w1 else Some (e1, w1)) = Some (e2, w2)" using r 1 by (auto simp: bind_Some_iff)
  then have l2: "live_fds w2 = live_fds w" "e2 \<le> 0" using g l1 ioctl_fds [OF K] by (auto split: if_splits)
  show ?thesis
  proof (cases "e2 = 0")
    case True
    then show ?thesis using r 1 2 l2 fd by simp
  next
    case False
    then obtain e3 where "uv__close K fd w2 = Some (e3, w')" "res = e2" using r 1 2 by (auto simp: bind_Some_iff)
    then show ?thesis using close_fds l2 fd False by auto
  qed
qed

lemma socket_fds:
  assumes K: "kernel_ok K" and r: "uv__socket K domain typ protocol w = Some (res, w')"
  shows "fd_result w res w'"
proof -
  obtain r1 w1 where s1: "sys K (SysSocket domain (or typ SOCK_FLAGS) protocol) w = (r1, w1)" by fastforce
  have l1: "live_fds w1 = (if ret r1 \<noteq> - 1 then insert (ret r1) (live_fds w) else live_fds w)"
    using live_fds_sys [OF s1] by (simp add: fd_effect_open)
  note k1 = sys_kernel_ok [OF K s1]
  show ?thesis
  proof (cases "ret r1 \<noteq> - 1 \<or> errno r1 \<noteq> EINVAL")
    case True
    then show ?thesis using r s1 l1 k1 by (auto simp: uv__socket_def fd_result_def split: if_splits)
  next
    case False
    obtain r2 w2 where s2: "sys K (SysSocket domain typ protocol) w1 = (r2, w2)" by fastforce
    have l2: "live_fds w2 = (if ret r2 \<noteq> - 1 then insert (ret r2) (live_fds w) else live_fds w)"
      using live_fds_sys [OF s2] l1 False by (simp add: fd_effect_open)
    note k2 = sys_kernel_ok [OF K s2]
    show ?thesis
    proof (cases "ret r2 = - 1")
      case True
      then show ?thesis using r s1 s2 l2 k2(1) False by (auto simp: uv__socket_def fd_result_def)
    next
      case nf: False
      have f: "ret r2 > 2" "ret r2 \<notin> live_fds w" using k2(2) nf l1 False by auto
      have "live_fds w2 = insert (ret r2) (live_fds w)" using l2 nf by simp
      moreover have "do { (err, w) \<leftarrow> uv__nonblock K (ret r2) True w2;
          (err, w) \<leftarrow> (if err = 0 then uv__cloexec K (ret r2) True w else Some (err, w));
          if err \<noteq> 0 then do { (_, w) \<leftarrow> uv__close K (ret r2) w; Some (err, w) } else Some (ret r2, w) } = Some (res, w')"
        using r s1 s2 nf False by (simp add: uv__socket_def Let_def)
      ultimately show ?thesis using setup_fd [OF K f] f unfolding fd_result_def by blast
    qed
  qed
qed


text \<open>\<open>uv__dup\<close> leaks no descriptor.\<close>

lemma uv__dup_fds:
  assumes K: "kernel_ok K" and r: "uv__dup K fd w = Some (res, w')"
  shows "fd_result w res w'"
proof -
  obtain r1 w1 where s1: "sys K (SysDup fd) w = (r1, w1)" by fastforce
  have l1: "live_fds w1 = (if ret r1 \<noteq> - 1 then insert (ret r1) (live_fds w) else live_fds w)"
    using live_fds_sys [OF s1] by (simp add: fd_effect_open)
  note k1 = sys_kernel_ok [OF K s1]
  show ?thesis
  proof (cases "ret r1 = - 1")
    case True
    then show ?thesis using r s1 l1 k1(1) by (auto simp: uv__dup_def fd_result_def)
  next
    case False
    have f: "ret r1 > 2" "ret r1 \<notin> live_fds w" "live_fds w1 = insert (ret r1) (live_fds w)" using k1(2) False l1 by auto
    have "do { (err, w) \<leftarrow> uv__cloexec K (ret r1) True w1;
        if err \<noteq> 0 then do { (_, w) \<leftarrow> uv__close K (ret r1) w; Some (err, w) } else Some (ret r1, w) } = Some (res, w')"
      using r s1 False by (simp add: uv__dup_def Let_def)
    then obtain e w2 where 2: "uv__cloexec K (ret r1) True w1 = Some (e, w2)"
      "(if e \<noteq> 0 then do { (_, w) \<leftarrow> uv__close K (ret r1) w2; Some (e, w) } else Some (ret r1, w2)) = Some (res, w')"
      by (auto simp: bind_Some_iff)
    have l2: "live_fds w2 = insert (ret r1) (live_fds w)" "e \<le> 0" using ioctl_fds(2) [OF K 2(1)] f(3) by auto
    show ?thesis
    proof (cases "e = 0")
      case True
      then show ?thesis using 2(2) l2 f by (simp add: fd_result_def)
    next
      case False
      then obtain e3 where "uv__close K (ret r1) w2 = Some (e3, w')" "res = e" using 2(2) by (auto simp: bind_Some_iff)
      then show ?thesis using close_fds l2 f False by (auto simp: fd_result_def)
    qed
  qed
qed

lemma fd_result_no_accept4 [simp]: "live_fds (w\<lparr>no_accept4 := b\<rparr>) = live_fds w"
  by (simp add: live_fds_def)

lemma fd_result_from: "live_fds w1 = live_fds w \<Longrightarrow> fd_result w1 res w' \<Longrightarrow> fd_result w res w'"
  by (simp add: fd_result_def)

lemma accept_loop_fds:
  assumes "accept_loop K sockfd w = Some rw" and "kernel_ok K"
  shows "fd_result w (fst rw) (snd rw)"
proof -
  have "kernel_ok K \<longrightarrow> fd_result w (fst rw) (snd rw)"
  proof (rule accept_loop.raw_induct [where P = "\<lambda>K sockfd w rw. kernel_ok K \<longrightarrow> fd_result w (fst rw) (snd rw)", OF _ assms(1)])
    fix f :: "kernel \<Rightarrow> int \<Rightarrow> osw \<Rightarrow> (int \<times> osw) option" and K sockfd w rw
    assume IH: "\<And>K sockfd w rw. f K sockfd w = Some rw \<Longrightarrow> kernel_ok K \<longrightarrow> fd_result w (fst rw) (snd rw)"
    let ?nosys = "\<lparr>ret = - 1, errno = ENOSYS, rdata = [], revents = [], rfds = [], rtime = (0, 0)\<rparr>"
    assume eq: "(let (r, w) = if no_accept4 w then (?nosys, w) else sys K (SysAccept4 sockfd SOCK_FLAGS) w
        in if ret r \<noteq> - 1 then Some (ret r, w)
           else if errno r = EINTR then f K sockfd w
           else if errno r \<noteq> ENOSYS then Some (- errno r, w)
           else let w = w\<lparr>no_accept4 := True\<rparr>; (r, w) = sys K (SysAccept sockfd) w
                in if ret r = - 1 then if errno r = EINTR then f K sockfd w else Some (- errno r, w)
                   else accept_prepare K (ret r) w) = Some rw"
    show "kernel_ok K \<longrightarrow> fd_result w (fst rw) (snd rw)"
    proof
      assume K: "kernel_ok K"
      obtain r1 w1 where s1: "(if no_accept4 w then (?nosys, w) else sys K (SysAccept4 sockfd SOCK_FLAGS) w) = (r1, w1)"
        by fastforce
      have 1: "((ret r1 = - 1 \<and> live_fds w1 = live_fds w) \<or> fd_result w (ret r1) w1) \<and> errno r1 > 0"
      proof (cases "no_accept4 w")
        case True
        then have "r1 = ?nosys" "w1 = w" using s1 by auto
        then show ?thesis by (simp add: ENOSYS_def)
      next
        case False
        then have s: "sys K (SysAccept4 sockfd SOCK_FLAGS) w = (r1, w1)" using s1 by simp
        have "live_fds w1 = (if ret r1 \<noteq> - 1 then insert (ret r1) (live_fds w) else live_fds w)"
          using live_fds_sys [OF s] by (simp add: fd_effect_open)
        then show ?thesis using sys_kernel_ok [OF K s] by (cases "ret r1 = - 1") (simp_all add: fd_result_def)
      qed
      show "fd_result w (fst rw) (snd rw)"
      proof (cases "ret r1 \<noteq> - 1 \<or> errno r1 \<noteq> ENOSYS")
        case True
        then consider "ret r1 \<noteq> - 1" "rw = (ret r1, w1)" | "ret r1 = - 1" "f K sockfd w1 = Some rw"
          | "ret r1 = - 1" "rw = (- errno r1, w1)"
          using eq s1 by (cases "ret r1 = - 1"; cases "errno r1 = EINTR") auto
        then show ?thesis
        proof cases
          case 2
          then have "fd_result w1 (fst rw) (snd rw)" using IH K by blast
          moreover have "live_fds w1 = live_fds w" using 1 2(1) by (simp add: fd_result_def)
          ultimately show ?thesis by (simp add: fd_result_def)
        qed (use 1 in \<open>auto simp: fd_result_def\<close>)
      next
        case False
        then have n: "live_fds (w1\<lparr>no_accept4 := True\<rparr>) = live_fds w" using 1 by (auto simp: fd_result_def)
        obtain r2 w2 where s2: "sys K (SysAccept sockfd) (w1\<lparr>no_accept4 := True\<rparr>) = (r2, w2)" by fastforce
        have l2: "live_fds w2 = (if ret r2 \<noteq> - 1 then insert (ret r2) (live_fds w) else live_fds w)"
          using live_fds_sys [OF s2] n by (simp add: fd_effect_open)
        note k2 = sys_kernel_ok [OF K s2]
        have ne: "ENOSYS \<noteq> EINTR" by (simp add: ENOSYS_def EINTR_def)
        have eq2: "(if ret r2 = - 1 then if errno r2 = EINTR then f K sockfd w2 else Some (- errno r2, w2)
            else accept_prepare K (ret r2) w2) = Some rw"
          using eq s1 s2 False ne by (simp add: Let_def)
        show ?thesis
        proof (cases "ret r2 = - 1")
          case True
          then consider "f K sockfd w2 = Some rw" | "rw = (- errno r2, w2)"
            using eq2 [unfolded if_P [OF True]] by (metis option.inject)
          then show ?thesis
          proof cases
            case 1
            then have "fd_result w2 (fst rw) (snd rw)" using IH K by blast
            then show ?thesis using l2 True by (intro fd_result_from [of w2 w]) simp_all
          qed (use l2 k2(1) True in \<open>simp add: fd_result_def\<close>)
        next
          case nf: False
          have f: "ret r2 > 2" "ret r2 \<notin> live_fds w" "live_fds w2 = insert (ret r2) (live_fds w)" using k2(2) nf n l2 by auto
          have "accept_prepare K (ret r2) w2 = Some (fst rw, snd rw)" using eq2 nf by simp
          then have "(fst rw < 0 \<and> live_fds (snd rw) = live_fds w) \<or> (fst rw = ret r2 \<and> live_fds (snd rw) = insert (ret r2) (live_fds w))"
            unfolding accept_prepare_def
            by (intro setup_fd [OF K f, where f = "uv__cloexec_ioctl K (ret r2) True" and g = "uv__nonblock_ioctl K (ret r2) True"]) simp_all
          then show ?thesis using f unfolding fd_result_def by auto
        qed
      qed
    qed
  qed
  then show ?thesis using assms(2) by blast
qed

text \<open>
  C27. \<open>uv__accept\<close> leaks no descriptor: it returns a new open one that is close-on-exec and
  non-blocking, or a negative error code with the open descriptors as they were.
\<close>

theorem uv__accept_no_leak:
  assumes "kernel_ok K" and "uv__accept K sockfd w = Some (res, w')"
  shows "fd_result w res w'"
  using accept_loop_fds [OF _ assms(1), of sockfd w "(res, w')"] assms(2)
  by (simp add: uv__accept_def split: if_splits)

text \<open>A kernel for the witnesses: new descriptors are larger than any seen, nothing else fails.\<close>

definition fresh_fd :: "(syscall \<times> sysret) list \<Rightarrow> int" where
  "fresh_fd tr = Max (set (2 # map (ret \<circ> snd) tr @ concat (map (rfds \<circ> snd) tr))) + 1"

definition demo_kernel :: kernel where
  "demo_kernel tr c = \<lparr>ret = (if opens c then fresh_fd tr else 0), errno = 1, rdata = [], revents = [],
     rfds = (if opens_pair c then [fresh_fd tr, fresh_fd tr + 1] else []), rtime = (0, 0)\<rparr>"

definition fresh_osw :: osw where
  "fresh_osw = \<lparr>sys_trace = [], no_accept4 = False, no_msg_cmsg_cloexec = False, no_epoll_wait = False,
     no_epoll_pwait = False, no_pipe2 = False, no_socketpair_cloexec = False, no_open_cloexec = False,
     no_eventfd2 = False, no_eventfd = False, fast_clock_id = None\<rparr>"

lemma live_fds_bound:
  "fold (\<lambda>(c, r). fd_effect c r) tr F \<subseteq> F \<union> set (map (ret \<circ> snd) tr @ concat (map (rfds \<circ> snd) tr))"
proof (induction tr arbitrary: F)
  case (Cons x tr)
  obtain c r where x: "x = (c, r)" by (cases x)
  have "fd_effect c r F \<subseteq> insert (ret r) F \<union> set (rfds r)" by (cases c) (auto simp: fd_effect_def new_fds_def)
  then show ?case using Cons.IH [of "fd_effect c r F"] x by auto
qed simp

lemma demo_kernel_ok: "kernel_ok demo_kernel" "prompt demo_kernel"
proof -
  have big: "x > 2 \<and> x \<notin> live_fds w" if "x \<ge> fresh_fd (sys_trace w)" for w :: osw and x
  proof -
    let ?S = "set (2 # map (ret \<circ> snd) (sys_trace w) @ concat (map (rfds \<circ> snd) (sys_trace w)))"
    have m: "Max ?S + 1 \<le> x" using that by (simp only: fresh_fd_def)
    have b: "y < x" if "y \<in> ?S" for y
    proof -
      have "y < Max ?S + 1" unfolding zle_add1_eq_le using that by (intro Max_ge) (simp only: finite_set)
      then show ?thesis using m by (rule less_le_trans)
    qed
    have "live_fds w \<subseteq> ?S" using live_fds_bound [of "sys_trace w" "{}"] by (auto simp: live_fds_def)
    then show ?thesis using b [of 2] b [of x] by (meson in_mono less_irrefl list.set_intros(1))
  qed
  have f: "fresh_fd (sys_trace w) > 2" "fresh_fd (sys_trace w) \<notin> live_fds w" "fresh_fd (sys_trace w) + 1 \<notin> live_fds w" for w :: osw
    using big [of w "fresh_fd (sys_trace w)"] big [of w "fresh_fd (sys_trace w) + 1"] by simp_all
  have o: "\<not> opens_pair c" if "opens c" for c using that by (cases c) auto
  have "fresh_fd (sys_trace w) \<noteq> 0 \<and> fresh_fd (sys_trace w) \<noteq> - 1 \<and> fresh_fd (sys_trace w) \<ge> 2" for w :: osw using f(1) [of w] by auto
  then show "kernel_ok demo_kernel" unfolding kernel_ok_def demo_kernel_def Let_def new_fds_def using f o by auto
  show "prompt demo_kernel" by (simp add: prompt_def demo_kernel_def EINTR_def)
qed


theorem uv__accept_no_leak_witness:
  "\<exists>w'. uv__accept demo_kernel 9 fresh_osw = Some (3, w') \<and> fd_result fresh_osw 3 w'"
proof -
  have "\<exists>w'. uv__accept demo_kernel 9 fresh_osw = Some (3, w')"
    by (subst uv__accept_def, subst accept_loop.simps)
      (simp add: sys_def demo_kernel_def fresh_osw_def fresh_fd_def Let_def)
  then show ?thesis using uv__accept_no_leak [OF demo_kernel_ok(1)] by blast
qed

end
