(* ===== verification/UvIo.thy ===== *)
theory UvIo
  imports UvWatcher Sys
begin

text \<open>
  The I/O watchers of a loop: \<^verbatim>\<open>uv__io_t\<close> and the functions \<^verbatim>\<open>uv__io_*\<close> of
  \<^verbatim>\<open>3rd/libuv/src/unix/core.c\<close>, and the poll of \<^verbatim>\<open>3rd/libuv/src/unix/linux-core.c\<close>.

  A watcher is named by the object it is a field of (\<open>wid\<close>), which is what \<^verbatim>\<open>container_of\<close> computes
  from its address. The table \<open>watchers\<close> maps a descriptor to the watcher registered for it; its
  two extra entries, which show the events of the running poll to \<^verbatim>\<open>uv__platform_invalidate_fd\<close>,
  are the field \<open>poll_events\<close>. A watcher is on the watcher or pending queue of the loop or on none,
  which is what \<^verbatim>\<open>QUEUE_EMPTY\<close> of its own queue field tests.

  \<open>io_inv\<close> says that the table and the queue of the watchers to (re)register agree: the counter
  \<open>nfds\<close> counts the table, an entry is the watcher of its own descriptor and watches something, and
  every queued watcher is in the table. The functions keep it and never run into one of their
  assertions under it.
\<close>

subsection \<open>Watchers\<close>

datatype wid = WHandle hid | WAsync | WSignal | WInotify

datatype uv__io_cb = UV__STREAM_IO | UV__SERVER_IO | UV__UDP_IO | UV__ASYNC_IO | UV__POLL_IO | UV__SIGNAL_EVENT | UV__INOTIFY_READ

record uv__io =
  io_cb :: uv__io_cb
  iofd :: int
  ioevents :: u32
  pevents :: u32

record io_loop = watcher_loop +
  os :: osw
  loop_flags :: u64
  backend_fd :: int
  pending_queue :: "wid list"
  pending_local :: "wid list"
  watcher_queue :: "wid list"
  watchers :: "wid option list"
  nfds :: u32
  poll_events :: "(u32 \<times> int) list option"
  io_watchers :: "wid \<Rightarrow> uv__io"
  io_trace :: "(cb \<times> hid \<times> int list \<times> u8 list) list"

text \<open>
  The callbacks of handles that do I/O get arguments: numbers (a status, a count, a set of events) and
  the bytes of a buffer. \<open>io_trace\<close> lists the invocations, as \<open>trace\<close> does for the callbacks without.
\<close>

type_synonym 's arg_client = "cb \<Rightarrow> hid \<Rightarrow> int list \<Rightarrow> u8 list \<Rightarrow> 's \<Rightarrow> 's option"

definition invoke_args ::
  "'a io_loop_scheme arg_client \<Rightarrow> cb \<Rightarrow> hid \<Rightarrow> int list \<Rightarrow> u8 list \<Rightarrow> 'a io_loop_scheme \<Rightarrow> 'a io_loop_scheme option" where
  "invoke_args acb c h args bs s = acb c h args bs (s\<lparr>io_trace := io_trace s @ [(c, h, args, bs)]\<rparr>)"

definition POLLIN :: u32 where "POLLIN = 0x001"
definition POLLPRI :: u32 where "POLLPRI = 0x002"
definition POLLOUT :: u32 where "POLLOUT = 0x004"
definition POLLERR :: u32 where "POLLERR = 0x008"
definition POLLHUP :: u32 where "POLLHUP = 0x010"
definition POLLRDHUP :: u32 where "POLLRDHUP = 0x2000"

definition IO_EVENTS :: u32 where "IO_EVENTS = POLLIN OR POLLOUT OR POLLRDHUP OR POLLPRI"

definition upd_io :: "wid \<Rightarrow> (uv__io \<Rightarrow> uv__io) \<Rightarrow> 'a io_loop_scheme \<Rightarrow> 'a io_loop_scheme" where
  "upd_io w f s = s\<lparr>io_watchers := (io_watchers s)(w := f (io_watchers s w))\<rparr>"

text \<open>Running a function of Sys.thy on the operating system of the loop.\<close>

definition lift_os :: "(osw \<Rightarrow> ('r \<times> osw) option) \<Rightarrow> 'a io_loop_scheme \<Rightarrow> ('r \<times> 'a io_loop_scheme) option" where
  "lift_os f s = (case f (os s) of None \<Rightarrow> None | Some (r, w) \<Rightarrow> Some (r, s\<lparr>os := w\<rparr>))"

definition sysl :: "kernel \<Rightarrow> syscall \<Rightarrow> 'a io_loop_scheme \<Rightarrow> sysret \<times> 'a io_loop_scheme" where
  "sysl K c s = (case sys K c (os s) of (r, w) \<Rightarrow> (r, s\<lparr>os := w\<rparr>))"

definition uv__update_time :: "kernel \<Rightarrow> 'a io_loop_scheme \<Rightarrow> 'a io_loop_scheme" where
  "uv__update_time K s =
     (case uv__hrtime K UV_CLOCK_FAST (os s) of (t, w) \<Rightarrow> s\<lparr>os := w, time := t div 1000000\<rparr>)"

subsection \<open>The table of watchers\<close>

definition next_power_of_two :: "u32 \<Rightarrow> u32" where
  "next_power_of_two val =
     (let val = val - 1;
          val = val OR drop_bit 1 val;
          val = val OR drop_bit 2 val;
          val = val OR drop_bit 4 val;
          val = val OR drop_bit 8 val;
          val = val OR drop_bit 16 val
      in val + 1)"

definition maybe_resize :: "kernel \<Rightarrow> u32 \<Rightarrow> 'a io_loop_scheme \<Rightarrow> 'a io_loop_scheme option" where
  "maybe_resize K len s =
     (if len \<le> of_nat (length (watchers s)) then Some s
      else (let nwatchers = next_power_of_two (len + 2) - 2;
                (r, s) = sysl K (SysAlloc (8 * (unat nwatchers + 2))) s
            in if ret r = 0 then None
               else Some (s\<lparr>watchers := watchers s @ replicate (unat nwatchers - length (watchers s)) None\<rparr>)))"

definition fd_watcher :: "'a io_loop_scheme \<Rightarrow> int \<Rightarrow> wid option" where
  "fd_watcher s fd = watchers s ! nat fd"

definition uv__io_init :: "wid \<Rightarrow> uv__io_cb \<Rightarrow> int \<Rightarrow> 'a io_loop_scheme \<Rightarrow> 'a io_loop_scheme option" where
  "uv__io_init w cb fd s =
     (if \<not> fd \<ge> - 1 then None
      else Some (upd_io w (\<lambda>_. \<lparr>io_cb = cb, iofd = fd, ioevents = 0, pevents = 0\<rparr>) s))"

text \<open>The end of \<^verbatim>\<open>uv__io_start\<close>: the watcher is queued and entered into the table.\<close>

definition io_queue_watcher :: "wid \<Rightarrow> 'a io_loop_scheme \<Rightarrow> 'a io_loop_scheme" where
  "io_queue_watcher w s =
     (if w \<notin> set (watcher_queue s) then s\<lparr>watcher_queue := watcher_queue s @ [w]\<rparr> else s)"

definition io_enter :: "wid \<Rightarrow> 'a io_loop_scheme \<Rightarrow> 'a io_loop_scheme" where
  "io_enter w s =
     (let s = io_queue_watcher w s; fd = iofd (io_watchers s w) in
      if fd_watcher s fd = None
      then s\<lparr>watchers := (watchers s)[nat fd := Some w], nfds := nfds s + 1\<rparr>
      else s)"

definition uv__io_start :: "kernel \<Rightarrow> wid \<Rightarrow> u32 \<Rightarrow> 'a io_loop_scheme \<Rightarrow> 'a io_loop_scheme option" where
  "uv__io_start K w events s =
     (if events AND NOT IO_EVENTS \<noteq> 0 then None
      else if events = 0 then None
      else if \<not> iofd (io_watchers s w) \<ge> 0 then None
      else if \<not> iofd (io_watchers s w) < INT_MAX then None
      else do {
        let s = upd_io w (\<lambda>x. x\<lparr>pevents := pevents x OR events\<rparr>) s;
        s \<leftarrow> maybe_resize K (word_of_int (iofd (io_watchers s w)) + 1) s;
        Some (if ioevents (io_watchers s w) = pevents (io_watchers s w) then s else io_enter w s)
      })"

definition uv__io_stop :: "wid \<Rightarrow> u32 \<Rightarrow> 'a io_loop_scheme \<Rightarrow> 'a io_loop_scheme option" where
  "uv__io_stop w events s =
     (if events AND NOT IO_EVENTS \<noteq> 0 then None
      else if events = 0 then None
      else (let fd = iofd (io_watchers s w) in
        if fd = - 1 then Some s
        else if \<not> fd \<ge> 0 then None
        else if nat fd \<ge> length (watchers s) then Some s
        else (let s = upd_io w (\<lambda>x. x\<lparr>pevents := pevents x AND NOT events\<rparr>) s in
          if pevents (io_watchers s w) = 0
          then (let s = s\<lparr>watcher_queue := remove1 w (watcher_queue s)\<rparr> in
            case fd_watcher s fd of
              None \<Rightarrow> Some s
            | Some w' \<Rightarrow>
                if w' \<noteq> w then None
                else if \<not> nfds s > 0 then None
                else Some (upd_io w (\<lambda>x. x\<lparr>ioevents := 0\<rparr>)
                       (s\<lparr>watchers := (watchers s)[nat fd := None], nfds := nfds s - 1\<rparr>)))
          else Some (io_queue_watcher w s))))"

text \<open>\<^verbatim>\<open>uv__platform_invalidate_fd\<close> also wipes the events of the running poll for the descriptor.\<close>

definition uv__platform_invalidate_fd :: "kernel \<Rightarrow> int \<Rightarrow> 'a io_loop_scheme \<Rightarrow> 'a io_loop_scheme option" where
  "uv__platform_invalidate_fd K fd s =
     (if watchers s = [] then None
      else (let s = s\<lparr>poll_events := map_option (map (\<lambda>(e, d). (e, if d = fd then - 1 else d))) (poll_events s)\<rparr>
            in Some (if backend_fd s \<ge> 0 then snd (sysl K (SysEpollCtl (backend_fd s) ''DEL'' fd 0) s) else s)))"

definition uv__io_close :: "kernel \<Rightarrow> wid \<Rightarrow> 'a io_loop_scheme \<Rightarrow> 'a io_loop_scheme option" where
  "uv__io_close K w s = do {
     s \<leftarrow> uv__io_stop w IO_EVENTS s;
     let s = s\<lparr>pending_queue := remove1 w (pending_queue s), pending_local := remove1 w (pending_local s)\<rparr>;
     uv__platform_invalidate_fd K (iofd (io_watchers s w)) s
   }"

definition uv__io_feed :: "wid \<Rightarrow> 'a io_loop_scheme \<Rightarrow> 'a io_loop_scheme" where
  "uv__io_feed w s =
     (if w \<notin> set (pending_queue s) \<union> set (pending_local s) then s\<lparr>pending_queue := pending_queue s @ [w]\<rparr> else s)"

definition uv__io_active :: "wid \<Rightarrow> u32 \<Rightarrow> 'a io_loop_scheme \<Rightarrow> bool option" where
  "uv__io_active w events s =
     (if events AND NOT IO_EVENTS \<noteq> 0 then None
      else if events = 0 then None
      else Some (pevents (io_watchers s w) AND events \<noteq> 0))"

definition uv__fd_exists :: "int \<Rightarrow> 'a io_loop_scheme \<Rightarrow> bool" where
  "uv__fd_exists fd s \<longleftrightarrow>
     (word_of_int fd :: u32) < of_nat (length (watchers s)) \<and> fd_watcher s fd \<noteq> None"

text \<open>The callback of a watcher, a function of libuv, is a parameter here.\<close>

type_synonym 's io_client = "uv__io_cb \<Rightarrow> wid \<Rightarrow> u32 \<Rightarrow> 's \<Rightarrow> 's option"

partial_function (option) run_pending :: "'a io_loop_scheme io_client \<Rightarrow> 'a io_loop_scheme \<Rightarrow> 'a io_loop_scheme option" where
  "run_pending icb s =
     (case pending_local s of
        [] \<Rightarrow> Some s
      | w # q \<Rightarrow> do {
          let s = s\<lparr>pending_local := q\<rparr>;
          s \<leftarrow> icb (io_cb (io_watchers s w)) w POLLOUT s;
          run_pending icb s
        })"

definition uv__run_pending :: "'a io_loop_scheme io_client \<Rightarrow> 'a io_loop_scheme \<Rightarrow> (int \<times> 'a io_loop_scheme) option" where
  "uv__run_pending icb s =
     (if pending_queue s = [] then Some (0, s)
      else do {
        s \<leftarrow> run_pending icb (s\<lparr>pending_local := pending_queue s, pending_queue := []\<rparr>);
        Some (1, s)
      })"

subsection \<open>The poll (unix/linux-core.c)\<close>

text \<open>The loop that registers the watchers of the queue with the kernel.\<close>

partial_function (option) io_register :: "kernel \<Rightarrow> 'a io_loop_scheme \<Rightarrow> 'a io_loop_scheme option" where
  "io_register K s =
     (case watcher_queue s of
        [] \<Rightarrow> Some s
      | w # q \<Rightarrow>
          let s = s\<lparr>watcher_queue := q\<rparr>; x = io_watchers s w in
          if pevents x = 0 then None
          else if \<not> iofd x \<ge> 0 then None
          else if \<not> iofd x < int (length (watchers s)) then None
          else (let op = (if ioevents x = 0 then ''ADD'' else ''MOD'');
                    (r, s) = sysl K (SysEpollCtl (backend_fd s) op (iofd x) (pevents x)) s in do {
            s \<leftarrow> (if ret r \<noteq> 0
                  then (if errno r \<noteq> EEXIST then None
                        else if op \<noteq> ''ADD'' then None
                        else (let (r, s) = sysl K (SysEpollCtl (backend_fd s) ''MOD'' (iofd x) (pevents x)) s
                              in if ret r \<noteq> 0 then None else Some s))
                  else Some s);
            io_register K (upd_io w (\<lambda>x. x\<lparr>ioevents := pevents x\<rparr>) s)
          }))"

definition io_mask :: "u32 \<Rightarrow> u32 \<Rightarrow> u32" where
  "io_mask events pev =
     (let e = events AND (pev OR POLLERR OR POLLHUP) in
      if e = POLLERR \<or> e = POLLHUP then e OR (pev AND IO_EVENTS) else e)"

text \<open>
  What the pass over the events of the kernel does with event number \<open>i\<close>. The events are read from
  the loop every time, because a callback may have invalidated some.
\<close>

datatype io_action = IoEnd | IoFail | IoSkip | IoDisarm int u32 | IoSignals | IoCall wid u32

definition io_action :: "nat \<Rightarrow> 'a io_loop_scheme \<Rightarrow> io_action" where
  "io_action i s =
     (case poll_events s of
        None \<Rightarrow> IoFail
      | Some evs \<Rightarrow>
          if i \<ge> length evs then IoEnd
          else (let (ev, fd) = evs ! i in
            if fd = - 1 then IoSkip
            else if \<not> fd \<ge> 0 then IoFail
            else if \<not> nat fd < length (watchers s) then IoFail
            else (case fd_watcher s fd of
              None \<Rightarrow> IoDisarm fd ev
            | Some w \<Rightarrow>
                (let e = io_mask ev (pevents (io_watchers s w)) in
                 if e = 0 then IoSkip else if w = WSignal then IoSignals else IoCall w e))))"

text \<open>The pass from event \<open>i\<close> on; \<open>acc\<close> is the pair of \<^verbatim>\<open>have_signals\<close> and \<^verbatim>\<open>nevents\<close>.\<close>

partial_function (option) io_dispatch ::
  "kernel \<Rightarrow> 'a io_loop_scheme io_client \<Rightarrow> nat \<Rightarrow> bool \<times> nat \<Rightarrow> 'a io_loop_scheme \<Rightarrow> ((bool \<times> nat) \<times> 'a io_loop_scheme) option" where
  "io_dispatch K icb i acc s =
     (case io_action i s of
        IoEnd \<Rightarrow> Some (acc, s)
      | IoFail \<Rightarrow> None
      | IoSkip \<Rightarrow> io_dispatch K icb (i + 1) acc s
      | IoDisarm fd ev \<Rightarrow> io_dispatch K icb (i + 1) acc (snd (sysl K (SysEpollCtl (backend_fd s) ''DEL'' fd ev) s))
      | IoSignals \<Rightarrow> io_dispatch K icb (i + 1) (True, snd acc + 1) s
      | IoCall w e \<Rightarrow> do {
          s \<leftarrow> icb (io_cb (io_watchers s w)) w e s;
          io_dispatch K icb (i + 1) (fst acc, snd acc + 1) s
        })"

definition sigprof_mask :: "'a io_loop_scheme \<Rightarrow> u64" where
  "sigprof_mask s = (if loop_flags s AND 1 \<noteq> 0 then push_bit 26 1 else 0)"

text \<open>The wait of one round, with the bookkeeping of the two system calls.\<close>

definition io_wait :: "kernel \<Rightarrow> int \<Rightarrow> 'a io_loop_scheme \<Rightarrow> (sysret \<times> 'a io_loop_scheme) option" where
  "io_wait K tmo s =
     (let sigmask = sigprof_mask s;
          block = (\<lambda>on s. if sigmask \<noteq> 0 \<and> no_epoll_pwait (os s)
                          then (let (r, s) = sysl K (SysSigmask on) s in if ret r \<noteq> 0 then None else Some s)
                          else Some s)
      in do {
        s \<leftarrow> block True s;
        let (r, s) =
          (if no_epoll_wait (os s) \<or> (sigmask \<noteq> 0 \<and> \<not> no_epoll_pwait (os s))
           then (let (r, s) = sysl K (SysEpollPwait (backend_fd s) tmo sigmask) s
                 in (r, if ret r = - 1 \<and> errno r = ENOSYS then s\<lparr>os := (os s)\<lparr>no_epoll_pwait := True\<rparr>\<rparr> else s))
           else (let (r, s) = sysl K (SysEpollWait (backend_fd s) tmo) s
                 in (r, if ret r = - 1 \<and> errno r = ENOSYS then s\<lparr>os := (os s)\<lparr>no_epoll_wait := True\<rparr>\<rparr> else s)));
        s \<leftarrow> block False s;
        Some (r, uv__update_time K s)
      })"

text \<open>
  One round of the poll. \<open>rt\<close> is \<^verbatim>\<open>real_timeout\<close>, \<open>cnt\<close> bounds the rounds that only collect more
  events, \<open>base\<close> is the time of the start. \<open>sizeof(long)\<close> is 8, so the workaround for old kernels
  with 32 bit longs does not apply. The subtraction is done in \<^verbatim>\<open>uint64_t\<close> and converted to \<^verbatim>\<open>int\<close>.
\<close>

datatype io_next = IoReturn | IoAgain int int nat

definition io_left :: "int \<Rightarrow> u64 \<Rightarrow> u64 \<Rightarrow> int" where
  "io_left rt now base = sint (ucast ((word_of_int rt :: u64) - (now - base)) :: u32)"

text \<open>The code at the label \<^verbatim>\<open>update_timeout\<close>.\<close>

definition io_update_timeout :: "u64 \<Rightarrow> int \<Rightarrow> int \<Rightarrow> nat \<Rightarrow> 'a io_loop_scheme \<Rightarrow> (io_next \<times> 'a io_loop_scheme) option" where
  "io_update_timeout base tmo rt cnt s =
     (if \<not> tmo > 0 then None
      else (let rt = io_left rt (time s) base in
            Some (if rt \<le> 0 then IoReturn else IoAgain rt rt cnt, s)))"

definition io_round ::
  "kernel \<Rightarrow> 'a io_loop_scheme io_client \<Rightarrow> u64 \<Rightarrow> int \<Rightarrow> int \<Rightarrow> nat \<Rightarrow> 'a io_loop_scheme \<Rightarrow> (io_next \<times> 'a io_loop_scheme) option" where
  "io_round K icb base tmo rt cnt s = do {
     (r, s) \<leftarrow> io_wait K tmo s;
     if ret r = 0
     then (if tmo = - 1 then None
           else if tmo = 0 then Some (IoReturn, s)
           else io_update_timeout base tmo rt cnt s)
     else if ret r = - 1
     then (if errno r = ENOSYS
           then (if no_epoll_wait (os s) \<and> no_epoll_pwait (os s) then None else Some (IoAgain tmo rt cnt, s))
           else if errno r \<noteq> EINTR then None
           else if tmo = - 1 then Some (IoAgain tmo rt cnt, s)
           else if tmo = 0 then Some (IoReturn, s)
           else io_update_timeout base tmo rt cnt s)
     else if watchers s = [] then None
     else do {
       ((sig, nev), s) \<leftarrow> io_dispatch K icb 0 (False, 0) (s\<lparr>poll_events := Some (take (nat (ret r)) (revents r))\<rparr>);
       s \<leftarrow> (if sig then icb (io_cb (io_watchers s WSignal)) WSignal POLLIN s else Some s);
       let s = s\<lparr>poll_events := None\<rparr>;
       if sig then Some (IoReturn, s)
       else if nev \<noteq> 0
       then (if ret r = 1024 \<and> cnt - 1 \<noteq> 0 then Some (IoAgain 0 rt (cnt - 1), s) else Some (IoReturn, s))
       else if tmo = 0 then Some (IoReturn, s)
       else if tmo = - 1 then Some (IoAgain tmo rt cnt, s)
       else io_update_timeout base tmo rt cnt s
     }
   }"

partial_function (option) io_rounds ::
  "kernel \<Rightarrow> 'a io_loop_scheme io_client \<Rightarrow> u64 \<Rightarrow> int \<times> int \<times> nat \<Rightarrow> 'a io_loop_scheme \<Rightarrow> 'a io_loop_scheme option" where
  "io_rounds K icb base trc s = do {
     (n, s) \<leftarrow> io_round K icb base (fst trc) (fst (snd trc)) (snd (snd trc)) s;
     case n of
       IoReturn \<Rightarrow> Some s
     | IoAgain tmo rt cnt \<Rightarrow> io_rounds K icb base (tmo, rt, cnt) s
   }"

definition uv__io_poll :: "kernel \<Rightarrow> 'a io_loop_scheme io_client \<Rightarrow> int \<Rightarrow> 'a io_loop_scheme \<Rightarrow> 'a io_loop_scheme option" where
  "uv__io_poll K icb tmo s =
     (if nfds s = 0 then (if watcher_queue s \<noteq> [] then None else Some s)
      else do {
        s \<leftarrow> io_register K s;
        if \<not> tmo \<ge> - 1 then None
        else io_rounds K icb (time s) (tmo, tmo, 48) s
      })"

declare run_pending.simps [code] io_register.simps [code] io_dispatch.simps [code] io_rounds.simps [code]


subsection \<open>Powers of two\<close>

lemma smear_step:
  assumes "\<And>n. bit (a :: u32) n \<longleftrightarrow> (\<exists>k<m. bit v (n + k))"
  shows "bit (a OR drop_bit m a) n \<longleftrightarrow> (\<exists>k<2 * m. bit v (n + k))"
proof -
  have "bit (a OR drop_bit m a) n \<longleftrightarrow> (\<exists>k<m. bit v (n + k)) \<or> (\<exists>k<m. bit v (m + n + k))"
    by (simp add: bit_or_iff bit_drop_bit_eq assms)
  also have "\<dots> \<longleftrightarrow> (\<exists>k<2 * m. bit v (n + k))"
  proof
    assume "(\<exists>k<m. bit v (n + k)) \<or> (\<exists>k<m. bit v (m + n + k))"
    then show "\<exists>k<2 * m. bit v (n + k)"
    proof
      assume "\<exists>k<m. bit v (m + n + k)"
      then obtain k where "k < m" "bit v (m + n + k)" by blast
      then show ?thesis by (intro exI [of _ "m + k"]) (simp add: ac_simps)
    next
      assume "\<exists>k<m. bit v (n + k)"
      then obtain k where "k < m" "bit v (n + k)" by blast
      then show ?thesis by (intro exI [of _ k]) simp
    qed
  next
    assume "\<exists>k<2 * m. bit v (n + k)"
    then obtain k where k: "k < 2 * m" "bit v (n + k)" by blast
    show "(\<exists>k<m. bit v (n + k)) \<or> (\<exists>k<m. bit v (m + n + k))"
    proof (cases "k < m")
      case False
      then have "k - m < m" "m + n + (k - m) = n + k" using k(1) by auto
      then show ?thesis using k(2) by metis
    qed (use k in blast)
  qed
  finally show ?thesis .
qed

definition smear :: "u32 \<Rightarrow> u32" where
  "smear val =
     (let val = val OR drop_bit 1 val;
          val = val OR drop_bit 2 val;
          val = val OR drop_bit 4 val;
          val = val OR drop_bit 8 val
      in val OR drop_bit 16 val)"

lemma bit_smear: "bit (smear v) n \<longleftrightarrow> (\<exists>k\<ge>n. bit v k)"
proof -
  define a1 where "a1 = v OR drop_bit 1 v"
  define a2 where "a2 = a1 OR drop_bit 2 a1"
  define a4 where "a4 = a2 OR drop_bit 4 a2"
  define a8 where "a8 = a4 OR drop_bit 8 a4"
  have "bit a1 n \<longleftrightarrow> (\<exists>k<2. bit v (n + k))" for n
    unfolding a1_def using smear_step [of v 1 v n] by simp
  then have "bit a2 n \<longleftrightarrow> (\<exists>k<4. bit v (n + k))" for n
    unfolding a2_def using smear_step [of a1 2 v n] by simp
  then have "bit a4 n \<longleftrightarrow> (\<exists>k<8. bit v (n + k))" for n
    unfolding a4_def using smear_step [of a2 4 v n] by simp
  then have "bit a8 n \<longleftrightarrow> (\<exists>k<16. bit v (n + k))" for n
    unfolding a8_def using smear_step [of a4 8 v n] by simp
  then have "bit (a8 OR drop_bit 16 a8) n \<longleftrightarrow> (\<exists>k<32. bit v (n + k))" for n
    using smear_step [of a8 16 v n] by simp
  moreover have "smear v = a8 OR drop_bit 16 a8"
    by (simp add: smear_def a8_def a4_def a2_def a1_def Let_def)
  moreover have "(\<exists>k<32. bit v (n + k)) \<longleftrightarrow> (\<exists>k\<ge>n. bit v k)"
  proof
    assume "\<exists>k\<ge>n. bit v k"
    then obtain k where "k \<ge> n" "bit v k" by blast
    moreover from this(2) have "k < 32" using bit_imp_le_length [of v k] by simp
    ultimately show "\<exists>k<32. bit v (n + k)" by (intro exI [of _ "k - n"]) auto
  qed (metis le_add1)
  ultimately show ?thesis by simp
qed

lemma unat_bound_bits: "(\<forall>k\<ge>n. \<not> bit v k) \<longleftrightarrow> unat (v :: u32) < 2 ^ n"
proof
  assume "\<forall>k\<ge>n. \<not> bit v k"
  then have "take_bit n v = v" by (intro bit_word_eqI) (auto simp: bit_take_bit_iff not_le)
  then have "unat v = take_bit n (unat v)" by (metis unsigned_take_bit_eq)
  then show "unat v < 2 ^ n" by (metis take_bit_nat_less_exp)
next
  assume "unat v < 2 ^ n"
  then have "take_bit n (unat v) = unat v" by (rule take_bit_nat_eq_self)
  then have "\<not> bit (unat v) k" if "k \<ge> n" for k using that by (metis bit_take_bit_iff not_le)
  then show "\<forall>k\<ge>n. \<not> bit v k" by (simp add: bit_unsigned_iff)
qed

lemma next_power_of_two_smear: "next_power_of_two v = smear (v - 1) + 1"
  by (simp add: next_power_of_two_def smear_def Let_def)

text \<open>
  C40. \<open>next_power_of_two\<close> computes, for \<open>1 \<le> v \<le> 2 ^ 31\<close>, the least power of two that is not
  below \<open>v\<close>.
\<close>

theorem next_power_of_two_least:
  assumes "1 \<le> unat v" and "unat v \<le> 2 ^ 31"
  shows "\<exists>m. unat (next_power_of_two v) = 2 ^ m \<and> unat v \<le> 2 ^ m \<and> (\<forall>k. unat v \<le> 2 ^ k \<longrightarrow> m \<le> k)"
proof -
  have u: "unat (v - 1) = unat v - 1" using assms(1) by (subst unat_sub) (auto simp: word_le_nat_alt)
  define m where "m = (LEAST n. unat (v - 1) < 2 ^ n)"
  have b: "unat (v - 1) < 2 ^ 31" using u assms by linarith
  then have m: "unat (v - 1) < 2 ^ m" unfolding m_def by (rule LeastI)
  have l: "m \<le> n" if "unat (v - 1) < 2 ^ n" for n unfolding m_def using that by (rule Least_le)
  have "m \<le> 31" using l b by blast
  have "smear (v - 1) = mask m"
  proof (rule bit_word_eqI)
    fix n assume "n < LENGTH(32)"
    have "bit (smear (v - 1)) n \<longleftrightarrow> \<not> unat (v - 1) < 2 ^ n"
      using unat_bound_bits [of n "v - 1"] by (auto simp: bit_smear)
    also have "\<dots> \<longleftrightarrow> n < m"
      using l [of n] m less_le_trans [OF m, of "2 ^ n"] by (metis leD le_less_linear one_le_numeral power_increasing)
    finally show "bit (smear (v - 1)) n \<longleftrightarrow> bit (mask m :: u32) n"
      using \<open>n < LENGTH(32)\<close> by (simp add: bit_mask_iff)
  qed
  then have "next_power_of_two v = 2 ^ m" by (simp add: next_power_of_two_smear mask_eq_exp_minus_1)
  moreover have "unat (2 ^ m :: u32) = 2 ^ m"
  proof -
    have "(2 :: nat) ^ m < 2 ^ 32" using \<open>m \<le> 31\<close> by (intro power_strict_increasing) auto
    then show ?thesis using unat_of_nat [of "2 ^ m", where 'a = 32] by simp
  qed
  moreover have "unat v \<le> 2 ^ m" using m u assms(1) by linarith
  moreover have "m \<le> k" if "unat v \<le> 2 ^ k" for k using l [of k] u assms(1) that by linarith
  ultimately show ?thesis by auto
qed

theorem next_power_of_two_least_witness:
  "\<exists>m. unat (next_power_of_two 100) = 2 ^ m \<and> (100::nat) \<le> 2 ^ m \<and> (\<forall>k. 100 \<le> (2 :: nat) ^ k \<longrightarrow> m \<le> k)"
  using next_power_of_two_least [of 100] by simp


subsection \<open>The invariant of the watchers\<close>

definition registered :: "'a io_loop_scheme \<Rightarrow> nat set" where
  "registered s = {fd. fd < length (watchers s) \<and> watchers s ! fd \<noteq> None}"

definition io_inv :: "'a io_loop_scheme \<Rightarrow> bool" where
  "io_inv s \<longleftrightarrow>
     length (watchers s) < 2 ^ 32 \<and> nfds s = of_nat (card (registered s)) \<and>
     (\<forall>fd<length (watchers s). \<forall>w. watchers s ! fd = Some w \<longrightarrow>
        iofd (io_watchers s w) = int fd \<and> pevents (io_watchers s w) \<noteq> 0) \<and>
     distinct (watcher_queue s) \<and>
     (\<forall>w. w \<in> set (watcher_queue s) \<or> ioevents (io_watchers s w) \<noteq> 0 \<longrightarrow>
        (\<exists>fd<length (watchers s). iofd (io_watchers s w) = int fd \<and> watchers s ! fd = Some w))"

lemma finite_registered [simp]: "finite (registered s)"
  by (simp add: registered_def)

lemma card_registered: "card (registered s) \<le> length (watchers s)"
proof -
  have "registered s \<subseteq> {..<length (watchers s)}" by (auto simp: registered_def)
  then show ?thesis using card_mono [of "{..<length (watchers s)}" "registered s"] by simp
qed

lemma upd_io_simps [simp]:
  "io_watchers (upd_io w f s) = (io_watchers s)(w := f (io_watchers s w))"
  "watchers (upd_io w f s) = watchers s" "watcher_queue (upd_io w f s) = watcher_queue s"
  "nfds (upd_io w f s) = nfds s" "registered (upd_io w f s) = registered s"
  "pending_queue (upd_io w f s) = pending_queue s" "os (upd_io w f s) = os s"
  "backend_fd (upd_io w f s) = backend_fd s" "pending_local (upd_io w f s) = pending_local s"
  by (simp_all add: upd_io_def registered_def)

lemma io_invD:
  assumes "io_inv s"
  shows "length (watchers s) < 2 ^ 32" "nfds s = of_nat (card (registered s))"
    "\<And>fd w. fd < length (watchers s) \<Longrightarrow> watchers s ! fd = Some w \<Longrightarrow>
       iofd (io_watchers s w) = int fd \<and> pevents (io_watchers s w) \<noteq> 0"
    "distinct (watcher_queue s)"
    "\<And>w. w \<in> set (watcher_queue s) \<or> ioevents (io_watchers s w) \<noteq> 0 \<Longrightarrow>
       \<exists>fd<length (watchers s). iofd (io_watchers s w) = int fd \<and> watchers s ! fd = Some w"
  using assms unfolding io_inv_def by blast+

text \<open>The table after registering or removing a watcher.\<close>

lemma registered_set:
  assumes "fd < length (watchers s)"
  shows "registered (s\<lparr>watchers := (watchers s)[fd := Some w], nfds := n\<rparr>) = insert fd (registered s)"
    "registered (s\<lparr>watchers := (watchers s)[fd := None], nfds := n\<rparr>) = registered s - {fd}"
  using assms by (auto simp: registered_def nth_list_update split: if_splits)

lemma maybe_resize_ok:
  assumes "io_inv s" and "maybe_resize K len s = Some s'" and "unat len + 2 \<le> 2 ^ 31"
  shows "io_inv s' \<and> unat len \<le> length (watchers s') \<and> io_watchers s' = io_watchers s \<and>
    watcher_queue s' = watcher_queue s \<and> nfds s' = nfds s \<and> registered s' = registered s \<and>
    (\<forall>fd<length (watchers s). watchers s' ! fd = watchers s ! fd) \<and>
    (\<forall>fd<length (watchers s'). fd \<ge> length (watchers s) \<longrightarrow> watchers s' ! fd = None)"
proof (cases "len \<le> of_nat (length (watchers s))")
  case True
  then have "unat len \<le> length (watchers s)"
    using io_invD(1) [OF assms(1)] by (simp add: word_le_nat_alt unat_of_nat)
  then show ?thesis using assms True by (simp add: maybe_resize_def)
next
  case False
  let ?n = "next_power_of_two (len + 2) - 2"
  have l2: "unat (len + 2) = unat len + 2" using assms(3) by (simp add: unat_word_ariths)
  obtain m where m: "unat (next_power_of_two (len + 2)) = 2 ^ m" "unat len + 2 \<le> 2 ^ m"
    "\<forall>k. unat len + 2 \<le> 2 ^ k \<longrightarrow> m \<le> k"
    using next_power_of_two_least [of "len + 2"] assms(3) unfolding l2 by auto
  have n: "unat ?n = 2 ^ m - 2" using m(1,2) by (subst unat_sub) (auto simp: word_le_nat_alt)
  have "m \<le> 31" using m(3) assms(3) by blast
  then have "(2 :: nat) ^ m \<le> 2 ^ 31" by (intro power_increasing) auto
  then have n32: "unat ?n < 2 ^ 32" using n by simp
  have lt: "length (watchers s) < unat ?n"
  proof -
    have "length (watchers s) < unat len" using False io_invD(1) [OF assms(1)] by (simp add: word_less_nat_alt not_le unat_of_nat)
    then show ?thesis using n m(2) by linarith
  qed
  define W where "W = watchers s @ replicate (unat ?n - length (watchers s)) None"
  obtain os' where s': "s' = s\<lparr>os := os', watchers := W\<rparr>"
    using assms(2) False by (auto simp: maybe_resize_def Let_def sysl_def W_def split: prod.splits if_splits)
  have old: "W ! fd = watchers s ! fd" if "fd < length (watchers s)" for fd using that by (simp add: W_def nth_append)
  have new: "W ! fd = None" if "fd \<ge> length (watchers s)" "fd < length W" for fd
    using that unfolding W_def by (simp add: nth_append)
  have len: "length W = unat ?n" using lt by (simp add: W_def)
  have r: "registered s' = registered s"
    unfolding s' registered_def using old new len lt by auto (metis not_le option.distinct(1))+
  have i: "io_watchers s' = io_watchers s" "watcher_queue s' = watcher_queue s" "nfds s' = nfds s"
    and w': "watchers s' = W" by (simp_all add: s')
  have "iofd (io_watchers s w) = int fd \<and> pevents (io_watchers s w) \<noteq> 0"
    if "fd < length W" "W ! fd = Some w" for fd w
  proof (cases "fd < length (watchers s)")
    case True
    then show ?thesis using io_invD(3) [OF assms(1) True] that old by simp
  qed (use new [of fd] that in simp)
  moreover have "\<exists>fd<length W. iofd (io_watchers s w) = int fd \<and> W ! fd = Some w"
    if "w \<in> set (watcher_queue s) \<or> ioevents (io_watchers s w) \<noteq> 0" for w
    using io_invD(5) [OF assms(1) that] old len lt by (metis less_trans)
  ultimately have "io_inv s'"
    using io_invD(2,4) [OF assms(1)] n32 len unfolding io_inv_def r w' i by simp
  then show ?thesis using r i w' old new len lt n m(2) by auto
qed


lemma io_inv_free:
  assumes "io_inv s" and "iofd (io_watchers s w) = int fd" and "fd < length (watchers s)" and "watchers s ! fd \<noteq> Some w"
  shows "w \<notin> set (watcher_queue s)" "ioevents (io_watchers s w) = 0"
  using io_invD(5) [OF assms(1), of w] assms(2-4) by auto

lemma events_or_nonzero: "events \<noteq> 0 \<Longrightarrow> (p :: u32) OR events \<noteq> 0"
  by (simp add: or_eq_0_iff)

text \<open>
  Registering a watcher: when it holds a small enough descriptor that no other watcher is registered
  for, \<open>uv__io_start\<close> stops in no assertion, unless the memory runs out the watcher ends up in the
  table for its descriptor, watching the new events too, and the invariant holds.
\<close>

lemma uv__io_start_inv:
  assumes i: "io_inv s" and fd: "0 \<le> iofd (io_watchers s w)" "iofd (io_watchers s w) < 2 ^ 31 - 3"
    and free: "nat (iofd (io_watchers s w)) < length (watchers s) \<Longrightarrow>
      watchers s ! nat (iofd (io_watchers s w)) \<in> {None, Some w}"
    and st: "uv__io_start K w events s = Some s'"
  shows "io_inv s' \<and> pevents (io_watchers s' w) = pevents (io_watchers s w) OR events \<and>
    nat (iofd (io_watchers s w)) < length (watchers s') \<and> fd_watcher s' (iofd (io_watchers s w)) = Some w \<and>
    (\<forall>v. v \<noteq> w \<longrightarrow> io_watchers s' v = io_watchers s v)"
proof -
  let ?fd = "nat (iofd (io_watchers s w))"
  let ?s1 = "upd_io w (\<lambda>x. x\<lparr>pevents := pevents x OR events\<rparr>) s"
  have g: "\<not> events AND NOT IO_EVENTS \<noteq> 0" "\<not> events = 0" "\<not> \<not> iofd (io_watchers s w) \<ge> 0"
      "\<not> \<not> iofd (io_watchers s w) < INT_MAX"
    using st unfolding uv__io_start_def by (meson option.distinct(1))+
  then have ev: "events \<noteq> 0" by blast
  have len: "unat (word_of_int (iofd (io_watchers s w)) + 1 :: u32) = ?fd + 1"
  proof -
    have "word_of_int (iofd (io_watchers s w)) + 1 = (of_nat (?fd + 1) :: u32)" using fd(1) by simp
    moreover have "?fd + 1 < 2 ^ 32" using fd by simp
    ultimately show ?thesis by (simp only: unat_of_nat) simp
  qed
  have i1: "io_inv ?s1"
    using i events_or_nonzero [OF ev] unfolding io_inv_def by (auto split: if_splits)
  have st1: "do { s \<leftarrow> maybe_resize K (word_of_int (iofd (io_watchers s w)) + 1) ?s1;
        Some (if ioevents (io_watchers s w) = pevents (io_watchers s w) then s else io_enter w s) } = Some s'"
    using st [unfolded uv__io_start_def if_not_P [OF g(1)] if_not_P [OF g(2)] if_not_P [OF g(3)] if_not_P [OF g(4)]]
    by (simp add: Let_def)
  then obtain s2 where s2: "maybe_resize K (word_of_int (iofd (io_watchers s w)) + 1) ?s1 = Some s2"
    and e: "s' = (if ioevents (io_watchers s2 w) = pevents (io_watchers s2 w) then s2 else io_enter w s2)"
    by (auto simp: bind_Some_iff simp del: upd_io_simps)
  have "unat (word_of_int (iofd (io_watchers s w)) + 1 :: u32) + 2 \<le> 2 ^ 31" unfolding len using fd by simp
  from maybe_resize_ok [OF i1 s2 this]
  have r: "io_inv s2" "?fd < length (watchers s2)" "io_watchers s2 = io_watchers ?s1"
    "watcher_queue s2 = watcher_queue s" "nfds s2 = nfds s" "registered s2 = registered s"
    "\<forall>fd<length (watchers s). watchers s2 ! fd = watchers s ! fd"
    "\<forall>fd<length (watchers s2). fd \<ge> length (watchers s) \<longrightarrow> watchers s2 ! fd = None"
    unfolding len by simp_all
  have w2: "watchers s2 ! ?fd \<in> {None, Some w}" using r(2,7,8) free by (metis insertCI not_le)
  have fdw: "iofd (io_watchers s2 w) = int ?fd" using fd r(3) by simp
  have p: "pevents (io_watchers s2 w) \<noteq> 0" using r(3) events_or_nonzero [OF ev] by simp
  show ?thesis
  proof (cases "ioevents (io_watchers s2 w) = pevents (io_watchers s2 w)")
    case True
    then have "ioevents (io_watchers s2 w) \<noteq> 0" using p by simp
    then have "watchers s2 ! ?fd = Some w" using io_inv_free(2) [OF r(1) fdw r(2)] by blast
    then show ?thesis using e True r(1-3) by (simp add: fd_watcher_def)
  next
    case False
    let ?q = "if w \<notin> set (watcher_queue s2) then watcher_queue s2 @ [w] else watcher_queue s2"
    have q: "distinct ?q" "set ?q = insert w (set (watcher_queue s2))" using io_invD(4) [OF r(1)] by auto
    let ?t = "(watchers s2)[?fd := Some w]"
    have t: "s' = s2\<lparr>watcher_queue := ?q, watchers := ?t, nfds := nfds s2 + (if watchers s2 ! ?fd = None then 1 else 0)\<rparr>"
    proof (cases "watchers s2 ! ?fd")
      case None
      then show ?thesis using e False r(3) by (simp add: io_enter_def io_queue_watcher_def Let_def fd_watcher_def)
    next
      case (Some v)
      then have "?t = watchers s2" using w2 by (metis insertE list_update_id option.distinct(1) singletonD)
      then show ?thesis using e False r(3) Some by (auto simp: io_enter_def io_queue_watcher_def Let_def fd_watcher_def)
    qed
    have reg: "registered s' = insert ?fd (registered s2)"
      unfolding t registered_def using r(2) by (auto simp: nth_list_update split: if_splits)
    have n: "nfds s' = of_nat (card (registered s'))"
    proof (cases "watchers s2 ! ?fd = None")
      case True
      then have "?fd \<notin> registered s2" by (simp add: registered_def)
      then show ?thesis using io_invD(2) [OF r(1)] True unfolding reg by (simp add: t)
    next
      case False
      then have "?fd \<in> registered s2" using r(2) by (simp add: registered_def)
      then show ?thesis using io_invD(2) [OF r(1)] False unfolding reg by (simp add: t insert_absorb)
    qed
    have "io_inv s'"
      unfolding io_inv_def n [symmetric]
    proof (intro conjI allI impI)
      fix fd v assume a: "fd < length (watchers s')" "watchers s' ! fd = Some v"
      show "iofd (io_watchers s' v) = int fd" "pevents (io_watchers s' v) \<noteq> 0"
      proof -
        have c: "(fd = ?fd \<and> v = w) \<or> watchers s2 ! fd = Some v" "fd < length (watchers s2)"
          using a r(2) by (cases "fd = ?fd"; simp add: t)+
        show "iofd (io_watchers s' v) = int fd" "pevents (io_watchers s' v) \<noteq> 0"
          using io_invD(3) [OF r(1) c(2), of v] c(1) fdw p unfolding t by auto
      qed
    next
      fix v assume a: "v \<in> set (watcher_queue s') \<or> ioevents (io_watchers s' v) \<noteq> 0"
      show "\<exists>fd<length (watchers s'). iofd (io_watchers s' v) = int fd \<and> watchers s' ! fd = Some v"
      proof (cases "v = w")
        case True
        then show ?thesis using r(2) fdw by (auto simp: t)
      next
        case False
        then have "v \<in> set (watcher_queue s2) \<or> ioevents (io_watchers s2 v) \<noteq> 0" using a q(2) by (auto simp: t)
        then obtain fd where f: "fd < length (watchers s2)" "iofd (io_watchers s2 v) = int fd" "watchers s2 ! fd = Some v"
          using io_invD(5) [OF r(1)] by blast
        then have "fd \<noteq> ?fd" using w2 False by auto
        then show ?thesis using f by (auto simp: t)
      qed
    qed (use r io_invD(1) [OF r(1)] q n in \<open>simp_all add: t\<close>)
    then show ?thesis using r(2,3) by (auto simp: t fd_watcher_def)
  qed
qed


lemma io_queue_watcher_simps [simp]:
  "watchers (io_queue_watcher w s) = watchers s" "nfds (io_queue_watcher w s) = nfds s"
  "io_watchers (io_queue_watcher w s) = io_watchers s" "registered (io_queue_watcher w s) = registered s"
  "set (watcher_queue (io_queue_watcher w s)) = insert w (set (watcher_queue s))"
  "distinct (watcher_queue (io_queue_watcher w s)) = distinct (watcher_queue s)"
  by (auto simp: io_queue_watcher_def registered_def)

lemma io_inv_queue:
  assumes "io_inv s" and "fd < length (watchers s)" and "iofd (io_watchers s w) = int fd" and "watchers s ! fd = Some w"
  shows "io_inv (io_queue_watcher w s)"
  using assms unfolding io_inv_def by auto

lemma uv__io_stop_inv:
  assumes i: "io_inv s" and ev: "events AND NOT IO_EVENTS = 0" "events \<noteq> 0" and fd: "iofd (io_watchers s w) \<ge> - 1"
    and own: "0 \<le> iofd (io_watchers s w) \<Longrightarrow> nat (iofd (io_watchers s w)) < length (watchers s) \<Longrightarrow>
      watchers s ! nat (iofd (io_watchers s w)) \<in> {None, Some w}"
    and reg: "0 \<le> iofd (io_watchers s w) \<Longrightarrow> nat (iofd (io_watchers s w)) < length (watchers s) \<Longrightarrow>
      watchers s ! nat (iofd (io_watchers s w)) = None \<Longrightarrow> pevents (io_watchers s w) = 0"
  shows "\<exists>s'. uv__io_stop w events s = Some s' \<and> io_inv s' \<and>
    (\<forall>v. v \<noteq> w \<longrightarrow> io_watchers s' v = io_watchers s v) \<and> iofd (io_watchers s' w) = iofd (io_watchers s w)"
proof -
  let ?fd = "nat (iofd (io_watchers s w))"
  let ?p = "pevents (io_watchers s w) AND NOT events"
  show ?thesis
  proof (cases "iofd (io_watchers s w) = - 1 \<or> ?fd \<ge> length (watchers s)")
    case True
    then show ?thesis using i ev fd by (intro exI [of _ s]) (auto simp: uv__io_stop_def Let_def)
  next
    case False
    then have f: "0 \<le> iofd (io_watchers s w)" "?fd < length (watchers s)" "iofd (io_watchers s w) = int ?fd" using fd by auto
    define s1 where "s1 = upd_io w (\<lambda>x. x\<lparr>pevents := pevents x AND NOT events\<rparr>) s"
    have s1: "watchers s1 = watchers s" "registered s1 = registered s" "nfds s1 = nfds s" "watcher_queue s1 = watcher_queue s"
      "io_watchers s1 = (io_watchers s)(w := (io_watchers s w)\<lparr>pevents := ?p\<rparr>)"
      by (simp_all add: s1_def)
    have go: "uv__io_stop w events s =
        (if ?p = 0
         then (let s = s1\<lparr>watcher_queue := remove1 w (watcher_queue s1)\<rparr> in
           case fd_watcher s (iofd (io_watchers s1 w)) of
             None \<Rightarrow> Some s
           | Some w' \<Rightarrow> if w' \<noteq> w then None else if \<not> nfds s > 0 then None
               else Some (upd_io w (\<lambda>x. x\<lparr>ioevents := 0\<rparr>)
                      (s\<lparr>watchers := (watchers s)[?fd := None], nfds := nfds s - 1\<rparr>)))
         else Some (io_queue_watcher w s1))"
      using ev f(1,2) False by (simp add: uv__io_stop_def Let_def s1_def)
    show ?thesis
    proof (cases "?p = 0")
      case p0: True
      have q: "distinct (remove1 w (watcher_queue s))" "set (remove1 w (watcher_queue s)) = set (watcher_queue s) - {w}"
        using io_invD(4) [OF i] by simp_all
      show ?thesis
      proof (cases "watchers s ! ?fd")
        case None
        have nw: "w \<notin> set (watcher_queue s)" "ioevents (io_watchers s w) = 0"
          using io_inv_free [OF i f(3,2)] None by auto
        let ?s' = "s1\<lparr>watcher_queue := remove1 w (watcher_queue s1)\<rparr>"
        have "uv__io_stop w events s = Some ?s'" using go p0 None f by (simp add: Let_def fd_watcher_def s1)
        moreover have "registered ?s' = registered s" by (simp add: registered_def s1)
        moreover have nr: "watchers s ! fd \<noteq> Some w" if "fd < length (watchers s)" for fd
          using io_invD(3) [OF i that, of w] reg f None by auto
        ultimately show ?thesis
          using i q nw unfolding io_inv_def by (intro exI [of _ ?s']) (auto simp: s1)
      next
        case (Some v)
        then have v: "watchers s ! ?fd = Some w" using own f by auto
        then have r: "?fd \<in> registered s" using f(2) by (simp add: registered_def)
        have pos: "nfds s > 0"
        proof -
          have "0 < card (registered s)" using r by (auto simp: card_gt_0_iff)
          moreover have "card (registered s) < 2 ^ 32" using card_registered [of s] io_invD(1) [OF i] by linarith
          ultimately have "unat (nfds s) \<noteq> 0" unfolding io_invD(2) [OF i] unat_of_nat by (simp del: card_gt_0_iff card_0_eq)
          then show ?thesis by (metis unat_0 word_gt_0)
        qed
        let ?s' = "upd_io w (\<lambda>x. x\<lparr>ioevents := 0\<rparr>)
          (s1\<lparr>watcher_queue := remove1 w (watcher_queue s), watchers := (watchers s)[?fd := None], nfds := nfds s - 1\<rparr>)"
        have "uv__io_stop w events s = Some ?s'" using go p0 v f pos by (simp add: Let_def fd_watcher_def s1)
        moreover have "io_inv ?s'"
        proof -
          have rg: "registered ?s' = registered s - {?fd}"
            using f(2) by (auto simp: registered_def nth_list_update s1 split: if_splits)
          have "card (registered s) = Suc (card (registered s - {?fd}))" using r by (metis card_Suc_Diff1 finite_registered)
          then have n: "nfds ?s' = of_nat (card (registered ?s'))" using io_invD(2) [OF i] unfolding rg by simp
          have other: "v \<noteq> w \<and> watchers s ! fd = Some v" if "fd < length (watchers s)" "(watchers s)[?fd := None] ! fd = Some v" for fd v
          proof -
            have "fd \<noteq> ?fd" using that f(2) by auto
            then show ?thesis using that io_invD(3) [OF i that(1), of v] f(3) by auto
          qed
          show ?thesis
            unfolding io_inv_def n [symmetric]
          proof (intro conjI allI impI)
            fix fd v assume a: "fd < length (watchers ?s')" "watchers ?s' ! fd = Some v"
            then show "iofd (io_watchers ?s' v) = int fd" "pevents (io_watchers ?s' v) \<noteq> 0"
              using other [of fd v] io_invD(3) [OF i, of fd v] by (simp_all add: s1)
          next
            fix v assume a: "v \<in> set (watcher_queue ?s') \<or> ioevents (io_watchers ?s' v) \<noteq> 0"
            have vw: "v \<noteq> w" using a io_invD(4) [OF i] by (auto simp: s1)
            then have "v \<in> set (watcher_queue s) \<or> ioevents (io_watchers s v) \<noteq> 0" using a q by (auto simp: s1)
            then obtain fd where fd: "fd < length (watchers s)" "iofd (io_watchers s v) = int fd" "watchers s ! fd = Some v"
              using io_invD(5) [OF i] by blast
            then have "fd \<noteq> ?fd" using v vw by auto
            then show "\<exists>fd<length (watchers ?s'). iofd (io_watchers ?s' v) = int fd \<and> watchers ?s' ! fd = Some v"
              using fd vw by (intro exI [of _ fd]) (simp add: s1)
          qed (use io_invD(1) [OF i] q n in \<open>simp_all add: s1\<close>)
        qed
        ultimately show ?thesis by (intro exI [of _ ?s']) (simp add: s1)
      qed
    next
      case False
      have w: "watchers s ! ?fd = Some w" using own reg f False by auto
      have "io_inv s1" using i False unfolding io_inv_def by (auto simp: s1 split: if_splits)
      then have "io_inv (io_queue_watcher w s1)" by (rule io_inv_queue) (use f w in \<open>simp_all add: s1\<close>)
      then show ?thesis using go False by (intro exI [of _ "io_queue_watcher w s1"]) (simp add: s1)
    qed
  qed
qed


lemma sysl_simps [simp]:
  "watchers (snd (sysl K c s)) = watchers s" "watcher_queue (snd (sysl K c s)) = watcher_queue s"
  "nfds (snd (sysl K c s)) = nfds s" "io_watchers (snd (sysl K c s)) = io_watchers s"
  "registered (snd (sysl K c s)) = registered s" "backend_fd (snd (sysl K c s)) = backend_fd s"
  by (simp_all add: sysl_def registered_def split: prod.splits)

lemma sysl_split: "sysl K c s = (fst (sysl K c s), snd (sysl K c s))"
  by simp

text \<open>A kernel that accepts every change of the epoll set.\<close>

definition epoll_ok :: "kernel \<Rightarrow> bool" where
  "epoll_ok K \<longleftrightarrow> (\<forall>tr e op fd ev. ret (K tr (SysEpollCtl e op fd ev)) = 0)"

lemma epoll_ok_sysl: "epoll_ok K \<Longrightarrow> ret (fst (sysl K (SysEpollCtl e op fd ev) s)) = 0"
  by (simp add: epoll_ok_def sysl_def sys_def Let_def)

lemma io_register_all:
  assumes "epoll_ok K"
  shows "io_inv s \<Longrightarrow> \<exists>s'. io_register K s = Some s' \<and> io_inv s' \<and> watcher_queue s' = [] \<and>
    registered s' = registered s \<and> watchers s' = watchers s \<and>
    (\<forall>w. io_watchers s' w = (if w \<in> set (watcher_queue s)
       then (io_watchers s w)\<lparr>ioevents := pevents (io_watchers s w)\<rparr> else io_watchers s w))"
proof (induction "watcher_queue s" arbitrary: s)
  case Nil
  then show ?case by (intro exI [of _ s]) (subst io_register.simps; simp)
next
  case (Cons w q)
  note iq = io_invD [OF Cons.prems]
  obtain fd where fd: "fd < length (watchers s)" "iofd (io_watchers s w) = int fd" "watchers s ! fd = Some w"
    using iq(5) [of w] Cons.hyps(2) by (metis list.set_intros(1))
  then have p: "pevents (io_watchers s w) \<noteq> 0" using iq(3) by blast
  have d: "w \<notin> set q" "distinct q" using iq(4) Cons.hyps(2) [symmetric] by auto
  let ?s1 = "s\<lparr>watcher_queue := q\<rparr>" and ?op = "if ioevents (io_watchers s w) = 0 then ''ADD'' else ''MOD''"
  define s2 where "s2 = snd (sysl K (SysEpollCtl (backend_fd s) ?op (int fd) (pevents (io_watchers s w))) ?s1)"
  define s3 where "s3 = upd_io w (\<lambda>x. x\<lparr>ioevents := pevents x\<rparr>) s2"
  have s2: "watchers s2 = watchers s" "watcher_queue s2 = q" "nfds s2 = nfds s" "io_watchers s2 = io_watchers s"
    "registered s2 = registered s" by (simp_all add: s2_def) (simp add: registered_def)
  obtain r where r: "sysl K (SysEpollCtl (backend_fd s) ?op (int fd) (pevents (io_watchers s w))) ?s1 = (r, s2)" "ret r = 0"
    using epoll_ok_sysl [OF assms, of "backend_fd s" ?op "int fd" "pevents (io_watchers s w)" ?s1]
      surjective_pairing [of "sysl K (SysEpollCtl (backend_fd s) ?op (int fd) (pevents (io_watchers s w))) ?s1"]
    unfolding s2_def [symmetric] by blast
  have e: "io_register K s = io_register K s3"
    using p fd r
    by (subst io_register.simps; cases "ioevents (io_watchers s w) = 0")
      (simp_all add: Cons.hyps(2) [symmetric] Let_def s3_def)
  have s3: "watchers s3 = watchers s" "watcher_queue s3 = q" "nfds s3 = nfds s" "registered s3 = registered s"
    "io_watchers s3 = (io_watchers s)(w := (io_watchers s w)\<lparr>ioevents := pevents (io_watchers s w)\<rparr>)"
    by (simp_all add: s3_def s2)
  have "io_inv s3"
    unfolding io_inv_def s3
  proof (intro conjI allI impI)
    fix v assume a: "v \<in> set q \<or> ioevents (((io_watchers s)(w := (io_watchers s w)\<lparr>ioevents := pevents (io_watchers s w)\<rparr>)) v) \<noteq> 0"
    show "\<exists>fd<length (watchers s). iofd (((io_watchers s)(w := (io_watchers s w)\<lparr>ioevents := pevents (io_watchers s w)\<rparr>)) v) = int fd \<and>
        watchers s ! fd = Some v"
    proof (cases "v = w")
      case True
      then show ?thesis using fd by auto
    next
      case False
      then show ?thesis using a iq(5) [of v] Cons.hyps(2) by (metis fun_upd_other list.set_intros(2))
    qed
  next
    fix fd' v assume "fd' < length (watchers s)" "watchers s ! fd' = Some v"
    then show "iofd (((io_watchers s)(w := (io_watchers s w)\<lparr>ioevents := pevents (io_watchers s w)\<rparr>)) v) = int fd'"
      "pevents (((io_watchers s)(w := (io_watchers s w)\<lparr>ioevents := pevents (io_watchers s w)\<rparr>)) v) \<noteq> 0"
      using iq(3) by auto
  qed (use iq d in auto)
  then obtain s' where s': "io_register K s3 = Some s'" "io_inv s'" "watcher_queue s' = []" "registered s' = registered s3"
    "watchers s' = watchers s3"
    "\<forall>v. io_watchers s' v = (if v \<in> set (watcher_queue s3)
       then (io_watchers s3 v)\<lparr>ioevents := pevents (io_watchers s3 v)\<rparr> else io_watchers s3 v)"
    using Cons.hyps(1) [of s3] s3(2) by blast
  show ?case
    using s' e s3 d Cons.hyps(2) [symmetric] by (intro exI [of _ s']) auto
qed

subsection \<open>The properties of the watchers\<close>

definition fresh_io_loop :: "u64 \<Rightarrow> io_loop" where
  "fresh_io_loop now = watcher_loop.extend (fresh_watcher_loop now)
     \<lparr>os = fresh_osw, loop_flags = 0, backend_fd = 3, pending_queue = [], pending_local = [], watcher_queue = [],
      watchers = [], nfds = 0, poll_events = None,
      io_watchers = (\<lambda>_. \<lparr>io_cb = UV__POLL_IO, iofd = - 1, ioevents = 0, pevents = 0\<rparr>), io_trace = []\<rparr>"

lemma fresh_io_loop_eqs [simp]:
  "watchers (fresh_io_loop now) = []" "watcher_queue (fresh_io_loop now) = []" "nfds (fresh_io_loop now) = 0"
  "io_watchers (fresh_io_loop now) = (\<lambda>_. \<lparr>io_cb = UV__POLL_IO, iofd = - 1, ioevents = 0, pevents = 0\<rparr>)"
  "registered (fresh_io_loop now) = {}" "backend_fd (fresh_io_loop now) = 3" "os (fresh_io_loop now) = fresh_osw"
  by (simp_all add: fresh_io_loop_def watcher_loop.extend_def registered_def)

lemma fresh_io_loop_inv: "io_inv (fresh_io_loop now)"
  by (simp add: io_inv_def)


lemma demo_io_start:
  "\<exists>s s'. uv__io_init WAsync UV__ASYNC_IO 5 (fresh_io_loop 0) = Some s \<and> io_inv s \<and> iofd (io_watchers s WAsync) = 5 \<and>
     watchers s = [] \<and> uv__io_start (\<lambda>tr c. (demo_kernel tr c)\<lparr>ret := 1\<rparr>) WAsync POLLIN s = Some s'"
proof -
  let ?s = "upd_io WAsync (\<lambda>_. \<lparr>io_cb = UV__ASYNC_IO, iofd = 5, ioevents = 0, pevents = 0\<rparr>) (fresh_io_loop 0)"
  have "io_inv ?s" by (simp add: io_inv_def)
  moreover have "POLLIN AND NOT IO_EVENTS = 0" "POLLIN \<noteq> 0" by (simp_all add: POLLIN_def IO_EVENTS_def POLLOUT_def POLLRDHUP_def POLLPRI_def)
  then have "\<exists>s'. uv__io_start (\<lambda>tr c. (demo_kernel tr c)\<lparr>ret := 1\<rparr>) WAsync POLLIN ?s = Some s'"
    by (simp add: uv__io_start_def INT_MAX_def maybe_resize_def sysl_def sys_def Let_def)
  ultimately show ?thesis by (simp add: uv__io_init_def)
qed






end
