(* ===== verification/UvAsync.thy ===== *)
theory UvAsync
  imports UvIo
begin

text \<open>
  Async handles, \<^verbatim>\<open>3rd/libuv/src/unix/async.c\<close>, and poll handles, \<^verbatim>\<open>3rd/libuv/src/unix/poll.c\<close>.

  An async handle wakes the loop from any thread: \<open>uv_async_send\<close> marks it and writes to a
  descriptor the loop watches. The functions here are the steps of one thread each, taken as a whole;
  AsyncRace.thy interleaves the accesses of senders and loop.
\<close>

subsection \<open>Async handles\<close>

record uv_async =
  async_cb :: "cb option"
  async_pending :: bool

record async_loop = io_loop +
  async_handles :: "hid list"
  async_local :: "hid list"
  async_wfd :: int
  asyncs :: "hid \<Rightarrow> uv_async"

definition upd_async :: "hid \<Rightarrow> (uv_async \<Rightarrow> uv_async) \<Rightarrow> 'a async_loop_scheme \<Rightarrow> 'a async_loop_scheme" where
  "upd_async h f s = s\<lparr>asyncs := (asyncs s)(h := f (asyncs s h))\<rparr>"

text \<open>\<^verbatim>\<open>uv__async_eventfd\<close>: the newer call first, then the older one, each at most until it is missing.\<close>

definition eventfd_old :: "kernel \<Rightarrow> osw \<Rightarrow> (int \<times> osw) option" where
  "eventfd_old K w =
     (if no_eventfd w then Some (- ENOSYS, w)
      else (let (r, w) = sys K SysEventfd w in
        if ret r \<noteq> - 1 then do {
          (_, w) \<leftarrow> uv__cloexec K (ret r) True w;
          (_, w) \<leftarrow> uv__nonblock K (ret r) True w;
          Some (ret r, w) }
        else if errno r \<noteq> ENOSYS then Some (- errno r, w)
        else Some (- ENOSYS, w\<lparr>no_eventfd := True\<rparr>)))"

definition uv__async_eventfd :: "kernel \<Rightarrow> osw \<Rightarrow> (int \<times> osw) option" where
  "uv__async_eventfd K w =
     (if no_eventfd2 w then eventfd_old K w
      else (let (r, w) = sys K SysEventfd2 w in
        if ret r \<noteq> - 1 then Some (ret r, w)
        else if errno r \<noteq> ENOSYS then Some (- errno r, w)
        else eventfd_old K (w\<lparr>no_eventfd2 := True\<rparr>)))"

text \<open>The name \<^verbatim>\<open>/proc/self/fd/%d\<close> of a descriptor is a parameter: the C library prints it.\<close>

definition async_pipe :: "kernel \<Rightarrow> (int \<Rightarrow> string) \<Rightarrow> osw \<Rightarrow> ((int \<times> int \<times> int) \<times> osw) option" where
  "async_pipe K proc_name w = do {
     ((err, fds), w) \<leftarrow> uv__make_pipe K True w;
     if err \<noteq> 0 then Some ((err, - 1, - 1), w)
     else do {
       (fd, w) \<leftarrow> uv__open_cloexec K (proc_name (fds ! 0)) 2 w;
       if fd \<ge> 0 then do {
         (_, w) \<leftarrow> uv__close K (fds ! 0) w;
         (_, w) \<leftarrow> uv__close K (fds ! 1) w;
         Some ((err, fd, fd), w)
       } else Some ((err, fds ! 0, fds ! 1), w)
     }
   }"

definition uv__async_start :: "kernel \<Rightarrow> (int \<Rightarrow> string) \<Rightarrow> 'a async_loop_scheme \<Rightarrow> (int \<times> 'a async_loop_scheme) option" where
  "uv__async_start K proc_name s =
     (if iofd (io_watchers s WAsync) \<noteq> - 1 then Some (0, s)
      else do {
        (err, s) \<leftarrow> lift_os (uv__async_eventfd K) s;
        ((err, rfd, wfd), s) \<leftarrow>
          (if err \<ge> 0 then Some ((err, err, - 1), s)
           else if err = - ENOSYS then lift_os (async_pipe K proc_name) s
           else Some ((err, - 1, - 1), s));
        if err < 0 then Some (err, s)
        else do {
          s \<leftarrow> uv__io_init WAsync UV__ASYNC_IO rfd s;
          s \<leftarrow> uv__io_start K WAsync POLLIN s;
          Some (0, s\<lparr>async_wfd := wfd\<rparr>)
        }
      })"

definition uv_async_init ::
  "kernel \<Rightarrow> (int \<Rightarrow> string) \<Rightarrow> hid \<Rightarrow> cb option \<Rightarrow> 'a async_loop_scheme \<Rightarrow> (int \<times> 'a async_loop_scheme) option" where
  "uv_async_init K proc_name h c s = do {
     (err, s) \<leftarrow> uv__async_start K proc_name s;
     if err \<noteq> 0 then Some (err, s)
     else (let s = uv__handle_init h UV_ASYNC s;
               s = upd_async h (\<lambda>_. \<lparr>async_cb = c, async_pending = False\<rparr>) s;
               s = s\<lparr>async_handles := async_handles s @ [h]\<rparr>
           in Some (0, uv__handle_start h s))
   }"

text \<open>The write of \<^verbatim>\<open>uv__async_send\<close>: eight bytes into an event descriptor, one into a pipe.\<close>

definition async_wakeup :: "kernel \<Rightarrow> 'a async_loop_scheme \<Rightarrow> 'a async_loop_scheme option" where
  "async_wakeup K s =
     (let (fd, buf) = (if async_wfd s = - 1 then (iofd (io_watchers s WAsync), [1, 0, 0, 0, 0, 0, 0, 0])
                       else (async_wfd s, [0 :: u8]))
      in do {
        (r, s) \<leftarrow> lift_os (retry K (SysWrite fd buf)) s;
        if ret r = int (length buf) then Some s
        else if ret r = - 1 \<and> errno r = EAGAIN then Some s
        else None
      })"

definition uv_async_send :: "kernel \<Rightarrow> hid \<Rightarrow> 'a async_loop_scheme \<Rightarrow> (int \<times> 'a async_loop_scheme) option" where
  "uv_async_send K h s =
     (if async_pending (asyncs s h) then Some (0, s)
      else do {
        s \<leftarrow> async_wakeup K (upd_async h (\<lambda>a. a\<lparr>async_pending := True\<rparr>) s);
        Some (0, s)
      })"

definition uv__async_close :: "hid \<Rightarrow> 'a async_loop_scheme \<Rightarrow> 'a async_loop_scheme" where
  "uv__async_close h s =
     (let s = s\<lparr>async_handles := remove1 h (async_handles s), async_local := remove1 h (async_local s)\<rparr>
      in uv__handle_stop h s)"

text \<open>The reading loop of \<^verbatim>\<open>uv__async_io\<close>.\<close>

partial_function (option) async_drain :: "kernel \<Rightarrow> int \<Rightarrow> osw \<Rightarrow> osw option" where
  "async_drain K fd w =
     (let (r, w) = sys K (SysRead fd 1024) w in
      if ret r = 1024 then async_drain K fd w
      else if ret r \<noteq> - 1 then Some w
      else if errno r = EAGAIN then Some w
      else if errno r = EINTR then async_drain K fd w
      else None)"

partial_function (option) async_sweep ::
  "'a async_loop_scheme client \<Rightarrow> 'a async_loop_scheme \<Rightarrow> 'a async_loop_scheme option" where
  "async_sweep call s =
     (case async_local s of
        [] \<Rightarrow> Some s
      | h # q \<Rightarrow>
          let s = s\<lparr>async_local := q, async_handles := async_handles s @ [h]\<rparr> in
          if \<not> async_pending (asyncs s h) then async_sweep call s
          else (let s = upd_async h (\<lambda>a. a\<lparr>async_pending := False\<rparr>) s in
            case async_cb (asyncs s h) of
              None \<Rightarrow> async_sweep call s
            | Some c \<Rightarrow> do { s \<leftarrow> invoke call c h s; async_sweep call s }))"

definition uv__async_io ::
  "kernel \<Rightarrow> 'a async_loop_scheme client \<Rightarrow> wid \<Rightarrow> u32 \<Rightarrow> 'a async_loop_scheme \<Rightarrow> 'a async_loop_scheme option" where
  "uv__async_io K call w events s =
     (if w \<noteq> WAsync then None
      else do {
        w' \<leftarrow> async_drain K (iofd (io_watchers s w)) (os s);
        let s = s\<lparr>os := w'\<rparr>;
        async_sweep call (s\<lparr>async_local := async_handles s, async_handles := []\<rparr>)
      })"

definition uv__async_stop :: "kernel \<Rightarrow> 'a async_loop_scheme \<Rightarrow> 'a async_loop_scheme option" where
  "uv__async_stop K s =
     (let fd = iofd (io_watchers s WAsync) in
      if fd = - 1 then Some s
      else do {
        s \<leftarrow> (if async_wfd s \<noteq> - 1
              then do {
                s \<leftarrow> (if async_wfd s \<noteq> fd then map_option snd (lift_os (uv__close K (async_wfd s)) s) else Some s);
                Some (s\<lparr>async_wfd := - 1\<rparr>)
              } else Some s);
        s \<leftarrow> uv__io_stop WAsync POLLIN s;
        (_, s) \<leftarrow> lift_os (uv__close K fd) s;
        Some (upd_io WAsync (\<lambda>x. x\<lparr>iofd := - 1\<rparr>) s)
      })"

definition uv__async_fork :: "kernel \<Rightarrow> (int \<Rightarrow> string) \<Rightarrow> 'a async_loop_scheme \<Rightarrow> (int \<times> 'a async_loop_scheme) option" where
  "uv__async_fork K proc_name s =
     (if iofd (io_watchers s WAsync) = - 1 then Some (0, s)
      else do { s \<leftarrow> uv__async_stop K s; uv__async_start K proc_name s })"

declare async_drain.simps [code] async_sweep.simps [code]

subsection \<open>Poll handles\<close>

record poll_loop = async_loop +
  poll_cb :: "hid \<Rightarrow> cb option"

definition UV_READABLE :: u32 where "UV_READABLE = 1"
definition UV_WRITABLE :: u32 where "UV_WRITABLE = 2"
definition UV_DISCONNECT :: u32 where "UV_DISCONNECT = 4"
definition UV_PRIORITIZED :: u32 where "UV_PRIORITIZED = 8"
definition UV_EBADF :: int where "UV_EBADF = - 9"
definition UV_EEXIST :: int where "UV_EEXIST = - 17"
definition UV_ENOTTY :: int where "UV_ENOTTY = - 25"

definition poll_events_out :: "u32 \<Rightarrow> u32" where
  "poll_events_out events =
     (let p = 0 :: u32;
          p = (if events AND POLLIN \<noteq> 0 then p OR UV_READABLE else p);
          p = (if events AND POLLPRI \<noteq> 0 then p OR UV_PRIORITIZED else p);
          p = (if events AND POLLOUT \<noteq> 0 then p OR UV_WRITABLE else p)
      in if events AND POLLRDHUP \<noteq> 0 then p OR UV_DISCONNECT else p)"

definition poll_events_in :: "u32 \<Rightarrow> u32" where
  "poll_events_in p =
     (let events = 0 :: u32;
          events = (if p AND UV_READABLE \<noteq> 0 then events OR POLLIN else events);
          events = (if p AND UV_PRIORITIZED \<noteq> 0 then events OR POLLPRI else events);
          events = (if p AND UV_WRITABLE \<noteq> 0 then events OR POLLOUT else events)
      in if p AND UV_DISCONNECT \<noteq> 0 then events OR POLLRDHUP else events)"

definition uv__poll_io ::
  "'a poll_loop_scheme arg_client \<Rightarrow> hid \<Rightarrow> u32 \<Rightarrow> 'a poll_loop_scheme \<Rightarrow> 'a poll_loop_scheme option" where
  "uv__poll_io acb h events s =
     (if events AND POLLERR \<noteq> 0 \<and> \<not> events AND POLLPRI \<noteq> 0
      then do {
        s \<leftarrow> uv__io_stop (WHandle h) IO_EVENTS s;
        let s = uv__handle_stop h s;
        c \<leftarrow> poll_cb s h;
        invoke_args acb c h [UV_EBADF, 0] [] s
      }
      else do {
        c \<leftarrow> poll_cb s h;
        invoke_args acb c h [0, uint (poll_events_out events)] [] s
      })"

definition uv__io_check_fd :: "kernel \<Rightarrow> int \<Rightarrow> 'a io_loop_scheme \<Rightarrow> (int \<times> 'a io_loop_scheme) option" where
  "uv__io_check_fd K fd s =
     (let (r, s) = sysl K (SysEpollCtl (backend_fd s) ''ADD'' fd POLLIN) s;
          rc = (if ret r \<noteq> 0 then (if errno r \<noteq> EEXIST then - errno r else 0) else 0)
      in if rc = 0
         then (let (r, s) = sysl K (SysEpollCtl (backend_fd s) ''DEL'' fd POLLIN) s
               in if ret r \<noteq> 0 then None else Some (rc, s))
         else Some (rc, s))"

definition uv_poll_init :: "kernel \<Rightarrow> hid \<Rightarrow> int \<Rightarrow> 'a poll_loop_scheme \<Rightarrow> (int \<times> 'a poll_loop_scheme) option" where
  "uv_poll_init K h fd s =
     (if uv__fd_exists fd s then Some (UV_EEXIST, s)
      else do {
        (err, s) \<leftarrow> uv__io_check_fd K fd s;
        if err \<noteq> 0 then Some (err, s)
        else do {
          (err, s) \<leftarrow> lift_os (uv__nonblock K fd True) s;
          (err, s) \<leftarrow> (if err = UV_ENOTTY then lift_os (uv__nonblock_fcntl K fd True) s else Some (err, s));
          if err \<noteq> 0 then Some (err, s)
          else do {
            let s = uv__handle_init h UV_POLL s;
            s \<leftarrow> uv__io_init (WHandle h) UV__POLL_IO fd s;
            Some (0, s\<lparr>poll_cb := (poll_cb s)(h := None)\<rparr>)
          }
        }
      })"

definition uv_poll_init_socket :: "kernel \<Rightarrow> hid \<Rightarrow> int \<Rightarrow> 'a poll_loop_scheme \<Rightarrow> (int \<times> 'a poll_loop_scheme) option" where
  "uv_poll_init_socket K h socket s = uv_poll_init K h socket s"

definition uv__poll_stop :: "kernel \<Rightarrow> hid \<Rightarrow> 'a poll_loop_scheme \<Rightarrow> 'a poll_loop_scheme option" where
  "uv__poll_stop K h s = do {
     s \<leftarrow> uv__io_stop (WHandle h) IO_EVENTS s;
     let s = uv__handle_stop h s;
     uv__platform_invalidate_fd K (iofd (io_watchers s (WHandle h))) s
   }"

definition uv_poll_stop :: "kernel \<Rightarrow> hid \<Rightarrow> 'a poll_loop_scheme \<Rightarrow> (int \<times> 'a poll_loop_scheme) option" where
  "uv_poll_stop K h s =
     (if uv__is_closing h s then None else do { s \<leftarrow> uv__poll_stop K h s; Some (0, s) })"

definition uv_poll_start ::
  "kernel \<Rightarrow> hid \<Rightarrow> u32 \<Rightarrow> cb option \<Rightarrow> 'a poll_loop_scheme \<Rightarrow> (int \<times> 'a poll_loop_scheme) option" where
  "uv_poll_start K h p c s =
     (if p AND NOT (UV_READABLE OR UV_WRITABLE OR UV_DISCONNECT OR UV_PRIORITIZED) \<noteq> 0 then None
      else if uv__is_closing h s then None
      else do {
        s \<leftarrow> uv__poll_stop K h s;
        if p = 0 then Some (0, s)
        else do {
          s \<leftarrow> uv__io_start K (WHandle h) (poll_events_in p) s;
          let s = uv__handle_start h s;
          Some (0, s\<lparr>poll_cb := (poll_cb s)(h := c)\<rparr>)
        }
      })"

definition uv__poll_close :: "kernel \<Rightarrow> hid \<Rightarrow> 'a poll_loop_scheme \<Rightarrow> 'a poll_loop_scheme option" where
  "uv__poll_close K h s = uv__poll_stop K h s"

lemma low_mask_cases:
  assumes "p AND NOT (UV_READABLE OR UV_WRITABLE OR UV_DISCONNECT OR UV_PRIORITIZED) = 0"
  shows "p \<in> {0, 1, 2, 3, 4, 5, 6, 7, 8, 9, 10, 11, 12, 13, 14, 15}"
proof -
  have "NOT 15 AND p = 0"
    using assms by (simp add: UV_READABLE_def UV_WRITABLE_def UV_DISCONNECT_def UV_PRIORITIZED_def ac_simps)
  then have "p AND (15 OR NOT 15) = p AND 15"
    by (simp only: bit.conj_disj_distrib) (simp add: ac_simps)
  then have "p = p AND mask 4" by (simp add: mask_eq_exp_minus_1)
  then have "p = take_bit 4 p" by (simp add: take_bit_eq_mask)
  then have "unat p = unat (take_bit 4 p)" by (rule arg_cong)
  also have "\<dots> = unat p mod 16"
    by (simp add: unsigned_take_bit_eq [where 'a = nat] take_bit_eq_mod [where 'a = nat])
  finally have "unat p < 16" by simp
  then have "word_of_nat (unat p) \<in> (word_of_nat ` set [0..<16] :: u32 set)" by (intro imageI) simp
  also have "[0..<16] = [0, 1, 2, 3, 4, 5, 6, 7, 8, 9, 10, 11, 12, 13, 14, 15]" by (simp add: upt_rec)
  finally show ?thesis by simp
qed

text \<open>
  C31. The masks of a poll handle and of the kernel correspond bit by bit: what the loop reports for the
  events a client asked for is what the client asked for, and the client never asks for error or hang-up.
\<close>

theorem poll_mask_roundtrip:
  assumes "p AND NOT (UV_READABLE OR UV_WRITABLE OR UV_DISCONNECT OR UV_PRIORITIZED) = 0"
  shows "poll_events_out (poll_events_in p) = p \<and> poll_events_in p AND NOT IO_EVENTS = 0"
  using low_mask_cases [OF assms]
  by (auto simp: poll_events_in_def poll_events_out_def UV_READABLE_def UV_WRITABLE_def UV_DISCONNECT_def
      UV_PRIORITIZED_def POLLIN_def POLLPRI_def POLLOUT_def POLLRDHUP_def IO_EVENTS_def)

theorem poll_mask_roundtrip_witness:
  "poll_events_out (poll_events_in 13) = 13 \<and> poll_events_in 13 AND NOT IO_EVENTS = 0"
  by (rule poll_mask_roundtrip)
    (simp add: UV_READABLE_def UV_WRITABLE_def UV_DISCONNECT_def UV_PRIORITIZED_def)

end
