(* ===== verification/Steps.thy ===== *)
theory Steps
  imports Prelude
begin

text \<open>
  Step relations of concurrent threads: what the theories on the interleaving of threads share. A
  system has an invariant that every step keeps, and a measure that every step of the threads already
  running decreases; the steps that bring new work in are not among those.
\<close>

locale stepping =
  fixes step :: "'s \<Rightarrow> 's \<Rightarrow> bool"
    and inv :: "'s \<Rightarrow> bool"
  assumes step_inv: "step s s' \<Longrightarrow> inv s \<Longrightarrow> inv s'"
begin

lemma steps_inv: "step\<^sup>*\<^sup>* s s' \<Longrightarrow> inv s \<Longrightarrow> inv s'"
  by (induction rule: rtranclp_induct) (auto intro: step_inv)

end

locale settling = stepping step inv
  for step :: "'s \<Rightarrow> 's \<Rightarrow> bool" and inv :: "'s \<Rightarrow> bool" +
  fixes work :: "'s \<Rightarrow> 's \<Rightarrow> bool"
    and energy :: "'s \<Rightarrow> nat"
  assumes work_step: "work s s' \<Longrightarrow> step s s'"
    and work_energy: "work s s' \<Longrightarrow> inv s \<Longrightarrow> energy s' < energy s"
begin

lemma work_steps: "work\<^sup>*\<^sup>* s s' \<Longrightarrow> step\<^sup>*\<^sup>* s s'"
  by (rule rtranclp_mono [THEN predicate2D]) (auto intro: work_step)

lemma work_bounded: "(work ^^ n) s s' \<Longrightarrow> inv s \<Longrightarrow> n + energy s' \<le> energy s"
proof (induction n arbitrary: s')
  case (Suc n)
  then obtain r where r: "(work ^^ n) s r" "work r s'" by auto
  moreover have "inv r" using steps_inv work_steps r(1) Suc.prems(2) by (metis relpowp_imp_rtranclp)
  ultimately show ?case using Suc.IH [of r] Suc.prems(2) work_energy [of r s'] by simp
qed simp

lemma settles: "inv s \<Longrightarrow> \<exists>s'. work\<^sup>*\<^sup>* s s' \<and> inv s' \<and> (\<forall>s''. \<not> work s' s'')"
proof (induction "energy s" arbitrary: s rule: less_induct)
  case less
  show ?case
  proof (cases "\<exists>r. work s r")
    case True
    then obtain r where r: "work s r" by blast
    then have "energy r < energy s" "inv r" using work_energy less.prems step_inv work_step by blast+
    then obtain s' where "work\<^sup>*\<^sup>* r s'" "inv s'" "\<forall>s''. \<not> work s' s''" using less.hyps by blast
    then show ?thesis using r converse_rtranclp_into_rtranclp [of work s r s'] by blast
  qed (use less.prems in blast)
qed

end

end
