(* ===== verification/AsyncRace.thy ===== *)
theory AsyncRace
  imports UvAsync Steps
begin

text \<open>
  Async handles under concurrency: \<^verbatim>\<open>uv_async_send\<close>, which any thread may call, against
  \<^verbatim>\<open>uv__async_io\<close> on the thread of the loop (\<^verbatim>\<open>3rd/libuv/src/unix/async.c\<close>, \<^verbatim>\<open>atomic-ops.h\<close>). A step is
  one access to shared memory or one system call: the flag \<open>pending\<close> of a handle is read or
  compared and exchanged, the descriptor is written or read. Memory is sequentially consistent, which the
  locked instruction of \<open>cmpxchgi\<close> gives for the flag.

  The descriptor is a number of tokens: an event descriptor is read at once, a pipe in chunks of 1024 bytes; a
  write that finds it full changes nothing (\<^verbatim>\<open>EAGAIN\<close>). The set of handles is fixed while the threads
  run, and callbacks that send are further senders.
\<close>

subsection \<open>The steps\<close>

text \<open>\<^verbatim>\<open>cmpxchgi\<close>: the value found, and the value left behind.\<close>

definition cmpxchgi :: "int \<Rightarrow> int \<Rightarrow> int \<Rightarrow> int \<times> int" where
  "cmpxchgi found oldval newval = (found, if found = oldval then newval else found)"

datatype sender = SIdle | SRead hid | SCas hid | SWrite hid
datatype looper = LWait | LRead | LSweep "hid list" | LCall hid "hid list"
datatype wakefd = EventFd | Pipe

record race =
  pending :: "hid \<Rightarrow> int"
  tokens :: nat
  senders :: "sender list"
  looper :: looper
  owed :: "hid \<Rightarrow> bool"
  calls :: "hid list"

text \<open>
  \<open>owed h\<close> and \<open>calls\<close> are ghost state: a send of \<open>h\<close> that has taken effect and no callback of \<open>h\<close> since, and
  the callbacks so far.
\<close>

definition write_tokens :: "nat \<Rightarrow> nat \<Rightarrow> nat" where
  "write_tokens cap n = (if n < cap then n + 1 else n)"

definition read_tokens :: "wakefd \<Rightarrow> nat \<Rightarrow> nat \<times> bool" where
  "read_tokens fd n =
     (case fd of EventFd \<Rightarrow> (0, False)
      | Pipe \<Rightarrow> if n \<ge> 1024 then (n - 1024, True) else (0, False))"

text \<open>The steps of the thread that is number \<open>i\<close> inside \<^verbatim>\<open>uv_async_send\<close>.\<close>

inductive send_step :: "nat \<Rightarrow> nat \<Rightarrow> race \<Rightarrow> race \<Rightarrow> bool" for cap i where
  send_pending: "i < length (senders s) \<Longrightarrow> senders s ! i = SRead h \<Longrightarrow> pending s h \<noteq> 0 \<Longrightarrow>
    send_step cap i s (s\<lparr>senders := (senders s)[i := SIdle], owed := (owed s)(h := True)\<rparr>)"
| send_clear: "i < length (senders s) \<Longrightarrow> senders s ! i = SRead h \<Longrightarrow> pending s h = 0 \<Longrightarrow>
    send_step cap i s (s\<lparr>senders := (senders s)[i := SCas h]\<rparr>)"
| send_cas: "i < length (senders s) \<Longrightarrow> senders s ! i = SCas h \<Longrightarrow> cmpxchgi (pending s h) 0 1 = (v, n) \<Longrightarrow>
    send_step cap i s (s\<lparr>pending := (pending s)(h := n), owed := (owed s)(h := True),
      senders := (senders s)[i := if v = 0 then SWrite h else SIdle]\<rparr>)"
| send_write: "i < length (senders s) \<Longrightarrow> senders s ! i = SWrite h \<Longrightarrow>
    send_step cap i s (s\<lparr>tokens := write_tokens cap (tokens s), senders := (senders s)[i := SIdle]\<rparr>)"

text \<open>The steps of the loop: the poll reports the descriptor, then \<^verbatim>\<open>uv__async_io\<close> runs.\<close>

inductive loop_step :: "wakefd \<Rightarrow> hid list \<Rightarrow> race \<Rightarrow> race \<Rightarrow> bool" for fd hs where
  loop_wake: "looper s = LWait \<Longrightarrow> tokens s > 0 \<Longrightarrow> loop_step fd hs s (s\<lparr>looper := LRead\<rparr>)"
| loop_read: "looper s = LRead \<Longrightarrow> read_tokens fd (tokens s) = (n, again) \<Longrightarrow>
    loop_step fd hs s (s\<lparr>tokens := n, looper := if again then LRead else LSweep hs\<rparr>)"
| loop_sweep: "looper s = LSweep (h # q) \<Longrightarrow> cmpxchgi (pending s h) 1 0 = (v, n) \<Longrightarrow>
    loop_step fd hs s (s\<lparr>pending := (pending s)(h := n), looper := if v = 0 then LSweep q else LCall h q\<rparr>)"
| loop_call: "looper s = LCall h q \<Longrightarrow>
    loop_step fd hs s (s\<lparr>owed := (owed s)(h := False), calls := calls s @ [h], looper := LSweep q\<rparr>)"
| loop_done: "looper s = LSweep [] \<Longrightarrow> loop_step fd hs s (s\<lparr>looper := LWait\<rparr>)"

text \<open>New work: a thread that is idle calls \<^verbatim>\<open>uv_async_send\<close> on a handle of the loop, or a thread is new.\<close>

inductive send_begin :: "hid list \<Rightarrow> race \<Rightarrow> race \<Rightarrow> bool" for hs where
  begin_send: "i < length (senders s) \<Longrightarrow> senders s ! i = SIdle \<Longrightarrow> h \<in> set hs \<Longrightarrow>
    send_begin hs s (s\<lparr>senders := (senders s)[i := SRead h]\<rparr>)"
| begin_thread: "send_begin hs s (s\<lparr>senders := senders s @ [SIdle]\<rparr>)"

definition race_work :: "wakefd \<Rightarrow> nat \<Rightarrow> hid list \<Rightarrow> race \<Rightarrow> race \<Rightarrow> bool" where
  "race_work fd cap hs s s' \<longleftrightarrow> loop_step fd hs s s' \<or> (\<exists>i. send_step cap i s s')"

definition race_step :: "wakefd \<Rightarrow> nat \<Rightarrow> hid list \<Rightarrow> race \<Rightarrow> race \<Rightarrow> bool" where
  "race_step fd cap hs s s' \<longleftrightarrow> race_work fd cap hs s s' \<or> send_begin hs s s'"

definition race_start :: "race" where
  "race_start = \<lparr>pending = (\<lambda>_. 0), tokens = 0, senders = [], looper = LWait, owed = (\<lambda>_. False), calls = []\<rparr>"

subsection \<open>The invariant\<close>

fun to_sweep :: "hid list \<Rightarrow> looper \<Rightarrow> hid set" where
  "to_sweep hs LWait = {}"
| "to_sweep hs LRead = set hs"
| "to_sweep hs (LSweep q) = set q"
| "to_sweep hs (LCall h q) = set q"

fun sends_to :: "sender \<Rightarrow> hid set" where
  "sends_to SIdle = {}"
| "sends_to (SRead h) = {h}"
| "sends_to (SCas h) = {h}"
| "sends_to (SWrite h) = {h}"

definition writing :: "race \<Rightarrow> bool" where
  "writing s \<longleftrightarrow> (\<exists>h. SWrite h \<in> set (senders s))"

text \<open>A flag that is up is followed by a pass over its handle: a token or a write to come, or the pass has begun.\<close>

definition race_inv :: "hid list \<Rightarrow> race \<Rightarrow> bool" where
  "race_inv hs s \<longleftrightarrow>
     (\<forall>x\<in>set (senders s). sends_to x \<subseteq> set hs) \<and>
     (\<forall>h. pending s h \<in> {0, 1}) \<and>
     (\<forall>h. pending s h \<noteq> 0 \<longrightarrow> h \<in> set hs \<and> (tokens s > 0 \<or> writing s \<or> h \<in> to_sweep hs (looper s))) \<and>
     (\<forall>h. owed s h \<longrightarrow> pending s h \<noteq> 0 \<or> (\<exists>q. looper s = LCall h q))"

lemma race_invD:
  assumes "race_inv hs s"
  shows "x \<in> set (senders s) \<Longrightarrow> sends_to x \<subseteq> set hs" "pending s h = 0 \<or> pending s h = 1"
    "pending s h \<noteq> 0 \<Longrightarrow> h \<in> set hs" "pending s h \<noteq> 0 \<Longrightarrow> tokens s > 0 \<or> writing s \<or> h \<in> to_sweep hs (looper s)"
    "owed s h \<Longrightarrow> pending s h \<noteq> 0 \<or> (\<exists>q. looper s = LCall h q)"
  using assms by (auto simp: race_inv_def)

lemma race_start_inv: "race_inv hs race_start"
  by (simp add: race_inv_def race_start_def)

lemma writing_update:
  "i < length xs \<Longrightarrow> \<forall>h. xs ! i \<noteq> SWrite h \<Longrightarrow> SWrite h \<in> set xs \<Longrightarrow> SWrite h \<in> set (xs[i := x])"
  by (metis in_set_conv_nth length_list_update nth_list_update_neq)

lemma sends_to_update:
  "(\<forall>x\<in>set xs. sends_to x \<subseteq> A) \<Longrightarrow> sends_to y \<subseteq> A \<Longrightarrow> \<forall>x\<in>set (xs[i := y]). sends_to x \<subseteq> A"
  using set_update_subset_insert [of xs i y] by blast

lemma send_step_inv:
  assumes "send_step cap i s s'" and "race_inv hs s" and "0 < cap"
  shows "race_inv hs s'"
  using assms(1)
proof cases
  case (send_pending h)
  have "writing s'" if "writing s"
    using that send_pending writing_update [of i "senders s" _ SIdle] by (auto simp: writing_def)
  then show ?thesis
    using assms(2) send_pending sends_to_update [of "senders s" "set hs" SIdle i] by (auto simp: race_inv_def)
next
  case (send_clear h)
  have "writing s'" if "writing s"
    using that send_clear writing_update [of i "senders s" _ "SCas h"] by (auto simp: writing_def)
  moreover have "h \<in> set hs" using race_invD(1) [OF assms(2), of "SRead h"] send_clear(2,3) nth_mem by fastforce
  ultimately show ?thesis
    using assms(2) send_clear sends_to_update [of "senders s" "set hs" "SCas h" i] by (auto simp: race_inv_def)
next
  case (send_cas h v n)
  let ?x = "if v = 0 then SWrite h else SIdle"
  have w: "writing s'" if "writing s"
  proof -
    from \<open>writing s\<close> obtain g where "SWrite g \<in> set (senders s)" unfolding writing_def by blast
    then have "SWrite g \<in> set ((senders s)[i := ?x])" using send_cas(2,3) by (intro writing_update) auto
    then show ?thesis unfolding writing_def send_cas(1) by (intro exI) simp
  qed
  have h: "h \<in> set hs" using race_invD(1) [OF assms(2), of "SCas h"] send_cas(2,3) nth_mem by fastforce
  have v: "v = pending s h" "n = 1 \<or> n = pending s h \<and> pending s h \<noteq> 0" "n \<in> {0, 1}"
    using send_cas(4) race_invD(2) [OF assms(2), of h] by (auto simp: cmpxchgi_def split: if_splits)
  have "writing s'" if "v = 0"
    using that send_cas(1,2) set_update_memI [of i "senders s" "SWrite h"] by (auto simp: writing_def)
  moreover have "tokens s' = tokens s" "looper s' = looper s" using send_cas(1) by simp_all
  moreover have "tokens s > 0 \<or> writing s \<or> h \<in> to_sweep hs (looper s)" if "v \<noteq> 0"
    using that v(1) race_invD(4) [OF assms(2)] by blast
  moreover have "\<forall>x\<in>set (senders s'). sends_to x \<subseteq> set hs"
    using assms(2) send_cas(1) h sends_to_update [of "senders s" "set hs" ?x i] by (auto simp: race_inv_def)
  ultimately show ?thesis
    using assms(2) send_cas(1) v h w by (auto simp: race_inv_def)
next
  case (send_write h)
  have "tokens s' > 0" using send_write assms(3) by (simp add: write_tokens_def)
  then show ?thesis
    using assms(2) send_write sends_to_update [of "senders s" "set hs" SIdle i] by (auto simp: race_inv_def)
qed

lemma loop_step_inv:
  assumes "loop_step fd hs s s'" and "race_inv hs s"
  shows "race_inv hs s'"
  using assms(1)
proof cases
  case loop_wake
  then show ?thesis using assms(2) by (auto simp: race_inv_def writing_def)
next
  case (loop_read n again)
  then show ?thesis using assms(2) by (auto simp: race_inv_def writing_def)
next
  case (loop_sweep h q v n)
  then have v: "v = pending s h" "n = 0"
    using race_invD(2) [OF assms(2), of h] by (auto simp: cmpxchgi_def split: if_splits)
  show ?thesis using assms(2) loop_sweep(1,2) v by (auto simp: race_inv_def writing_def)
next
  case (loop_call h q)
  then show ?thesis using assms(2) by (auto simp: race_inv_def writing_def)
next
  case loop_done
  then show ?thesis using assms(2) by (auto simp: race_inv_def writing_def)
qed

lemma send_begin_inv: "send_begin hs s s' \<Longrightarrow> race_inv hs s \<Longrightarrow> race_inv hs s'"
proof (induction rule: send_begin.induct)
  case (begin_send i s h)
  have "writing (s\<lparr>senders := (senders s)[i := SRead h]\<rparr>)" if "writing s"
    using that begin_send writing_update [of i "senders s" _ "SRead h"] by (auto simp: writing_def)
  then show ?case
    using begin_send sends_to_update [of "senders s" "set hs" "SRead h" i] by (auto simp: race_inv_def)
qed (auto simp: race_inv_def writing_def)

subsection \<open>Work ends\<close>

definition pass_cost :: "hid list \<Rightarrow> nat" where
  "pass_cost hs = 2 * length hs + 4"

fun sender_energy :: "hid list \<Rightarrow> sender \<Rightarrow> nat" where
  "sender_energy hs SIdle = 0"
| "sender_energy hs (SRead h) = pass_cost hs + 3"
| "sender_energy hs (SCas h) = pass_cost hs + 2"
| "sender_energy hs (SWrite h) = pass_cost hs + 1"

fun looper_energy :: "hid list \<Rightarrow> nat \<Rightarrow> looper \<Rightarrow> nat" where
  "looper_energy hs n LWait = 1"
| "looper_energy hs n LRead = (if n > 0 then 0 else 2 * length hs + 3)"
| "looper_energy hs n (LSweep q) = 2 * length q + 2"
| "looper_energy hs n (LCall h q) = 2 * length q + 3"

definition race_energy :: "hid list \<Rightarrow> race \<Rightarrow> nat" where
  "race_energy hs s =
     sum_list (map (sender_energy hs) (senders s)) + tokens s * pass_cost hs + looper_energy hs (tokens s) (looper s)"

lemma energy_update:
  "i < length xs \<Longrightarrow> sum_list (map (sender_energy hs) (xs[i := y])) + sender_energy hs (xs ! i) =
     sum_list (map (sender_energy hs) xs) + sender_energy hs y"
proof (induction xs arbitrary: i)
  case (Cons a xs)
  then show ?case by (cases i) auto
qed simp

lemma send_step_energy: "send_step cap i s s' \<Longrightarrow> race_energy hs s' < race_energy hs s"
proof (induction rule: send_step.induct)
  case (send_pending s h)
  then show ?case using energy_update [of i "senders s" hs SIdle] by (simp add: race_energy_def)
next
  case (send_clear s h)
  then show ?case using energy_update [of i "senders s" hs "SCas h"] by (simp add: race_energy_def)
next
  case (send_cas s h v n)
  then show ?case
    using energy_update [of i "senders s" hs "if v = 0 then SWrite h else SIdle"] by (simp add: race_energy_def split: if_splits)
next
  case (send_write s h)
  have "looper_energy hs (write_tokens cap (tokens s)) (looper s) \<le> looper_energy hs (tokens s) (looper s)"
    by (cases "looper s") (auto simp: write_tokens_def)
  moreover have "write_tokens cap (tokens s) * pass_cost hs \<le> tokens s * pass_cost hs + pass_cost hs"
    by (simp add: write_tokens_def)
  ultimately show ?case
    using send_write energy_update [of i "senders s" hs SIdle] by (simp add: race_energy_def)
qed

lemma loop_step_energy: "loop_step fd hs s s' \<Longrightarrow> race_energy hs s' < race_energy hs s"
proof (induction rule: loop_step.induct)
  case (loop_read s n again)
  show ?case
  proof (cases "tokens s = 0")
    case True
    with loop_read have "n = 0" "\<not> again" by (auto simp: read_tokens_def split: wakefd.splits if_splits)
    with True loop_read show ?thesis by (simp add: race_energy_def)
  next
    case False
    with loop_read have "n < tokens s" by (auto simp: read_tokens_def split: wakefd.splits if_splits)
    then have "n * pass_cost hs + pass_cost hs \<le> tokens s * pass_cost hs"
      by (metis Suc_leI add.commute mult_Suc mult_le_mono1)
    then show ?thesis using loop_read False \<open>n < tokens s\<close> by (auto simp: race_energy_def pass_cost_def)
  qed
qed (auto simp: race_energy_def)

interpretation race: settling "race_step fd (Suc cap) hs" "race_inv hs" "race_work fd (Suc cap) hs" "race_energy hs"
  for fd :: wakefd and cap :: nat and hs :: "hid list"
proof
  show "race_step fd (Suc cap) hs s s' \<Longrightarrow> race_inv hs s \<Longrightarrow> race_inv hs s'" for s s'
    by (auto simp: race_step_def race_work_def intro: loop_step_inv send_step_inv send_begin_inv)
  show "race_work fd (Suc cap) hs s s' \<Longrightarrow> race_step fd (Suc cap) hs s s'" for s s'
    by (simp add: race_step_def)
  show "race_work fd (Suc cap) hs s s' \<Longrightarrow> race_inv hs s \<Longrightarrow> race_energy hs s' < race_energy hs s" for s s'
    by (auto simp: race_work_def intro: loop_step_energy send_step_energy)
qed


subsection \<open>No wake-up is lost\<close>

definition race_idle :: "race \<Rightarrow> bool" where
  "race_idle s \<longleftrightarrow> set (senders s) \<subseteq> {SIdle} \<and> looper s = LWait \<and> tokens s = 0"

text \<open>Whoever is inside a function can take a step: the threads never wait for one another.\<close>

lemma sender_progress: "x \<in> set (senders s) \<Longrightarrow> x \<noteq> SIdle \<Longrightarrow> \<exists>i s'. send_step cap i s s'"
proof -
  assume x: "x \<in> set (senders s)" "x \<noteq> SIdle"
  then obtain i where i: "i < length (senders s)" "senders s ! i = x" by (auto simp: in_set_conv_nth)
  show ?thesis
  proof (cases x)
    case (SRead h)
    with i show ?thesis by (cases "pending s h = 0") (metis send_clear, metis send_pending)
  next
    case (SCas h)
    with i show ?thesis by (cases "cmpxchgi (pending s h) 0 1") (metis send_cas)
  next
    case (SWrite h)
    with i show ?thesis by (metis send_write)
  qed (use x in simp)
qed

lemma loop_progress: "looper s \<noteq> LWait \<or> tokens s > 0 \<Longrightarrow> \<exists>s'. loop_step fd hs s s'"
proof (cases "looper s")
  case LRead
  then show ?thesis by (cases "read_tokens fd (tokens s)") (metis loop_read)
next
  case (LSweep q)
  then show ?thesis
  proof (cases q)
    case (Cons h q')
    with LSweep show ?thesis by (cases "cmpxchgi (pending s h) 1 0") (metis loop_sweep)
  qed (metis loop_done)
next
  case (LCall h q)
  then show ?thesis by (metis loop_call)
qed (metis loop_wake)

lemma stuck_idle: "\<forall>s'. \<not> race_work fd cap hs s s' \<Longrightarrow> race_idle s"
  using sender_progress [of _ s cap] loop_progress [of s fd hs]
  by (fastforce simp: race_idle_def race_work_def)

lemma idle_owes_nothing: "race_idle s \<Longrightarrow> race_inv hs s \<Longrightarrow> \<not> owed s h"
  using race_invD(4,5) [of hs s h] by (auto simp: race_idle_def writing_def)

lemma work_calls:
  assumes "race_work fd cap hs s s'"
  shows "\<exists>zs. calls s' = calls s @ zs \<and> (\<forall>h. owed s h \<longrightarrow> owed s' h \<or> h \<in> set zs)"
proof -
  have "loop_step fd hs s s' \<Longrightarrow> ?thesis" by (induction rule: loop_step.induct) auto
  moreover have "send_step cap i s s' \<Longrightarrow> ?thesis" for i by (induction rule: send_step.induct) auto
  ultimately show ?thesis using assms by (auto simp: race_work_def)
qed

lemma works_calls:
  "(race_work fd cap hs)\<^sup>*\<^sup>* s s' \<Longrightarrow> \<exists>zs. calls s' = calls s @ zs \<and> (\<forall>h. owed s h \<longrightarrow> owed s' h \<or> h \<in> set zs)"
proof (induction rule: rtranclp_induct)
  case (step r s')
  then show ?case using work_calls [OF step(2)] by fastforce
qed simp

text \<open>
  C16. No wake-up is lost. In every state that threads calling \<^verbatim>\<open>uv_async_send\<close> and the loop can reach,
  by whatever interleaving, a handle whose send has taken effect and whose callback has not run since
  has its flag up or its callback about to be called; and while its flag is up the loop is not
  blocked for good: the descriptor is readable, a write to it is under way, or the pass over the handles is
  going to come to this handle.
\<close>

theorem async_no_lost_wakeup:
  assumes "(race_step fd (Suc cap) hs)\<^sup>*\<^sup>* race_start s" and "owed s h"
  shows "(\<exists>q. looper s = LCall h q) \<or>
    (h \<in> set hs \<and> pending s h = 1 \<and> (tokens s > 0 \<or> writing s \<or> h \<in> to_sweep hs (looper s)))"
  using race_invD(2-5) [OF race.steps_inv [OF assms(1) race_start_inv]] assms(2) by metis

text \<open>
  C8. Every send is answered. From any reachable state, when no thread begins another call, the threads
  and the loop come to rest after at most \<open>race_energy\<close> steps whatever the scheduler does; they can always go on until
  then; and once they are at rest the callback of every handle that was owed one has run.
\<close>

theorem async_sends_answered:
  assumes "(race_step fd (Suc cap) hs)\<^sup>*\<^sup>* race_start s"
  shows "(\<forall>n s'. (race_work fd (Suc cap) hs ^^ n) s s' \<longrightarrow> n \<le> race_energy hs s) \<and>
    (\<forall>s'. (race_work fd (Suc cap) hs)\<^sup>*\<^sup>* s s' \<and> (\<forall>r. \<not> race_work fd (Suc cap) hs s' r) \<longrightarrow>
      race_idle s' \<and> (\<forall>h. \<not> owed s' h) \<and> {h. owed s h} \<subseteq> set (drop (length (calls s)) (calls s'))) \<and>
    (\<exists>s'. (race_work fd (Suc cap) hs)\<^sup>*\<^sup>* s s' \<and> (\<forall>r. \<not> race_work fd (Suc cap) hs s' r))"
proof (intro conjI allI impI)
  have i: "race_inv hs s" by (rule race.steps_inv [OF assms race_start_inv])
  show "n \<le> race_energy hs s" if "(race_work fd (Suc cap) hs ^^ n) s s'" for n s'
    using race.work_bounded [OF that i] by simp
  show "\<exists>s'. (race_work fd (Suc cap) hs)\<^sup>*\<^sup>* s s' \<and> (\<forall>r. \<not> race_work fd (Suc cap) hs s' r)"
    using race.settles [OF i] by blast
  fix s' assume s': "(race_work fd (Suc cap) hs)\<^sup>*\<^sup>* s s' \<and> (\<forall>r. \<not> race_work fd (Suc cap) hs s' r)"
  show idle: "race_idle s'" using s' stuck_idle by blast
  have "race_inv hs s'" using s' i race.steps_inv race.work_steps by blast
  then show none: "\<not> owed s' h" for h using idle_owes_nothing [OF idle] by blast
  show "{h. owed s h} \<subseteq> set (drop (length (calls s)) (calls s'))"
    using works_calls [of fd "Suc cap" hs s s'] s' none by auto
qed

lemma demo_path: "R a b \<Longrightarrow> R b c \<Longrightarrow> R c d \<Longrightarrow> R d e \<Longrightarrow> R\<^sup>*\<^sup>* a e"
  by (rule converse_rtranclp_into_rtranclp, assumption)+ (rule rtranclp.rtrancl_refl)

lemma demo_race:
  "(race_step EventFd (Suc 0) [2])\<^sup>*\<^sup>* race_start
     (race_start\<lparr>pending := (\<lambda>_. 0)(2 := 1), owed := (\<lambda>_. False)(2 := True), senders := [SWrite 2]\<rparr>)"
proof -
  let ?s1 = "race_start\<lparr>senders := [SIdle]\<rparr>" and ?s2 = "race_start\<lparr>senders := [SRead 2]\<rparr>"
    and ?s3 = "race_start\<lparr>senders := [SCas 2]\<rparr>"
  let ?s4 = "race_start\<lparr>pending := (\<lambda>_. 0)(2 := 1), owed := (\<lambda>_. False)(2 := True), senders := [SWrite 2]\<rparr>"
  let ?R = "race_step EventFd (Suc 0) [2]"
  have "?R race_start ?s1"
    using begin_thread [of "[2]" race_start] by (simp add: race_step_def race_start_def)
  moreover have "?R ?s1 ?s2"
    using begin_send [of 0 ?s1 2 "[2]"] by (simp add: race_step_def race_start_def)
  moreover have "send_step (Suc 0) 0 ?s2 ?s3"
    using send_clear [of 0 ?s2 2 "Suc 0"] by (simp add: race_start_def)
  then have "?R ?s2 ?s3" unfolding race_step_def race_work_def by blast
  moreover have "send_step (Suc 0) 0 ?s3 ?s4"
    using send_cas [of 0 ?s3 2 0 1 "Suc 0"] by (simp add: race_start_def cmpxchgi_def)
  then have "?R ?s3 ?s4" unfolding race_step_def race_work_def by blast
  ultimately show ?thesis by (rule demo_path)
qed

theorem async_no_lost_wakeup_witness:
  "\<exists>s. (race_step EventFd (Suc 0) [2])\<^sup>*\<^sup>* race_start s \<and> owed s 2 \<and> writing s"
  using async_no_lost_wakeup [OF demo_race, of 2] demo_race by (force simp: race_start_def)

theorem async_sends_answered_witness:
  "\<exists>s s'. (race_step EventFd (Suc 0) [2])\<^sup>*\<^sup>* race_start s \<and> owed s 2 \<and>
     (race_work EventFd (Suc 0) [2])\<^sup>*\<^sup>* s s' \<and> 2 \<in> set (calls s')"
proof -
  let ?s = "race_start\<lparr>pending := (\<lambda>_. 0)(2 := 1), owed := (\<lambda>_. False)(2 := True), senders := [SWrite 2]\<rparr>"
  obtain s' where "(race_work EventFd (Suc 0) [2])\<^sup>*\<^sup>* ?s s'"
    "{h. owed ?s h} \<subseteq> set (drop (length (calls ?s)) (calls s'))"
    using async_sends_answered [OF demo_race] by blast
  then have "2 \<in> set (calls s')" by (auto dest: in_set_dropD)
  with demo_race \<open>(race_work EventFd (Suc 0) [2])\<^sup>*\<^sup>* ?s s'\<close> show ?thesis by (intro exI [of _ ?s] exI [of _ s']) simp
qed

end
