(* ===== verification/UvCore.thy ===== *)
theory UvCore
  imports UvAsync
begin

text \<open>
  The event loop: closing handles, the question whether the loop is alive, how long it may block, and
  \<^verbatim>\<open>uv_run\<close>, all of \<^verbatim>\<open>3rd/libuv/src/unix/core.c\<close>, with the queries of \<^verbatim>\<open>uv-common.c\<close> on handles
  and loops.

  \<open>uv_close\<close> and \<open>uv__finish_close\<close> switch on the kind of the handle. Timers, prepare, check, idle,
  async and poll handles are closed by the functions of their theories; what the switch calls for the
  other kinds (streams, datagram sockets, processes, signals, file watchers) is the argument \<open>others\<close>.

  \<open>uv__run_closing_handles\<close> finishes each handle of the list once, in the order of the list; a handle closed by
  a close callback waits for the next iteration. An iteration of \<open>uv_run\<close> calls back in the order of its
  phases.
\<close>

subsection \<open>Queries and references (uv-common.c, core.c)\<close>

definition uv_ref :: "hid \<Rightarrow> 'a uv_loop_scheme \<Rightarrow> 'a uv_loop_scheme" where
  "uv_ref h s = uv__handle_ref h s"

definition uv_unref :: "hid \<Rightarrow> 'a uv_loop_scheme \<Rightarrow> 'a uv_loop_scheme" where
  "uv_unref h s = uv__handle_unref h s"

definition uv_has_ref :: "hid \<Rightarrow> 'a uv_loop_scheme \<Rightarrow> bool" where
  "uv_has_ref h s = uv__has_ref h s"

definition uv_is_active :: "hid \<Rightarrow> 'a uv_loop_scheme \<Rightarrow> bool" where
  "uv_is_active h s = uv__is_active h s"

definition uv_is_closing :: "hid \<Rightarrow> 'a uv_loop_scheme \<Rightarrow> bool" where
  "uv_is_closing h s = uv__is_closing h s"

definition uv_stop :: "'a uv_loop_scheme \<Rightarrow> 'a uv_loop_scheme" where
  "uv_stop s = s\<lparr>stop_flag := True\<rparr>"

definition uv_now :: "'a uv_loop_scheme \<Rightarrow> u64" where
  "uv_now s = time s"

definition uv_backend_fd :: "'a io_loop_scheme \<Rightarrow> int" where
  "uv_backend_fd s = backend_fd s"

definition uv_update_time :: "kernel \<Rightarrow> 'a io_loop_scheme \<Rightarrow> 'a io_loop_scheme" where
  "uv_update_time K s = uv__update_time K s"

definition uv__loop_alive :: "'a uv_loop_scheme \<Rightarrow> bool" where
  "uv__loop_alive s \<longleftrightarrow> uv__has_active_handles s \<or> uv__has_active_reqs s \<or> closing_handles s \<noteq> None"

definition uv_loop_alive :: "'a uv_loop_scheme \<Rightarrow> bool" where
  "uv_loop_alive s = uv__loop_alive s"

definition uv_backend_timeout :: "'a io_loop_scheme \<Rightarrow> int" where
  "uv_backend_timeout s =
     (if stop_flag s then 0
      else if \<not> uv__has_active_handles s \<and> \<not> uv__has_active_reqs s then 0
      else if wqueue s WIdle \<noteq> [] then 0
      else if pending_queue s \<noteq> [] then 0
      else if closing_handles s \<noteq> None then 0
      else uv__next_timeout s)"

subsection \<open>Closing handles\<close>

type_synonym 's closer = "uv_handle_type \<Rightarrow> hid \<Rightarrow> 's \<Rightarrow> 's option"

text \<open>The switch of \<open>uv_close\<close>. A signal handle may have to wait before its close is pending.\<close>

definition close_by_type :: "kernel \<Rightarrow> 'a poll_loop_scheme closer \<Rightarrow> hid \<Rightarrow> 'a poll_loop_scheme \<Rightarrow> 'a poll_loop_scheme option" where
  "close_by_type K others h s =
     (case htype (handles s h) of
        UV_PREPARE \<Rightarrow> Some (uv__watcher_close WPrepare h s)
      | UV_CHECK \<Rightarrow> Some (uv__watcher_close WCheck h s)
      | UV_IDLE \<Rightarrow> Some (uv__watcher_close WIdle h s)
      | UV_ASYNC \<Rightarrow> Some (uv__async_close h s)
      | UV_TIMER \<Rightarrow> uv__timer_close h s
      | UV_POLL \<Rightarrow> uv__poll_close K h s
      | UV_UNKNOWN_HANDLE \<Rightarrow> None
      | UV_HANDLE \<Rightarrow> None
      | UV_STREAM \<Rightarrow> None
      | UV_FILE \<Rightarrow> None
      | t \<Rightarrow> others t h s)"

definition uv_close :: "kernel \<Rightarrow> 'a poll_loop_scheme closer \<Rightarrow> hid \<Rightarrow> cb option \<Rightarrow> 'a poll_loop_scheme \<Rightarrow> 'a poll_loop_scheme option" where
  "uv_close K others h c s =
     (if uv__is_closing h s then None
      else (let s = set_flag UV_HANDLE_CLOSING h s;
                s = upd_handle h (\<lambda>r. r\<lparr>close_cb := c\<rparr>) s;
                t = htype (handles s h)
            in do {
              s \<leftarrow> close_by_type K others h s;
              if t = UV_SIGNAL then Some s else uv__make_close_pending h s
            }))"

definition destroyed_kind :: "uv_handle_type \<Rightarrow> bool" where
  "destroyed_kind t \<longleftrightarrow> t \<in> {UV_NAMED_PIPE, UV_TCP, UV_TTY, UV_UDP}"

definition uv__finish_close :: "'a poll_loop_scheme client \<Rightarrow> 'a poll_loop_scheme closer \<Rightarrow> hid \<Rightarrow> 'a poll_loop_scheme \<Rightarrow> 'a poll_loop_scheme option" where
  "uv__finish_close call destroy h s =
     (if \<not> has_flag UV_HANDLE_CLOSING h s then None
      else if has_flag UV_HANDLE_CLOSED h s then None
      else (let s = set_flag UV_HANDLE_CLOSED h s; t = htype (handles s h) in do {
        s \<leftarrow> (if t \<in> {UV_PREPARE, UV_CHECK, UV_IDLE, UV_ASYNC, UV_TIMER, UV_PROCESS, UV_FS_EVENT, UV_FS_POLL, UV_POLL, UV_SIGNAL}
              then Some s
              else if destroyed_kind t then destroy t h s
              else None);
        let s = uv__handle_unref h s;
        let s = s\<lparr>handle_queue := remove1 h (handle_queue s), walk_queue := remove1 h (walk_queue s)\<rparr>;
        case close_cb (handles s h) of
          None \<Rightarrow> Some s
        | Some c \<Rightarrow> invoke call c h s
      }))"

partial_function (option) run_closing ::
  "'a poll_loop_scheme client \<Rightarrow> 'a poll_loop_scheme closer \<Rightarrow> hid option \<Rightarrow> 'a poll_loop_scheme \<Rightarrow> 'a poll_loop_scheme option" where
  "run_closing call destroy p s =
     (case p of
        None \<Rightarrow> Some s
      | Some h \<Rightarrow> let q = next_closing (handles s h) in do {
          s \<leftarrow> uv__finish_close call destroy h s;
          run_closing call destroy q s
        })"

declare run_closing.simps [code]

definition uv__run_closing_handles ::
  "'a poll_loop_scheme client \<Rightarrow> 'a poll_loop_scheme closer \<Rightarrow> 'a poll_loop_scheme \<Rightarrow> 'a poll_loop_scheme option" where
  "uv__run_closing_handles call destroy s =
     (let p = closing_handles s in run_closing call destroy p (s\<lparr>closing_handles := None\<rparr>))"

subsection \<open>The loop\<close>

datatype uv_run_mode = UV_RUN_DEFAULT | UV_RUN_ONCE | UV_RUN_NOWAIT

text \<open>What the loop runs that is not libuv's: the client's callbacks, and the parts of libuv that are arguments here.\<close>

record 's run_env =
  run_kernel :: kernel
  run_call :: "'s client"
  run_io :: "'s io_client"
  run_destroy :: "'s closer"

definition run_iteration :: "'a poll_loop_scheme run_env \<Rightarrow> uv_run_mode \<Rightarrow> 'a poll_loop_scheme \<Rightarrow> 'a poll_loop_scheme option" where
  "run_iteration E mode s = do {
     let s = uv__update_time (run_kernel E) s;
     s \<leftarrow> uv__run_timers (run_call E) s;
     (ran_pending, s) \<leftarrow> uv__run_pending (run_io E) s;
     s \<leftarrow> uv__run_watchers (run_call E) WIdle s;
     s \<leftarrow> uv__run_watchers (run_call E) WPrepare s;
     let tmo = (if (mode = UV_RUN_ONCE \<and> ran_pending = 0) \<or> mode = UV_RUN_DEFAULT then uv_backend_timeout s else 0);
     s \<leftarrow> uv__io_poll (run_kernel E) (run_io E) tmo s;
     s \<leftarrow> uv__run_watchers (run_call E) WCheck s;
     s \<leftarrow> uv__run_closing_handles (run_call E) (run_destroy E) s;
     if mode = UV_RUN_ONCE then uv__run_timers (run_call E) (uv__update_time (run_kernel E) s) else Some s
   }"

text \<open>\<open>r\<close> is what the loop returns: whether it was alive when last asked.\<close>

partial_function (option) run_loop ::
  "'a poll_loop_scheme run_env \<Rightarrow> uv_run_mode \<Rightarrow> bool \<Rightarrow> 'a poll_loop_scheme \<Rightarrow> (bool \<times> 'a poll_loop_scheme) option" where
  "run_loop E mode r s =
     (if \<not> (r \<and> \<not> stop_flag s) then Some (r, s)
      else do {
        s \<leftarrow> run_iteration E mode s;
        let r = uv__loop_alive s;
        if mode = UV_RUN_ONCE \<or> mode = UV_RUN_NOWAIT then Some (r, s) else run_loop E mode r s
      })"

declare run_loop.simps [code]

definition uv_run :: "'a poll_loop_scheme run_env \<Rightarrow> uv_run_mode \<Rightarrow> 'a poll_loop_scheme \<Rightarrow> (bool \<times> 'a poll_loop_scheme) option" where
  "uv_run E mode s =
     (let r = uv__loop_alive s;
          s = (if r then s else uv__update_time (run_kernel E) s)
      in do {
        (r, s) \<leftarrow> run_loop E mode r s;
        Some (r, s\<lparr>stop_flag := False\<rparr>)
      })"

subsection \<open>Finishing closed handles\<close>

text \<open>What \<open>uv__finish_close\<close> does to a handle that has nothing to destroy, before its callback.\<close>

definition drop_handle :: "hid \<Rightarrow> 'a uv_loop_scheme \<Rightarrow> 'a uv_loop_scheme" where
  "drop_handle h s =
     (let s = uv__handle_unref h (set_flag UV_HANDLE_CLOSED h s)
      in s\<lparr>handle_queue := remove1 h (handle_queue s), walk_queue := remove1 h (walk_queue s)\<rparr>)"

definition plain_kind :: "uv_handle_type \<Rightarrow> bool" where
  "plain_kind t \<longleftrightarrow> t \<in> {UV_PREPARE, UV_CHECK, UV_IDLE, UV_ASYNC, UV_TIMER, UV_PROCESS, UV_FS_EVENT, UV_FS_POLL, UV_POLL, UV_SIGNAL}"

lemma drop_handle_eqs [simp]:
  "handles (drop_handle h s) = (handles s)(h := (handles s h)\<lparr>hflags := (flags_of s h OR UV_HANDLE_CLOSED) AND NOT UV_HANDLE_REF\<rparr>)"
  "handle_queue (drop_handle h s) = remove1 h (handle_queue s)" "walk_queue (drop_handle h s) = remove1 h (walk_queue s)"
  "closing_handles (drop_handle h s) = closing_handles s" "active_reqs (drop_handle h s) = active_reqs s"
  "time (drop_handle h s) = time s" "stop_flag (drop_handle h s) = stop_flag s" "trace (drop_handle h s) = trace s"
  "uv_loop.more (drop_handle h s) = uv_loop.more s"
  by (simp_all add: drop_handle_def set_flag_def Let_def)

lemma drop_handle_active: "bit (flags_of s h) 0 \<Longrightarrow> active_handles (drop_handle h s) = active_handles s"
  by (simp add: drop_handle_def set_flag_def Let_def active_unref)

lemma members_drop: "distinct (handle_queue s @ walk_queue s) \<Longrightarrow> members (drop_handle h s) = members s - {h}"
  by (auto simp: members_def)

lemma closing_onD:
  assumes "base_inv {} (h # ys) s"
  shows "h \<in> members s" "bit (flags_of s h) 0" "\<not> bit (flags_of s h) 1" "\<not> bit (flags_of s h) 2" "next_closing (handles s h) = first ys"
    "set (h # ys) \<subseteq> members s" "distinct (h # ys)" "x \<in> set ys \<Longrightarrow> bit (flags_of s x) 0"
proof -
  obtain xs where xs: "chain (handles s) (first (h # ys)) (h # ys)" "distinct (xs @ h # ys)" "set (xs @ h # ys) = closing s - {}"
    using base_invD(4) [OF assms] unfolding closing_ok_def by blast
  then show h: "h \<in> members s" "bit (flags_of s h) 0" "set (h # ys) \<subseteq> members s" "distinct (h # ys)"
    "x \<in> set ys \<Longrightarrow> bit (flags_of s x) 0"
    by (auto simp: closing_def)
  show "\<not> bit (flags_of s h) 1" "\<not> bit (flags_of s h) 2"
    using base_inv_closed [OF assms h(1)] base_inv_active [OF assms h(1) _ h(2)] by simp_all
  show "next_closing (handles s h) = first ys" using chain_first xs(1) by auto
qed

lemma base_inv_drop:
  assumes "base_inv {} (h # ys) s"
  shows "base_inv {} ys (drop_handle h s)"
proof -
  note h = closing_onD [OF assms]
  note d = base_invD [OF assms]
  note m = members_drop [OF d(1), of h]
  obtain xs where xs: "chain (handles s) (closing_handles s) xs" "chain (handles s) (first (h # ys)) (h # ys)"
    "distinct (xs @ h # ys)" "set (xs @ h # ys) = closing s"
    using d(4) unfolding closing_ok_def by auto
  have "closing (drop_handle h s) = closing s - {h}"
    unfolding closing_def m using h(2) by (auto split: if_splits)
  then have "set (xs @ ys) = closing (drop_handle h s) - {}" using xs(3,4) by auto
  moreover have "chain (handles (drop_handle h s)) (closing_handles (drop_handle h s)) xs"
    "chain (handles (drop_handle h s)) (first ys) ys"
    using xs(1,2) chain_first by (auto elim!: chain_cong)
  moreover have "distinct (xs @ ys)" using xs(3) by simp
  ultimately have "closing_ok {} ys (drop_handle h s)" unfolding closing_ok_def by blast
  moreover have "counted (drop_handle h s) = counted s"
    unfolding counted_def m using h(4) by (auto split: if_splits)
  then have "count_ok (drop_handle h s)" using d(2) drop_handle_active [OF h(2)] by (simp add: count_ok_def)
  moreover have "flags_ok {} (drop_handle h s)" using d(3) by (auto simp: flags_ok_def m)
  ultimately show ?thesis using d(1) by (auto simp: base_inv_def)
qed

lemma finish_close_plain:
  assumes "base_inv {} (h # ys) s" and "plain_kind (htype (handles s h))"
  shows "uv__finish_close call destroy h s =
    (case close_cb (handles s h) of None \<Rightarrow> Some (drop_handle h s) | Some c \<Rightarrow> invoke call c h (drop_handle h s))"
proof -
  show ?thesis
    using closing_onD(2,3) [OF assms(1)] assms(2)
    by (cases "close_cb (handles s h)")
      (auto simp: uv__finish_close_def flag_simps plain_kind_def drop_handle_def set_flag_def Let_def)
qed

text \<open>The calls of the close callbacks of a list of handles.\<close>

definition close_calls :: "'a poll_loop_scheme \<Rightarrow> hid list \<Rightarrow> (cb \<times> hid) list" where
  "close_calls s ys = concat (map (\<lambda>h. case close_cb (handles s h) of None \<Rightarrow> [] | Some c \<Rightarrow> [(c, h)]) ys)"

text \<open>
  The clients of the close callbacks: a callback returns, keeps the loop well formed and does not change
  what is stored at the handles that are still to be finished. It may close other handles and begin to use
  new ones, also at the address of the handle it was called for.
\<close>

locale closing_client =
  fixes call :: "'a poll_loop_scheme client" and good :: "'a poll_loop_scheme \<Rightarrow> bool"
  assumes close_call: "base_inv {} ys s \<Longrightarrow> good s \<Longrightarrow> h \<notin> members s \<Longrightarrow>
    \<exists>s'. call c h s = Some s' \<and> base_inv {} ys s' \<and> good s' \<and> trace s' = trace s \<and>
      (\<forall>x\<in>set ys. htype (handles s' x) = htype (handles s x) \<and> close_cb (handles s' x) = close_cb (handles s x))"
    and good_drop: "good s \<Longrightarrow> h \<in> members s \<Longrightarrow> bit (flags_of s h) 0 \<Longrightarrow> \<not> bit (flags_of s h) 2 \<Longrightarrow>
      distinct (handle_queue s @ walk_queue s) \<Longrightarrow> good (drop_handle h s)"
    and good_trace: "good s \<Longrightarrow> good (s\<lparr>trace := t\<rparr>)"
    and good_closing: "good s \<Longrightarrow> good (s\<lparr>closing_handles := p\<rparr>)"
begin

lemma run_closing_list:
  "base_inv {} ys s \<Longrightarrow> good s \<Longrightarrow> \<forall>h\<in>set ys. plain_kind (htype (handles s h)) \<Longrightarrow>
    \<exists>s'. run_closing call destroy (first ys) s = Some s' \<and> base_inv {} [] s' \<and> good s' \<and>
      trace s' = trace s @ close_calls s ys"
proof (induction ys arbitrary: s)
  case Nil
  then show ?case by (subst run_closing.simps) (simp add: close_calls_def)
next
  case (Cons h ys)
  note h = closing_onD [OF Cons.prems(1)]
  let ?s = "drop_handle h s"
  have d: "base_inv {} ys ?s" by (rule base_inv_drop [OF Cons.prems(1)])
  have g: "good ?s" using good_drop Cons.prems(1,2) h(1,2,4) base_invD(1) by blast
  have m: "h \<notin> members ?s" using members_drop [OF base_invD(1) [OF Cons.prems(1)]] by simp
  have keep: "htype (handles ?s x) = htype (handles s x)" "close_cb (handles ?s x) = close_cb (handles s x)" for x by simp_all
  obtain s1 where s1: "uv__finish_close call destroy h s = Some s1" "base_inv {} ys s1" "good s1"
    "trace s1 = trace s @ close_calls s [h]"
    "\<forall>x\<in>set ys. htype (handles s1 x) = htype (handles s x) \<and> close_cb (handles s1 x) = close_cb (handles s x)"
  proof (cases "close_cb (handles s h)")
    case None
    then have "uv__finish_close call destroy h s = Some ?s" using finish_close_plain [OF Cons.prems(1)] Cons.prems(3) by simp
    then show ?thesis using that [of ?s] d g keep None by (simp add: close_calls_def)
  next
    case (Some c)
    let ?t = "?s\<lparr>trace := trace ?s @ [(c, h)]\<rparr>"
    have t: "base_inv {} ys ?t" "good ?t" "h \<notin> members ?t"
      using d good_trace [OF g] m by (auto elim!: base_inv_cong simp: members_def)
    obtain s1 where "call c h ?t = Some s1" "base_inv {} ys s1" "good s1" "trace s1 = trace ?t"
      "\<forall>x\<in>set ys. htype (handles s1 x) = htype (handles ?t x) \<and> close_cb (handles s1 x) = close_cb (handles ?t x)"
      using close_call [OF t, of c] by blast
    moreover have "uv__finish_close call destroy h s = call c h ?t"
      using finish_close_plain [OF Cons.prems(1)] Cons.prems(3) Some by (simp add: invoke_def)
    ultimately show ?thesis using that [of s1] Some keep by (simp add: close_calls_def)
  qed
  obtain s' where s': "run_closing call destroy (first ys) s1 = Some s'" "base_inv {} [] s'" "good s'"
    "trace s' = trace s1 @ close_calls s1 ys"
    using Cons.IH [OF s1(2,3)] Cons.prems(3) s1(5) by auto
  have "close_calls s1 ys = close_calls s ys"
    using s1(5) by (auto simp: close_calls_def cong: map_cong)
  then have "trace s' = trace s @ close_calls s (h # ys)" using s'(4) s1(4) by (simp add: close_calls_def)
  moreover have "run_closing call destroy (first (h # ys)) s = Some s'"
    using s1(1) s'(1) h(5) by (subst run_closing.simps) (simp add: Let_def)
  ultimately show ?case using s'(2,3) by blast
qed

end


lemma base_inv_take_closing:
  assumes "base_inv {} [] s" and "chain (handles s) (closing_handles s) ys"
  shows "base_inv {} ys (s\<lparr>closing_handles := None\<rparr>)" and "distinct ys" and "set ys = closing s" and "closing_handles s = first ys"
proof -
  obtain xs where xs: "chain (handles s) (closing_handles s) xs" "distinct xs" "set xs = closing s"
    using base_invD(4) [OF assms(1)] unfolding closing_ok_def by auto
  have "xs = ys"
  proof -
    have "chain m p xs \<Longrightarrow> chain m p ys \<Longrightarrow> xs = ys" for m p and xs ys :: "hid list"
    proof (induction m p xs arbitrary: ys rule: chain.induct)
      case (1 m p)
      then show ?case by (cases ys) auto
    next
      case (2 m p h xs)
      then show ?case by (cases ys) auto
    qed
    then show ?thesis using xs(1) assms(2) by blast
  qed
  with xs show "distinct ys" "set ys = closing s" by simp_all
  show f: "closing_handles s = first ys" by (rule chain_first [OF assms(2)])
  let ?s = "s\<lparr>closing_handles := None\<rparr>"
  have "closing ?s = closing s" "counted ?s = counted s" "members ?s = members s"
    by (simp_all add: closing_def counted_def members_def)
  moreover have "closing_ok {} ys ?s"
    using assms(2) xs \<open>xs = ys\<close> f calculation unfolding closing_ok_def
    by (intro exI [of _ "[]"]) auto
  ultimately show "base_inv {} ys ?s"
    using base_invD [OF assms(1)] by (simp add: base_inv_def count_ok_def flags_ok_def)
qed

context closing_client
begin

lemma run_closing_handles:
  assumes "base_inv {} [] s" and "good s" and "chain (handles s) (closing_handles s) ys"
    and "\<forall>h\<in>set ys. plain_kind (htype (handles s h))"
  shows "\<exists>s'. uv__run_closing_handles call destroy s = Some s' \<and> base_inv {} [] s' \<and> good s' \<and>
    trace s' = trace s @ close_calls s ys"
proof -
  note t = base_inv_take_closing [OF assms(1,3)]
  show ?thesis
    using run_closing_list [OF t(1) good_closing [OF assms(2)], where destroy = destroy] assms(4) t(4)
    by (simp add: uv__run_closing_handles_def close_calls_def)
qed

end

subsection \<open>Clients that use the loop in their callbacks\<close>

text \<open>
  A callback as a list of calls, made only on handles that are alive and not closing, as the wrappers of
  Moe.UV check: they start and stop timers and watchers, initialise new handles at free addresses, reference and
  unreference, close handles of the kinds above, and stop the loop.
\<close>

datatype loop_op =
    LTimer timer_op | LWatch watcher_op | LRef hid | LUnref hid | LClose hid "cb option" | LStop
  | LInitTimer hid | LInitWatch wkind hid

definition live :: "hid \<Rightarrow> 'a uv_loop_scheme \<Rightarrow> bool" where
  "live h s \<longleftrightarrow> h \<in> set (handle_queue s @ walk_queue s) \<and> \<not> uv__is_closing h s"

fun run_loop_op :: "kernel \<Rightarrow> loop_op \<Rightarrow> 'a poll_loop_scheme \<Rightarrow> 'a poll_loop_scheme option" where
  "run_loop_op K (LTimer x) s = run_timer_op x s"
| "run_loop_op K (LWatch x) s = Some (run_watcher_op x s)"
| "run_loop_op K (LRef h) s = Some (if live h s then uv_ref h s else s)"
| "run_loop_op K (LUnref h) s = Some (if live h s then uv_unref h s else s)"
| "run_loop_op K (LClose h c) s =
     (if live h s \<and> htype (handles s h) \<in> {UV_TIMER, UV_PREPARE, UV_CHECK, UV_IDLE, UV_ASYNC}
      then uv_close K (\<lambda>_ _ _. None) h c s else Some s)"
| "run_loop_op K LStop s = Some (uv_stop s)"
| "run_loop_op K (LInitTimer h) s =
     Some (if h \<in> set (handle_queue s @ walk_queue s) then s else snd (uv_timer_init h s))"
| "run_loop_op K (LInitWatch k h) s =
     Some (if h \<in> set (handle_queue s @ walk_queue s) then s else snd (uv_watcher_init k h s))"

fun run_loop_ops :: "kernel \<Rightarrow> loop_op list \<Rightarrow> 'a poll_loop_scheme \<Rightarrow> 'a poll_loop_scheme option" where
  "run_loop_ops K [] s = Some s"
| "run_loop_ops K (x # xs) s = do { s \<leftarrow> run_loop_op K x s; run_loop_ops K xs s }"

definition loop_script :: "kernel \<Rightarrow> (cb \<Rightarrow> loop_op list) \<Rightarrow> 'a poll_loop_scheme client" where
  "loop_script K prog c h s = run_loop_ops K (prog c) s"

definition loop_good :: "'a poll_loop_scheme \<Rightarrow> bool" where
  "loop_good s \<longleftrightarrow> timers_inv s \<and> watchers_inv s"

text \<open>\<open>keeps ys s s'\<close>: a step that keeps the loop well formed and leaves the handles \<open>ys\<close> to be finished alone.\<close>

definition keeps :: "hid list \<Rightarrow> 'a poll_loop_scheme \<Rightarrow> 'a poll_loop_scheme \<Rightarrow> bool" where
  "keeps ys s s' \<longleftrightarrow> base_inv {} ys s' \<and> loop_good s' \<and> trace s' = trace s \<and>
     (\<forall>x\<in>set ys. htype (handles s' x) = htype (handles s x) \<and> close_cb (handles s' x) = close_cb (handles s x))"

lemma keeps_trans: "keeps ys s s' \<Longrightarrow> keeps ys s' s'' \<Longrightarrow> keeps ys s s''"
  by (simp add: keeps_def)

lemma keeps_refl: "base_inv {} ys s \<Longrightarrow> loop_good s \<Longrightarrow> keeps ys s s"
  by (simp add: keeps_def)

lemma liveD: "live h s \<Longrightarrow> h \<in> members s" "live h s \<Longrightarrow> \<not> bit (flags_of s h) 0"
  by (simp_all add: live_def members_def is_closing_bit)

lemma live_timer_live: "live_timer h s \<Longrightarrow> live h s" "live_watcher k h s \<Longrightarrow> live h s"
  by (simp_all add: live_timer_def live_watcher_def live_def)

lemma more_watchers:
  assumes "timer_loop.more s' = timer_loop.more s"
  shows "wqueue s' = wqueue s" "wlocal s' = wlocal s" "watcher_cb s' = watcher_cb s"
  using assms by (cases s; cases s'; simp)+

lemma watchers_inv_timer:
  assumes "watchers_inv s" and "timer_loop.more s' = timer_loop.more s" and "members s' = members s"
    and "\<And>x. htype (handles s' x) = htype (handles s x)" and "\<And>x. x \<noteq> h \<Longrightarrow> flags_of s' x = flags_of s x"
    and "htype (handles s h) = UV_TIMER"
  shows "watchers_inv s'"
proof (rule watchers_inv_cong [OF assms(1)])
  show "active_watchers k s' = active_watchers k s" for k
    unfolding active_watchers_def assms(3,4) using assms(5,6) wtype_not_timer(1) [of k] by (metis (mono_tags, lifting))
qed (use more_watchers [OF assms(2)] in auto)


lemma keeps_timer:
  assumes "base_inv {} ys s" and "loop_good s" and "htype (handles s h) = UV_TIMER"
    and "timers_inv s'" and "base_inv {} ys s'" and "same_loop s s'" and "timer_loop.more s' = timer_loop.more s"
    and "handles s' = (handles s)(h := (handles s h)\<lparr>hflags := w\<rparr>)"
  shows "keeps ys s s'"
proof -
  have "watchers_inv s'"
    by (rule watchers_inv_timer [where h = h and s = s])
      (use assms in \<open>auto simp: loop_good_def same_loop_members\<close>)
  then show ?thesis using assms by (auto simp: keeps_def loop_good_def same_loopD)
qed

lemma keeps_timer_op:
  assumes "base_inv {} ys s" and "loop_good s"
  shows "\<exists>s'. run_timer_op x s = Some s' \<and> keeps ys s s'"
proof -
  note r = keeps_refl [OF assms]
  have i: "timers_inv s" using assms(2) by (simp add: loop_good_def)
  have start: "\<exists>s'. uv_timer_start h (Some c) to p s = Some (0, s') \<and> keeps ys s s'" if "live_timer h s" for h c to p
  proof -
    note l = live_timerD [OF that] liveD(2) [OF live_timer_live(1) [OF that]]
    from uv_timer_start_ok [OF i l(1,2), of c to p] show ?thesis
      using keeps_timer [OF assms l(2)] assms(1) l(3) by blast
  qed
  show ?thesis
  proof (cases x)
    case (OpStop h)
    show ?thesis
    proof (cases "live_timer h s")
      case True
      note l = live_timerD [OF True]
      obtain s' where s': "uv_timer_stop h s = Some (0, s')" "timers_inv s'" "s' = uv__handle_stop h (s\<lparr>timer_heap := timer_heap s'\<rparr>)"
        using uv_timer_stop_ok [OF i l] by blast
      note f = stop_frames [OF s'(3)]
      have "keeps ys s s'"
        using keeps_timer [OF assms l(2) s'(2) f(8) [OF l(1) assms(1)] f(3) f(5) f(7)] .
      then show ?thesis using OpStop True s'(1) by simp
    qed (use OpStop r in simp)
  next
    case (OpStart h c to p)
    then show ?thesis using start [of h c "max 1 to" p] r by (cases "live_timer h s") auto
  next
    case (OpAgain h)
    show ?thesis
    proof (cases "live_timer h s")
      case True
      note l = live_timerD [OF True] liveD(2) [OF live_timer_live(1) [OF True]]
      show ?thesis
      proof (cases "timer_cb (timers s h) = None \<or> repeat (timers s h) = 0")
        case True
        then show ?thesis
          using r OpAgain uv_timer_again_null [of s h] uv_timer_again_once [of s h]
          by (cases "timer_cb (timers s h) = None") auto
      next
        case False
        then obtain c where "timer_cb (timers s h) = Some c" "repeat (timers s h) \<noteq> 0" by auto
        from uv_timer_again_repeat [OF i l(1,2) this] obtain s' where "uv_timer_again h s = Some (0, s')" "keeps ys s s'"
          using keeps_timer [OF assms l(2)] assms(1) l(3) by blast
        then show ?thesis using OpAgain r by auto
      qed
    qed (use OpAgain r in simp)
  next
    case (OpSetRepeat h p)
    have "keeps ys s (uv_timer_set_repeat h p s)" if "live_timer h s"
      by (rule keeps_timer [OF assms live_timerD(2) [OF that] uv_timer_set_repeat_inv [OF i], where w = "flags_of s h"])
        (use assms(1) in \<open>auto simp: uv_timer_set_repeat_def same_loop_def base_inv_timer_upds\<close>)
    then show ?thesis using OpSetRepeat r by simp
  qed
qed

lemma timers_inv_watcher [inv_intros]:
  assumes "timers_inv s" and "htype (handles s h) = wtype k"
  shows "timers_inv (snd (uv_watcher_start k h c s))" "timers_inv (snd (uv_watcher_stop k h s))"
proof -
  have "htype (handles s h) \<noteq> UV_TIMER" using assms(2) by simp
  then show "timers_inv (snd (uv_watcher_start k h c s))" "timers_inv (snd (uv_watcher_stop k h s))"
    using assms(1) by (auto simp: uv_watcher_start_def uv_watcher_stop_def Let_def intro!: timers_inv_other)
qed

lemma watcher_op_frames [simp]:
  "htype (handles (snd (uv_watcher_start k h c s)) x) = htype (handles s x)"
  "htype (handles (snd (uv_watcher_stop k h s)) x) = htype (handles s x)"
  "close_cb (handles (snd (uv_watcher_start k h c s)) x) = close_cb (handles s x)"
  "close_cb (handles (snd (uv_watcher_stop k h s)) x) = close_cb (handles s x)"
  "trace (snd (uv_watcher_start k h c s)) = trace s" "trace (snd (uv_watcher_stop k h s)) = trace s"
  "members (snd (uv_watcher_stop k h s)) = members s"
  "bit (flags_of (snd (uv_watcher_stop k h s)) h) 0 = bit (flags_of s h) 0"
  "\<not> bit (flags_of (snd (uv_watcher_stop k h s)) h) 2"
  by (auto simp: uv_watcher_start_def uv_watcher_stop_def is_active_bit Let_def members_def)

lemma keeps_watcher_op:
  assumes "base_inv {} ys s" and "loop_good s"
  shows "keeps ys s (run_watcher_op x s)"
proof (cases x)
  case (OpWStart k h c)
  have "keeps ys s (snd (uv_watcher_start k h (Some c) s))" if "live_watcher k h s"
    using that assms liveD [OF live_timer_live(2) [OF that]]
    by (auto simp: keeps_def loop_good_def live_watcher_def intro: uv_watcher_base_inv timers_inv_watcher uv_watcher_start_inv)
  then show ?thesis using OpWStart keeps_refl [OF assms] by simp
next
  case (OpWStop k h)
  have "keeps ys s (snd (uv_watcher_stop k h s))" if "live_watcher k h s"
    using that assms liveD [OF live_timer_live(2) [OF that]]
    by (auto simp: keeps_def loop_good_def live_watcher_def intro: uv_watcher_base_inv timers_inv_watcher uv_watcher_stop_inv)
  then show ?thesis using OpWStop keeps_refl [OF assms] by simp
qed

text \<open>Closing: whatever the kind, a step that makes the handle inactive and then its entry on the list.\<close>

lemma loop_good_cong:
  assumes "loop_good s" and "uv_loop.more s' = uv_loop.more s" and "members s' = members s"
    and "\<And>x. htype (handles s' x) = htype (handles s x)" and "\<And>x. bit (flags_of s' x) 2 = bit (flags_of s x) 2"
  shows "loop_good s'"
proof -
  have e: "timer_heap s' = timer_heap s" "timers s' = timers s" "timer_counter s' = timer_counter s"
    "wqueue s' = wqueue s" "wlocal s' = wlocal s" "watcher_cb s' = watcher_cb s"
    using assms(2) by (cases s; cases s'; simp)+
  have "active_timers s' = active_timers s" "active_watchers k s' = active_watchers k s" for k
    unfolding active_timers_def active_watchers_def assms(3-5) by simp_all
  then show ?thesis using assms(1) e by (simp add: loop_good_def timers_inv_def watchers_inv_def)
qed

lemma keeps_close_pending:
  assumes "base_inv {h} ys s1" and "loop_good s1" and "h \<in> members s1" and "h \<notin> set ys"
    and "bit (flags_of s1 h) 0" and "\<not> bit (flags_of s1 h) 2" and "trace s1 = trace s"
    and "\<And>x. x \<in> set ys \<Longrightarrow> htype (handles s1 x) = htype (handles s x) \<and> close_cb (handles s1 x) = close_cb (handles s x)"
  shows "\<exists>s'. uv__make_close_pending h s1 = Some s' \<and> keeps ys s s' \<and> closing_handles s' = Some h"
proof -
  obtain s' where s': "uv__make_close_pending h s1 = Some s'" "base_inv {} ys s'" "members s' = members s1"
    "uv_loop.more s' = uv_loop.more s1" "trace s' = trace s1" "closing_handles s' = Some h"
    "handles s' = (handles s1)(h := (handles s1 h)\<lparr>next_closing := closing_handles s1\<rparr>)"
    using make_close_pending [of h "{}" ys s1] assms by auto
  have "loop_good s'" by (rule loop_good_cong [OF assms(2) s'(4,3)]) (simp_all add: s'(7))
  then show ?thesis using s' assms(4,7,8) by (auto simp: keeps_def)
qed

lemma closing_list: "base_inv D ys s \<Longrightarrow> x \<in> set ys \<Longrightarrow> x \<in> members s \<and> bit (flags_of s x) 0"
  by (auto simp: base_inv_def closing_ok_def closing_def)

lemma live_not_listed: "base_inv D ys s \<Longrightarrow> live h s \<Longrightarrow> h \<notin> set ys"
  using closing_list liveD(2) by blast

lemma uv_close_mark:
  "uv_close K others h c s =
     (if uv__is_closing h s then None
      else do {
        s' \<leftarrow> close_by_type K others h (mark_closing h c s);
        if htype (handles s h) = UV_SIGNAL then Some s' else uv__make_close_pending h s'
      })"
  by (simp add: uv_close_def mark_closing_def set_flag_def Let_def)

lemma uv_timer_close_mark:
  assumes "timers_inv s" and "h \<in> members s" and "htype (handles s h) = UV_TIMER"
  shows "\<exists>s'. uv__timer_close h s = Some s' \<and> timers_inv s' \<and> (\<exists>H. s' = uv__handle_stop h (s\<lparr>timer_heap := H\<rparr>))"
  using uv_timer_stop_ok [OF assms] by (auto simp: uv__timer_close_def)

text \<open>A handle after the part of \<open>uv_close\<close> that depends on its kind, before it is put on the list.\<close>

definition closed_down :: "hid \<Rightarrow> hid list \<Rightarrow> 'a poll_loop_scheme \<Rightarrow> 'a poll_loop_scheme \<Rightarrow> bool" where
  "closed_down h ys s s1 \<longleftrightarrow> base_inv {h} ys s1 \<and> loop_good s1 \<and> members s1 = members s \<and>
     bit (flags_of s1 h) 0 \<and> \<not> bit (flags_of s1 h) 2 \<and> trace s1 = trace s \<and>
     (\<forall>x\<in>set ys. htype (handles s1 x) = htype (handles s x) \<and> close_cb (handles s1 x) = close_cb (handles s x))"

lemma mark_closing_ok:
  assumes "base_inv {} ys s" and "loop_good s" and "live h s"
  shows "base_inv {h} ys (mark_closing h c s)" "timers_inv (mark_closing h c s)" "watchers_inv (mark_closing h c s)"
    "h \<in> members (mark_closing h c s)" "bit (flags_of (mark_closing h c s) h) 0"
proof -
  note l = liveD [OF assms(3)]
  show "base_inv {h} ys (mark_closing h c s)" by (rule base_inv_mark [OF assms(1) l])
  show "timers_inv (mark_closing h c s)" "watchers_inv (mark_closing h c s)"
    using assms(2) timers_inv_other(5) watchers_inv_other(5) by (auto simp: loop_good_def)
  show "h \<in> members (mark_closing h c s)" "bit (flags_of (mark_closing h c s) h) 0" using l(1) by simp_all
qed

lemma close_watcher_down:
  assumes "base_inv {} ys s" and "loop_good s" and "live h s" and "htype (handles s h) = wtype k"
  shows "closed_down h ys s (snd (uv_watcher_stop k h (mark_closing h c s)))"
proof -
  note m = mark_closing_ok [OF assms(1-3), of c]
  have t: "htype (handles (mark_closing h c s) h) = wtype k" using assms(4) by simp
  have "loop_good (snd (uv_watcher_stop k h (mark_closing h c s)))"
    "base_inv {h} ys (snd (uv_watcher_stop k h (mark_closing h c s)))"
    unfolding loop_good_def
    by (intro conjI timers_inv_watcher uv_watcher_stop_inv uv_watcher_base_inv m t)+
  then show ?thesis using m(5) live_not_listed [OF assms(1,3)] by (auto simp: closed_down_def)
qed

lemma close_timer_down:
  assumes "base_inv {} ys s" and "loop_good s" and "live h s" and "htype (handles s h) = UV_TIMER"
  shows "\<exists>s1. uv__timer_close h (mark_closing h c s) = Some s1 \<and> closed_down h ys s s1"
proof -
  let ?m = "mark_closing h c s"
  note m = mark_closing_ok [OF assms(1-3), of c]
  obtain s1 H where s1: "uv__timer_close h ?m = Some s1" "timers_inv s1" "s1 = uv__handle_stop h (?m\<lparr>timer_heap := H\<rparr>)"
    using uv_timer_close_mark [OF m(2,4)] assms(4) by auto
  note f = stop_frames [OF s1(3)]
  have "watchers_inv s1"
    by (rule watchers_inv_timer [where h = h and s = ?m]) (use assms(4) m(3) f in \<open>auto simp: same_loop_members\<close>)
  then show ?thesis
    using s1(1,2) f(6,7) f(8) [OF m(4,1)] live_not_listed [OF assms(1,3)] same_loopD(2) [OF f(3)]
    by (intro exI [of _ s1]) (auto simp: closed_down_def loop_good_def)
qed

lemma close_async_down:
  assumes "base_inv {} ys s" and "loop_good s" and "live h s" and "htype (handles s h) = UV_ASYNC"
  shows "closed_down h ys s (uv__async_close h (mark_closing h c s))"
proof -
  let ?m = "mark_closing h c s"
  let ?q = "?m\<lparr>async_handles := remove1 h (async_handles ?m), async_local := remove1 h (async_local ?m)\<rparr>"
  note m = mark_closing_ok [OF assms(1-3), of c]
  have q: "timers_inv ?q" "watchers_inv ?q" "base_inv {h} ys ?q" "members ?q = members s"
    using m(1-3) by (auto simp: active_timers_def active_watchers_def members_def
        elim!: base_inv_cong timers_inv_cong watchers_inv_cong)
  have t: "htype (handles ?q h) = UV_ASYNC" "h \<in> members ?q" using assms(4) m(4) by (simp_all add: members_def)
  have "UV_ASYNC \<noteq> wtype k" for k by (cases k) simp_all
  then have "loop_good (uv__handle_stop h ?q)" "base_inv {h} ys (uv__handle_stop h ?q)"
    using q t by (auto simp: loop_good_def intro!: timers_inv_other watchers_inv_other base_inv_stop)
  then show ?thesis using q(4) m(5) live_not_listed [OF assms(1,3)] by (auto simp: closed_down_def uv__async_close_def Let_def)
qed

lemma keeps_close:
  assumes "base_inv {} ys s" and "loop_good s" and "live h s"
    and "htype (handles s h) \<in> {UV_TIMER, UV_PREPARE, UV_CHECK, UV_IDLE, UV_ASYNC}"
  shows "\<exists>s'. uv_close K others h c s = Some s' \<and> keeps ys s s' \<and> closing_handles s' = Some h"
proof -
  have n: "htype (handles s h) \<noteq> UV_SIGNAL" using assms(4) by auto
  obtain s1 where s1: "close_by_type K others h (mark_closing h c s) = Some s1" "closed_down h ys s s1"
    using close_timer_down [OF assms(1-3), of c] close_async_down [OF assms(1-3), of c]
      close_watcher_down [OF assms(1-3), of WPrepare c] close_watcher_down [OF assms(1-3), of WCheck c]
      close_watcher_down [OF assms(1-3), of WIdle c] assms(4)
    by (auto simp: close_by_type_def uv__watcher_close_def)
  note d = s1(2) [unfolded closed_down_def]
  have "\<not> uv__is_closing h s" using assms(3) by (simp add: live_def)
  moreover have "h \<in> members s1" using d liveD(1) [OF assms(3)] by simp
  ultimately show ?thesis
    using keeps_close_pending [of h ys s1 s] d live_not_listed [OF assms(1,3)] s1(1) n by (simp add: uv_close_mark)
qed

lemma keeps_init_timer:
  assumes "base_inv {} ys s" and "loop_good s" and "h \<notin> members s"
  shows "keeps ys s (snd (uv_timer_init h s))"
proof -
  have "h \<notin> set ys" using closing_list [OF assms(1)] assms(3) by blast
  moreover have "watchers_inv (snd (uv_timer_init h s))"
  proof -
    let ?u = "upd_timer h (\<lambda>t. t\<lparr>timer_cb := None, repeat := 0\<rparr>) (uv__handle_init h UV_TIMER s)"
    have w: "watchers_inv (uv__handle_init h UV_TIMER s)"
      using assms(2,3) by (intro watchers_inv_other) (simp_all add: loop_good_def)
    have "snd (uv_timer_init h s) = ?u" by (simp add: uv_timer_init_def Let_def)
    moreover have "timer_loop.more ?u = timer_loop.more (uv__handle_init h UV_TIMER s)" by simp
    ultimately show ?thesis
      using watchers_inv_cong [OF w, of ?u] more_watchers [of ?u "uv__handle_init h UV_TIMER s"] by simp
  qed
  ultimately show ?thesis
    using assms base_inv_init [OF assms(1,3), of UV_TIMER] uv_timer_init_inv [of s h]
    by (auto simp: keeps_def loop_good_def uv_timer_init_def Let_def base_inv_timer_upds)
qed

lemma keeps_init_watcher:
  assumes "base_inv {} ys s" and "loop_good s" and "h \<notin> members s"
  shows "keeps ys s (snd (uv_watcher_init k h s))"
proof -
  have "h \<notin> set ys" using closing_list [OF assms(1)] assms(3) by blast
  moreover have "timers_inv (snd (uv_watcher_init k h s))"
    using assms(2,3) by (auto simp: uv_watcher_init_def Let_def loop_good_def intro: timers_inv_other)
  ultimately show ?thesis
    using assms uv_watcher_init_inv [of s h k] uv_watcher_base_inv(3) [OF assms(1,3), of k]
    by (auto simp: keeps_def loop_good_def uv_watcher_init_def Let_def)
qed

lemma keeps_ref:
  assumes "base_inv {} ys s" and "loop_good s" and "live h s"
  shows "keeps ys s (uv_ref h s)" "keeps ys s (uv_unref h s)"
  using assms liveD [OF assms(3)]
  by (auto simp: keeps_def loop_good_def uv_ref_def uv_unref_def intro: base_inv_ref base_inv_unref timers_inv_other watchers_inv_other)

lemma keeps_stop: "base_inv {} ys s \<Longrightarrow> loop_good s \<Longrightarrow> keeps ys s (uv_stop s)"
proof -
  assume a: "base_inv {} ys s" "loop_good s"
  have "base_inv {} ys (uv_stop s)" by (rule base_inv_cong [OF a(1)]) (simp_all add: uv_stop_def)
  moreover have "loop_good (uv_stop s)" by (rule loop_good_cong [OF a(2)]) (simp_all add: uv_stop_def members_def)
  ultimately show ?thesis by (simp add: keeps_def uv_stop_def)
qed

lemma keeps_loop_op:
  assumes "base_inv {} ys s" and "loop_good s"
  shows "\<exists>s'. run_loop_op K x s = Some s' \<and> keeps ys s s'"
proof -
  note r = keeps_refl [OF assms]
  show ?thesis
  proof (cases x)
    case (LTimer t)
    then show ?thesis using keeps_timer_op [OF assms] by simp
  next
    case (LWatch w)
    then show ?thesis using keeps_watcher_op [OF assms] by simp
  next
    case (LClose h c)
    then show ?thesis using keeps_close [OF assms, of h K "\<lambda>_ _ _. None" c] r by auto
  next
    case (LInitTimer h)
    then show ?thesis using keeps_init_timer [OF assms, of h] r by (auto simp: members_def)
  next
    case (LInitWatch k h)
    then show ?thesis using keeps_init_watcher [OF assms, of h k] r by (auto simp: members_def)
  qed (use keeps_ref [OF assms] keeps_stop [OF assms] r in auto)
qed

lemma keeps_loop_ops: "base_inv {} ys s \<Longrightarrow> loop_good s \<Longrightarrow> \<exists>s'. run_loop_ops K xs s = Some s' \<and> keeps ys s s'"
proof (induction xs arbitrary: s)
  case Nil
  then show ?case by (simp add: keeps_refl)
next
  case (Cons x xs)
  then obtain s1 where s1: "run_loop_op K x s = Some s1" "keeps ys s s1" using keeps_loop_op by blast
  then have "base_inv {} ys s1" "loop_good s1" by (simp_all add: keeps_def)
  then obtain s2 where "run_loop_ops K xs s1 = Some s2" "keeps ys s1 s2" using Cons.IH by blast
  then show ?case using s1 keeps_trans by auto
qed

lemma loop_good_drop:
  assumes "loop_good s" and "bit (flags_of s h) 0" and "\<not> bit (flags_of s h) 2"
    and "distinct (handle_queue s @ walk_queue s)"
  shows "loop_good (drop_handle h s)"
proof -
  let ?s = "drop_handle h s"
  have e: "timer_heap ?s = timer_heap s" "timers ?s = timers s" "timer_counter ?s = timer_counter s"
    "wqueue ?s = wqueue s" "wlocal ?s = wlocal s" "watcher_cb ?s = watcher_cb s"
    by (simp_all add: drop_handle_def set_flag_def Let_def upd_handle_def macro_defs)
  have "active_timers ?s = active_timers s" "active_watchers k ?s = active_watchers k s" for k
    unfolding active_timers_def active_watchers_def members_drop [OF assms(4)]
    using assms(3) by (auto split: if_splits)
  then show ?thesis using assms(1) e by (simp add: loop_good_def timers_inv_def watchers_inv_def)
qed

interpretation loop_closing: closing_client "loop_script K prog" loop_good for K :: kernel and prog :: "cb \<Rightarrow> loop_op list"
proof
  fix ys :: "hid list" and s :: "'a poll_loop_scheme" and h :: hid and c :: cb
  assume "base_inv {} ys s" "loop_good s" "h \<notin> members s"
  then show "\<exists>s'. loop_script K prog c h s = Some s' \<and> base_inv {} ys s' \<and> loop_good s' \<and> trace s' = trace s \<and>
      (\<forall>x\<in>set ys. htype (handles s' x) = htype (handles s x) \<and> close_cb (handles s' x) = close_cb (handles s x))"
    using keeps_loop_ops [of ys s K "prog c"] by (simp add: loop_script_def keeps_def)
next
  fix s :: "'a poll_loop_scheme" and t p
  assume g: "loop_good s"
  show "loop_good (s\<lparr>trace := t\<rparr>)" "loop_good (s\<lparr>closing_handles := p\<rparr>)"
    by (rule loop_good_cong [OF g]; simp add: members_def)+
qed (auto intro: loop_good_drop)


text \<open>A loop without handles, for the witnesses.\<close>

definition fresh_poll_loop :: "u64 \<Rightarrow> poll_loop" where
  "fresh_poll_loop now = async_loop.extend
     (io_loop.extend (fresh_io_loop now)
        \<lparr>async_handles = [], async_local = [], async_wfd = - 1, asyncs = (\<lambda>_. \<lparr>async_cb = None, async_pending = False\<rparr>)\<rparr>)
     \<lparr>poll_cb = (\<lambda>_. None)\<rparr>"

lemmas fresh_loop_defs = fresh_poll_loop_def async_loop.extend_def io_loop.extend_def fresh_io_loop_def
  watcher_loop.extend_def fresh_watcher_loop_def timer_loop.extend_def fresh_timer_loop_def

lemma fresh_poll_loop_eqs [simp]:
  "members (fresh_poll_loop now) = {}" "handle_queue (fresh_poll_loop now) = []" "walk_queue (fresh_poll_loop now) = []"
  "closing_handles (fresh_poll_loop now) = None" "active_handles (fresh_poll_loop now) = 0" "active_reqs (fresh_poll_loop now) = 0"
  "trace (fresh_poll_loop now) = []" "stop_flag (fresh_poll_loop now) = False" "pending_queue (fresh_poll_loop now) = []"
  "watcher_queue (fresh_poll_loop now) = []" "nfds (fresh_poll_loop now) = 0" "watchers (fresh_poll_loop now) = []"
  "wqueue (fresh_poll_loop now) = (\<lambda>_. [])" "wlocal (fresh_poll_loop now) = (\<lambda>_. [])" "time (fresh_poll_loop now) = now"
  "io_watchers (fresh_poll_loop now) = (\<lambda>_. \<lparr>io_cb = UV__POLL_IO, iofd = - 1, ioevents = 0, pevents = 0\<rparr>)"
  by (simp_all add: fresh_loop_defs members_def)

lemma fresh_poll_loop_ok: "base_inv {} [] (fresh_poll_loop now)" "loop_good (fresh_poll_loop now)" "io_inv (fresh_poll_loop now)"
proof -
  show "base_inv {} [] (fresh_poll_loop now)"
    by (simp add: base_inv_def count_ok_def flags_ok_def closing_ok_def counted_def closing_def)
  have "timer_heap (fresh_poll_loop now) = timer_heap (fresh_timer_loop now)" "timers (fresh_poll_loop now) = timers (fresh_timer_loop now)"
    by (simp_all add: fresh_loop_defs)
  then have "timers_inv (fresh_poll_loop now)"
    using fresh_timer_loop_inv(1) [of now] by (simp add: timers_inv_def active_timers_def members_def fresh_timer_loop_def)
  then show "loop_good (fresh_poll_loop now)" by (simp add: loop_good_def watchers_inv_def active_watchers_def)
  show "io_inv (fresh_poll_loop now)" by (simp add: io_inv_def registered_def)
qed

lemma demo_closed:
  "\<exists>s. run_loop_ops K [LInitTimer 2, LInitWatch WIdle 3, LClose 2 (Some 7), LClose 3 (Some 8)] (fresh_poll_loop 0) = Some s \<and>
     keeps [] (fresh_poll_loop 0) s \<and> chain (handles s) (closing_handles s) [3, 2] \<and>
     (\<forall>h\<in>{2, 3}. plain_kind (htype (handles s h))) \<and> close_calls s [3, 2] = [(8, 3), (7, 2)]"
proof -
  obtain s where s: "run_loop_ops K [LInitTimer 2, LInitWatch WIdle 3, LClose 2 (Some 7), LClose 3 (Some 8)] (fresh_poll_loop 0) = Some s"
    "keeps [] (fresh_poll_loop 0) s"
    using keeps_loop_ops [OF fresh_poll_loop_ok(1,2)] by blast
  moreover have "chain (handles s) (closing_handles s) [3, 2] \<and> (\<forall>h\<in>{2, 3}. plain_kind (htype (handles s h))) \<and>
      close_calls s [3, 2] = [(8, 3), (7, 2)]"
    using s(1)
    by (auto simp: live_def is_closing_bit is_active_bit uv_close_mark close_by_type_def uv__timer_close_def uv_timer_stop_def
        uv_timer_init_def uv_watcher_init_def uv__watcher_close_def uv_watcher_stop_def uv__make_close_pending_def
        flag_simps Let_def close_calls_def plain_kind_def)
  ultimately show ?thesis by blast
qed


subsection \<open>How long the loop may block\<close>

lemma closing_handles_None: "base_inv {} [] s \<Longrightarrow> closing_handles s = None \<longleftrightarrow> closing s = {}"
proof -
  assume "base_inv {} [] s"
  then obtain xs where "chain (handles s) (closing_handles s) xs" "set xs = closing s"
    using base_invD(4) unfolding closing_ok_def by fastforce
  then show ?thesis by (cases xs) auto
qed

lemma active_handles_zero:
  assumes "base_inv {} [] s" and "card (counted s) < 2 ^ 32"
  shows "uv__has_active_handles s \<longleftrightarrow> counted s \<noteq> {}"
proof -
  have "active_handles s = of_nat (card (counted s))" using base_invD(2) [OF assms(1)] by (simp add: count_ok_def)
  moreover have "(of_nat (card (counted s)) :: u32) = 0 \<longleftrightarrow> card (counted s) = 0"
    using assms(2) by (simp add: word_of_nat_eq_0_iff dvd_eq_mod_eq_0)
  ultimately show ?thesis by (simp add: uv__has_active_handles_def word_gt_0)
qed

text \<open>What must be done without waiting.\<close>

definition work_waiting :: "'a io_loop_scheme \<Rightarrow> bool" where
  "work_waiting s \<longleftrightarrow> stop_flag s \<or> (counted s = {} \<and> active_reqs s = 0) \<or> active_watchers WIdle s \<noteq> {} \<or>
     pending_queue s \<noteq> [] \<or> closing s \<noteq> {} \<or> due s \<noteq> {}"

lemma next_timeout_cases:
  assumes "timers_inv s"
  shows "uv__next_timeout s = 0 \<longleftrightarrow> due s \<noteq> {}" and "uv__next_timeout s = - 1 \<longleftrightarrow> active_timers s = {}"
    and "- 1 \<le> uv__next_timeout s" and "uv__next_timeout s \<le> INT_MAX"
    and "h \<in> active_timers s \<Longrightarrow> uint (time s) + uv__next_timeout s \<le> max (uint (time s)) (uint (timeout (timers s h)))"
proof -
  define m where "m = Min ((\<lambda>h. uint (timeout (timers s h))) ` active_timers s)"
  have nt: "uv__next_timeout s = (if active_timers s = {} then - 1
      else if m \<le> uint (time s) then 0 else min (m - uint (time s)) INT_MAX)"
    unfolding m_def by (subst next_timeout_min [OF assms]) (simp add: Let_def)
  have le: "m \<le> uint (timeout (timers s h))" if "h \<in> active_timers s" for h
    unfolding m_def using that by (intro Min_le) auto
  have mem: "\<exists>h\<in>active_timers s. m = uint (timeout (timers s h))" if "active_timers s \<noteq> {}"
  proof -
    have "m \<in> (\<lambda>h. uint (timeout (timers s h))) ` active_timers s" unfolding m_def using that by (intro Min_in) auto
    then show ?thesis by auto
  qed
  have I: "INT_MAX > 0" by (simp add: INT_MAX_def)
  have "due s \<noteq> {} \<longleftrightarrow> active_timers s \<noteq> {} \<and> m \<le> uint (time s)"
    using mem le by (fastforce simp: due_def word_le_def)
  then show "uv__next_timeout s = 0 \<longleftrightarrow> due s \<noteq> {}" using I by (auto simp: nt)
  show "uv__next_timeout s = - 1 \<longleftrightarrow> active_timers s = {}" "- 1 \<le> uv__next_timeout s" "uv__next_timeout s \<le> INT_MAX"
    using I by (auto simp: nt)
  show "uint (time s) + uv__next_timeout s \<le> max (uint (time s)) (uint (timeout (timers s h)))" if "h \<in> active_timers s"
    using le [OF that] that by (auto simp: nt)
qed

text \<open>
  C15. The timeout the loop passes to the poll. It is 0 exactly when there is something to do now: the loop is stopped or
  has nothing left to wait for, an idle watcher, a pending callback, a closing handle or a due timer. It is -1,
  for ever, exactly when none of that holds and no timer is active. Otherwise the loop wakes up no
  later than any active timer is due.
\<close>

theorem backend_timeout_sound:
  assumes "base_inv {} [] s" and "loop_good s" and "wlocal s WIdle = []" and "card (counted s) < 2 ^ 32"
  shows "(uv_backend_timeout s = 0 \<longleftrightarrow> work_waiting s) \<and>
    (uv_backend_timeout s = - 1 \<longleftrightarrow> \<not> work_waiting s \<and> active_timers s = {}) \<and>
    - 1 \<le> uv_backend_timeout s \<and> uv_backend_timeout s \<le> INT_MAX \<and>
    (\<forall>h\<in>active_timers s. uint (time s) + uv_backend_timeout s \<le> max (uint (time s)) (uint (timeout (timers s h))))"
proof -
  have g: "timers_inv s" "watchers_inv s" using assms(2) by (simp_all add: loop_good_def)
  have i: "wqueue s WIdle \<noteq> [] \<longleftrightarrow> active_watchers WIdle s \<noteq> {}"
    using watchers_invD(2) [OF g(2), of WIdle] assms(3) by auto
  have "uv__has_active_reqs s \<longleftrightarrow> active_reqs s \<noteq> 0" by (simp add: uv__has_active_reqs_def word_gt_0)
  then have w: "uv_backend_timeout s = (if work_waiting s then 0 else uv__next_timeout s)"
    using active_handles_zero [OF assms(1,4)] closing_handles_None [OF assms(1)] i next_timeout_cases(1) [OF g(1)]
    by (auto simp: uv_backend_timeout_def work_waiting_def)
  note n = next_timeout_cases [OF g(1)]
  have z: "uv__next_timeout s \<noteq> 0" if "\<not> work_waiting s" using n(1) that by (simp add: work_waiting_def)
  show ?thesis
    using n(2-5) z by (auto simp: w INT_MAX_def)
qed

lemma demo_armed:
  "\<exists>s. run_loop_ops K [LInitTimer 2, LTimer (OpStart 2 7 5 0)] (fresh_poll_loop 3) = Some s \<and>
     keeps [] (fresh_poll_loop 3) s \<and> wlocal s WIdle = [] \<and> card (counted s) < 2 ^ 32"
proof -
  obtain s where s: "run_loop_ops K [LInitTimer 2, LTimer (OpStart 2 7 5 0)] (fresh_poll_loop 3) = Some s"
    "keeps [] (fresh_poll_loop 3) s"
    using keeps_loop_ops [OF fresh_poll_loop_ok(1,2)] by blast
  let ?i = "snd (uv_timer_init 2 (fresh_poll_loop 3))"
  have i: "timers_inv ?i" "2 \<in> members ?i" "htype (handles ?i 2) = UV_TIMER"
    using fresh_poll_loop_ok(2) [of 3] uv_timer_init_inv [of "fresh_poll_loop 3" 2] by (auto simp: loop_good_def)
  have l: "live_timer 2 ?i" by (simp add: live_timer_def is_closing_bit uv_timer_init_def Let_def)
  obtain s' where s': "uv_timer_start 2 (Some 7) 5 0 ?i = Some (0, s')" "same_loop ?i s'" "timer_loop.more s' = timer_loop.more ?i"
    using uv_timer_start_ok [OF i, of 7 5 0] by blast
  have "s = s'" using s(1) s'(1) l by (simp add: max_def)
  moreover have "wlocal ?i WIdle = []" by (simp add: uv_timer_init_def upd_timer_def Let_def)
  ultimately have "wlocal s WIdle = []" using more_watchers(2) [OF s'(3)] by simp
  moreover have "members s = {2}" using \<open>s = s'\<close> same_loop_members [OF s'(2)] by simp
  then have "card (counted s) \<le> 1" using card_mono [of "{2}" "counted s"] by (auto simp: counted_def)
  ultimately show ?thesis using s by auto
qed

theorem backend_timeout_sound_witness:
  "\<forall>K. \<exists>s. run_loop_ops K [LInitTimer 2, LTimer (OpStart 2 7 5 0)] (fresh_poll_loop 3) = Some s \<and>
     (uv_backend_timeout s = 0 \<longleftrightarrow> work_waiting s) \<and> uv_backend_timeout s \<le> INT_MAX"
proof
  fix K :: kernel
  show "\<exists>s. run_loop_ops K [LInitTimer 2, LTimer (OpStart 2 7 5 0)] (fresh_poll_loop 3) = Some s \<and>
     (uv_backend_timeout s = 0 \<longleftrightarrow> work_waiting s) \<and> uv_backend_timeout s \<le> INT_MAX"
    using demo_armed [of K] backend_timeout_sound fresh_poll_loop_ok unfolding keeps_def by blast
qed

subsection \<open>An iteration of the loop\<close>

text \<open>What running timers leaves alone when the callbacks do nothing.\<close>

definition timer_frame :: "'a timer_loop_scheme \<Rightarrow> 'a timer_loop_scheme \<Rightarrow> bool" where
  "timer_frame s s' \<longleftrightarrow> handle_queue s' = handle_queue s \<and> walk_queue s' = walk_queue s \<and> closing_handles s' = closing_handles s \<and>
     time s' = time s \<and> stop_flag s' = stop_flag s \<and> active_reqs s' = active_reqs s \<and> timer_loop.more s' = timer_loop.more s \<and>
     (\<forall>x. htype (handles s' x) = htype (handles s x) \<and> close_cb (handles s' x) = close_cb (handles s x) \<and>
        next_closing (handles s' x) = next_closing (handles s x) \<and>
        (\<forall>n. n \<noteq> 2 \<or> htype (handles s x) \<noteq> UV_TIMER \<longrightarrow> bit (flags_of s' x) n = bit (flags_of s x) n))"

lemma timer_frame_refl: "timer_frame s s"
  by (simp add: timer_frame_def)

lemma timer_frame_trans: "timer_frame s s' \<Longrightarrow> timer_frame s' s'' \<Longrightarrow> timer_frame s s''"
  by (auto simp: timer_frame_def)

lemma timer_frame_flags:
  assumes "htype (handles s h) = UV_TIMER" and "handles s' = (handles s)(h := (handles s h)\<lparr>hflags := w\<rparr>)"
    and "\<And>n. n \<noteq> 2 \<Longrightarrow> bit w n = bit (flags_of s h) n" and "same_loop s s'" and "timer_loop.more s' = timer_loop.more s"
  shows "timer_frame s s'"
  using assms by (auto simp: timer_frame_def same_loop_def)

lemma timer_frame_stop:
  assumes "uv_timer_stop h s = Some (r, s')" and "htype (handles s h) = UV_TIMER"
  shows "timer_frame s s'"
proof (cases "uv__is_active h s")
  case True
  then obtain H where H: "s' = uv__handle_stop h (s\<lparr>timer_heap := H\<rparr>)"
    using assms(1) by (auto simp: uv_timer_stop_def bind_Some_iff)
  show ?thesis
    by (rule timer_frame_flags [OF assms(2) stop_frames(7) [OF H] _ stop_frames(3,5) [OF H]]) simp
qed (use assms(1) in \<open>simp add: uv_timer_stop_def timer_frame_refl\<close>)

lemma timer_frame_start:
  assumes "uv_timer_start h c to p s = Some (r, s')" and "htype (handles s h) = UV_TIMER"
  shows "timer_frame s s'"
proof (cases "c = None")
  case False
  then obtain q s1 u H where s1: "(if uv__is_active h s then uv_timer_stop h s else Some (0, s)) = Some (q, s1)"
    and s': "s' = uv__handle_start h ((upd_timer h u s1)\<lparr>timer_counter := timer_counter s1 + 1, timer_heap := H\<rparr>)"
    using assms(1) by (auto simp: uv_timer_start_def bind_Some_iff Let_def split: prod.splits)
  have f: "timer_frame s s1" using s1 timer_frame_stop [of h s q s1] assms(2) timer_frame_refl by (auto split: if_splits)
  then have "htype (handles s1 h) = UV_TIMER" using assms(2) by (simp add: timer_frame_def)
  then have "timer_frame s1 s'"
    by (rule timer_frame_flags [where w = "flags_of s1 h OR UV_HANDLE_ACTIVE"]) (simp_all add: s' same_loop_def)
  with f show ?thesis by (rule timer_frame_trans)
qed (use assms(1) in \<open>simp add: uv_timer_start_def timer_frame_refl\<close>)

lemma timer_frame_again:
  assumes "uv_timer_again h s = Some (r, s')" and "htype (handles s h) = UV_TIMER"
  shows "timer_frame s s'"
proof -
  consider "s' = s" | q s1 c p r' where "uv_timer_stop h s = Some (q, s1)" "uv_timer_start h c p p s1 = Some (r', s')"
    using assms(1) by (auto simp: uv_timer_again_def bind_Some_iff split: if_splits prod.splits)
  then show ?thesis
  proof cases
    case 2
    have "timer_frame s s1" using timer_frame_stop [OF 2(1) assms(2)] .
    moreover from this have "htype (handles s1 h) = UV_TIMER" using assms(2) by (simp add: timer_frame_def)
    ultimately show ?thesis using timer_frame_start [OF 2(2)] timer_frame_trans by blast
  qed (simp add: timer_frame_refl)
qed


definition no_op :: "'s client" where
  "no_op c h s = Some s"

lemma no_op_script: "loop_script K (\<lambda>_. []) = no_op"
  by (intro ext) (simp add: loop_script_def no_op_def)

lemma no_op_timers: "timer_script (\<lambda>_. []) = no_op"
  by (intro ext) (simp add: timer_script_def no_op_def)

lemma run_timers_frame:
  assumes "uv__run_timers no_op s = Some (s' :: 'a timer_loop_scheme)" and "timers_inv s"
  shows "timer_frame s s' \<and> (\<forall>ys. base_inv {} ys s \<longrightarrow> base_inv {} ys s')"
proof -
  let ?Q = "\<lambda>s s'. timer_frame s s' \<and> (\<forall>ys. base_inv {} ys s \<longrightarrow> base_inv {} ys s')"
  have "(no_op :: 'a timer_loop_scheme client) = no_op \<longrightarrow> timers_inv s \<longrightarrow> ?Q s s'"
  proof (rule uv__run_timers.raw_induct [where P = "\<lambda>call s s'. call = no_op \<longrightarrow> timers_inv s \<longrightarrow> ?Q s s'", OF _ assms(1)], intro impI)
  fix run :: "'a timer_loop_scheme client \<Rightarrow> 'a timer_loop_scheme \<Rightarrow> 'a timer_loop_scheme option" and call s s'
  assume IH: "\<And>call s s'. run call s = Some s' \<Longrightarrow> call = no_op \<longrightarrow> timers_inv s \<longrightarrow> ?Q s s'"
    and body: "(case heap_min (timer_heap s) of None \<Rightarrow> Some s
      | Some h \<Rightarrow> if time s < timeout (timers s h) then Some s
          else do { (_, s) \<leftarrow> uv_timer_stop h s; (_, s) \<leftarrow> uv_timer_again h s; c \<leftarrow> timer_cb (timers s h);
                    s \<leftarrow> invoke call c h s; run call s }) = Some s'"
    and call: "call = no_op" and I: "timers_inv s"
  show "?Q s s'"
  proof (cases "heap_min (timer_heap s)")
    case None
    then show ?thesis using body by (simp add: timer_frame_refl)
  next
    case (Some h)
    note h = timers_inv_min(1) [OF I Some]
    show ?thesis
    proof (cases "timeout (timers s h) > time s")
      case True
      then show ?thesis using body Some by (simp add: timer_frame_refl)
    next
      case False
      have t: "htype (handles s h) = UV_TIMER" using h by (simp add: active_timers_def)
      obtain c where c: "timer_cb (timers s h) = Some c" using I h by (auto simp: timers_inv_def)
      obtain s0 s1 where s1: "uv_timer_stop h s = Some (0, s0)" "uv_timer_again h s0 = Some (0, s1)" "timers_inv s1"
        "timer_cb (timers s1 h) = Some c" "\<forall>D ys. base_inv D ys s \<longrightarrow> \<not> bit (flags_of s h) 0 \<longrightarrow> base_inv D ys s1"
        using fire_step [OF I h c] by blast
      have b: "base_inv {} ys s1" if "base_inv {} ys s" for ys
      proof -
        have "\<not> bit (flags_of s h) 0" using base_inv_active [OF that, of h] h by (auto simp: active_timers_def)
        then show ?thesis using s1(5) that by blast
      qed
      let ?t = "s1\<lparr>trace := trace s1 @ [(c, h)]\<rparr>"
      have f0: "timer_frame s s0" by (rule timer_frame_stop [OF s1(1) t])
      then have "htype (handles s0 h) = UV_TIMER" using t by (simp add: timer_frame_def)
      with s1(2) have "timer_frame s0 s1" by (rule timer_frame_again)
      with f0 have "timer_frame s s1" by (rule timer_frame_trans)
      then have f: "timer_frame s ?t" by (simp add: timer_frame_def)
      have "timers_inv ?t" by (rule timers_inv_cong [OF s1(3)]) (auto simp: active_timers_def members_def)
      moreover have "run no_op ?t = Some s'"
        using body call Some False s1 by (simp add: invoke_def no_op_def)
      ultimately have "?Q ?t s'" using IH by blast
      moreover have "base_inv {} ys ?t" if "base_inv {} ys s" for ys
        by (rule base_inv_cong [OF b [OF that]]) simp_all
      ultimately show ?thesis using f timer_frame_trans by blast
    qed
  qed
  qed
  then show ?thesis using assms(2) by simp
qed


subsection \<open>The watchers and the poll when nothing happens\<close>

definition watcher_calls :: "'a watcher_loop_scheme \<Rightarrow> wkind \<Rightarrow> (cb \<times> hid) list" where
  "watcher_calls s k = map (\<lambda>h. (the (watcher_cb s h), h)) (wqueue s k)"

lemma run_watchers_no_op:
  "\<forall>h\<in>set (wlocal s k). watcher_cb s h \<noteq> None \<Longrightarrow>
    run_watchers no_op k s = Some (s\<lparr>wqueue := (wqueue s)(k := wqueue s k @ wlocal s k), wlocal := (wlocal s)(k := []),
      trace := trace s @ map (\<lambda>h. (the (watcher_cb s h), h)) (wlocal s k)\<rparr>)"
proof (induction "wlocal s k" arbitrary: s)
  case Nil
  then have e: "wlocal s k = []" by simp
  then have "(wlocal s)(k := []) = wlocal s" "(wqueue s)(k := wqueue s k @ wlocal s k) = wqueue s"
    by (metis fun_upd_triv) (simp add: e)
  moreover have "s\<lparr>wqueue := wqueue s, wlocal := wlocal s, trace := trace s @ []\<rparr> = s" by (cases s) simp
  ultimately show ?case using e by (subst run_watchers.simps) simp
next
  case (Cons h q)
  then obtain c where c: "watcher_cb s h = Some c" by (metis list.set_intros(1) not_None_eq)
  let ?s = "s\<lparr>wlocal := (wlocal s)(k := q), wqueue := (wqueue s)(k := wqueue s k @ [h]), trace := trace s @ [(c, h)]\<rparr>"
  have "run_watchers no_op k s = run_watchers no_op k ?s"
    using Cons.hyps(2) [symmetric] c by (subst run_watchers.simps) (simp add: invoke_def no_op_def Let_def)
  moreover have "\<forall>h\<in>set (wlocal ?s k). watcher_cb ?s h \<noteq> None" using Cons.prems Cons.hyps(2) [symmetric] by simp
  ultimately show ?case using Cons.hyps(1) [of ?s] Cons.hyps(2) [symmetric] c by simp
qed

lemma uv__run_watchers_no_op:
  assumes "watchers_inv s" and "wlocal s k = []"
  shows "uv__run_watchers no_op k s = Some (s\<lparr>trace := trace s @ watcher_calls s k\<rparr>)"
proof -
  let ?s = "s\<lparr>wlocal := (wlocal s)(k := wqueue s k), wqueue := (wqueue s)(k := [])\<rparr>"
  have "\<forall>h\<in>set (wlocal ?s k). watcher_cb ?s h \<noteq> None"
    using watchers_invD(2,3) [OF assms(1), where k = k] by auto
  note r = run_watchers_no_op [OF this]
  have "(wlocal s)(k := []) = wlocal s" "(wqueue s)(k := wqueue s k) = wqueue s" using assms(2) fun_upd_triv [of "wlocal s" k] by simp_all
  then have "s\<lparr>wqueue := (wqueue s)(k := wqueue s k), wlocal := (wlocal s)(k := []), trace := t\<rparr> = s\<lparr>trace := t\<rparr>" for t
    by (cases s) simp
  then show ?thesis using r by (simp add: uv__run_watchers_def watcher_calls_def)
qed

text \<open>A kernel without events: it accepts the changes of the epoll set, and every wait times out.\<close>

definition quiet_kernel :: "kernel \<Rightarrow> bool" where
  "quiet_kernel K \<longleftrightarrow> epoll_ok K \<and> (\<forall>tr e t. ret (K tr (SysEpollWait e t)) = 0) \<and>
     (\<forall>tr e t m. ret (K tr (SysEpollPwait e t m)) = 0) \<and> (\<forall>tr b. ret (K tr (SysSigmask b)) = 0)"

text \<open>The part of the loop below the I/O watchers, up to the clock.\<close>

definition same_core :: "'a io_loop_scheme \<Rightarrow> 'a io_loop_scheme \<Rightarrow> bool" where
  "same_core s s' \<longleftrightarrow> (\<exists>t. watcher_loop.truncate s' = (watcher_loop.truncate s)\<lparr>time := t\<rparr>)"

lemma same_core_trans: "same_core s s' \<Longrightarrow> same_core s' s'' \<Longrightarrow> same_core s s''"
  by (auto simp: same_core_def)

lemma same_core_simps [simp]:
  "same_core s s" "same_core s (s\<lparr>os := w\<rparr>)" "same_core s (s\<lparr>watcher_queue := q\<rparr>)" "same_core s (upd_io v f s)"
  "same_core s (s\<lparr>os := w, time := t\<rparr>)" "same_core s (snd (sysl K c s))"
  by (cases s; auto simp: same_core_def watcher_loop.truncate_def upd_io_def sysl_def split: prod.splits)+

lemma same_coreD:
  assumes "same_core s s'"
  shows "handles s' = handles s" "handle_queue s' = handle_queue s" "walk_queue s' = walk_queue s"
    "closing_handles s' = closing_handles s" "stop_flag s' = stop_flag s" "active_handles s' = active_handles s"
    "active_reqs s' = active_reqs s" "trace s' = trace s" "timer_heap s' = timer_heap s" "timers s' = timers s"
    "timer_counter s' = timer_counter s" "wqueue s' = wqueue s" "wlocal s' = wlocal s" "watcher_cb s' = watcher_cb s"
  using assms by (cases s; cases s'; auto simp: same_core_def watcher_loop.truncate_def)+

lemma same_core_inv:
  assumes "same_core s s'"
  shows "base_inv D ys s \<Longrightarrow> base_inv D ys s'" "timers_inv s \<Longrightarrow> timers_inv s'" "watchers_inv s \<Longrightarrow> watchers_inv s'"
    "active_timers s' = active_timers s"
proof -
  note e = same_coreD [OF assms]
  have m: "members s' = members s" by (simp add: members_def e)
  show a: "active_timers s' = active_timers s" by (simp add: active_timers_def m e)
  show "base_inv D ys s \<Longrightarrow> base_inv D ys s'" by (rule base_inv_cong) (simp_all add: e)
  show "timers_inv s \<Longrightarrow> timers_inv s'" by (rule timers_inv_cong) (simp_all add: e a)
  show "watchers_inv s \<Longrightarrow> watchers_inv s'" by (rule watchers_inv_cong) (simp_all add: active_watchers_def m e)
qed

lemma same_core_update_time [simp]: "same_core s (uv__update_time K s)"
  by (simp add: uv__update_time_def split: prod.splits)

lemma io_inv_cong:
  assumes "io_inv s" and "watchers s' = watchers s" and "watcher_queue s' = watcher_queue s" and "nfds s' = nfds s"
    and "io_watchers s' = io_watchers s"
  shows "io_inv s'"
proof -
  have "registered s' = registered s" by (simp add: registered_def assms(2))
  then show ?thesis using assms by (simp add: io_inv_def)
qed

lemma io_register_core:
  assumes "io_register K s = Some s'"
  shows "same_core s s'"
proof (rule io_register.raw_induct [where P = "\<lambda>K s s'. same_core s s'", OF _ assms])
  fix run and K :: kernel and s s' :: "'a io_loop_scheme"
  assume IH: "\<And>K s s'. run K s = Some s' \<Longrightarrow> same_core s s'"
    and body: "(case watcher_queue s of [] \<Rightarrow> Some s | w # q \<Rightarrow>
          let s = s\<lparr>watcher_queue := q\<rparr>; x = io_watchers s w in
          if pevents x = 0 then None
          else if \<not> iofd x \<ge> 0 then None
          else if \<not> iofd x < int (length (watchers s)) then None
          else (let op = (if ioevents x = 0 then ''ADD'' else ''MOD'');
                    (r, s) = sysl K (SysEpollCtl (backend_fd s) op (iofd x) (pevents x)) s in do {
            s \<leftarrow> (if ret r \<noteq> 0
                  then (if errno r \<noteq> EEXIST then None
                        else if op \<noteq> ''ADD'' then None
                        else (let (r, s) = sysl K (SysEpollCtl (backend_fd s) ''MOD'' (iofd x) (pevents x)) s
                              in if ret r \<noteq> 0 then None else Some s))
                  else Some s);
            run K (upd_io w (\<lambda>x. x\<lparr>ioevents := pevents x\<rparr>) s)
          })) = Some s'"
  show "same_core s s'"
  proof (cases "watcher_queue s")
    case (Cons w q)
    have k: "same_core t t'" if "sysl K c t = (r, t')" for c r and t t' :: "'a io_loop_scheme"
      using same_core_simps(6) [of t K c] that by simp
    from body Cons obtain r s1 s2 where s1: "sysl K (SysEpollCtl (backend_fd (s\<lparr>watcher_queue := q\<rparr>))
          (if ioevents (io_watchers s w) = 0 then ''ADD'' else ''MOD'') (iofd (io_watchers s w)) (pevents (io_watchers s w)))
          (s\<lparr>watcher_queue := q\<rparr>) = (r, s1)"
      and s2: "s2 = s1 \<or> (\<exists>r c. sysl K c s1 = (r, s2))"
      and run: "run K (upd_io w (\<lambda>x. x\<lparr>ioevents := pevents x\<rparr>) s2) = Some s'"
      by (auto simp: Let_def bind_Some_iff split: if_splits prod.splits)
    have "same_core s s1" using same_core_trans [OF same_core_simps(3) k [OF s1]] .
    moreover have "same_core s1 s2" using s2 k by auto
    ultimately have "same_core s s2" by (rule same_core_trans)
    then show ?thesis using IH [OF run] same_core_simps(4) same_core_trans by blast
  qed (use body in simp)
qed

lemma sysl_io_frames [simp]:
  "watchers (snd (sysl K c s)) = watchers s" "watcher_queue (snd (sysl K c s)) = watcher_queue s"
  "nfds (snd (sysl K c s)) = nfds s" "io_watchers (snd (sysl K c s)) = io_watchers s"
  by simp_all

lemma update_time_io_frames [simp]:
  "watchers (uv__update_time K s) = watchers s" "watcher_queue (uv__update_time K s) = watcher_queue s"
  "nfds (uv__update_time K s) = nfds s" "io_watchers (uv__update_time K s) = io_watchers s"
  "pending_queue (uv__update_time K s) = pending_queue s"
  by (simp_all add: uv__update_time_def split: prod.splits)

text \<open>The io part and the core of a step that only calls the kernel and reads the clock.\<close>

definition kernel_step :: "'a io_loop_scheme \<Rightarrow> 'a io_loop_scheme \<Rightarrow> bool" where
  "kernel_step s s' \<longleftrightarrow> same_core s s' \<and> watchers s' = watchers s \<and> watcher_queue s' = watcher_queue s \<and> nfds s' = nfds s \<and>
     io_watchers s' = io_watchers s"

lemma kernel_step_trans: "kernel_step s s' \<Longrightarrow> kernel_step s' s'' \<Longrightarrow> kernel_step s s''"
  unfolding kernel_step_def using same_core_trans by (elim conjE) simp

lemma kernel_step_intros:
  "kernel_step s s" "kernel_step s (snd (sysl K c s))" "kernel_step s (uv__update_time K s)" "kernel_step s (s\<lparr>os := w\<rparr>)"
  by (simp_all add: kernel_step_def)

lemma kernel_step_sysl: "sysl K c s = (r, s') \<Longrightarrow> kernel_step s s'"
  using kernel_step_intros(2) [of s K c] by simp

lemma quiet_sysl:
  assumes "quiet_kernel K"
  shows "ret (fst (sysl K (SysEpollWait e t) s)) = 0" "ret (fst (sysl K (SysEpollPwait e t m) s)) = 0"
    "ret (fst (sysl K (SysSigmask b) s)) = 0"
  using assms by (simp_all add: quiet_kernel_def sysl_def sys_def Let_def)

lemma io_wait_quiet:
  assumes "quiet_kernel K"
  shows "\<exists>r s'. io_wait K tmo s = Some (r, s') \<and> ret r = 0 \<and> kernel_step s s'"
proof -
  note q = quiet_sysl [OF assms]
  let ?mask = "sigprof_mask s"
  define block where "block = (\<lambda>on (s :: 'a io_loop_scheme). if ?mask \<noteq> 0 \<and> no_epoll_pwait (os s)
      then (let (r, s) = sysl K (SysSigmask on) s in if ret r \<noteq> 0 then None else Some s) else Some s)"
  have b: "\<exists>t'. block on t = Some t' \<and> kernel_step t t'" for on t
    using q(3) [of on t] by (auto simp: block_def Let_def kernel_step_intros(1) split: prod.splits dest: kernel_step_sysl)
  obtain s1 where s1: "block True s = Some s1" "kernel_step s s1" using b by blast
  define wait where "wait = (\<lambda>s :: 'a io_loop_scheme. if no_epoll_wait (os s) \<or> (?mask \<noteq> 0 \<and> \<not> no_epoll_pwait (os s))
           then (let (r, s) = sysl K (SysEpollPwait (backend_fd s) tmo ?mask) s
                 in (r, if ret r = - 1 \<and> errno r = ENOSYS then s\<lparr>os := (os s)\<lparr>no_epoll_pwait := True\<rparr>\<rparr> else s))
           else (let (r, s) = sysl K (SysEpollWait (backend_fd s) tmo) s
                 in (r, if ret r = - 1 \<and> errno r = ENOSYS then s\<lparr>os := (os s)\<lparr>no_epoll_wait := True\<rparr>\<rparr> else s)))"
  obtain r s2 where r: "wait s1 = (r, s2)" by (cases "wait s1")
  have w: "ret r = 0" "kernel_step s1 s2"
    using r q(1) [of "backend_fd s1" tmo s1] q(2) [of "backend_fd s1" tmo ?mask s1]
    by (auto simp: wait_def Let_def split: prod.splits if_splits dest: kernel_step_sysl)
  obtain s3 where s3: "block False s2 = Some s3" "kernel_step s2 s3" using b by blast
  have "io_wait K tmo s = do { s \<leftarrow> block True s; let (r, s) = wait s; s \<leftarrow> block False s; Some (r, uv__update_time K s) }"
    by (simp only: io_wait_def block_def wait_def Let_def)
  then have "io_wait K tmo s = Some (r, uv__update_time K s3)" using s1(1) s3(1) r by simp
  moreover have "kernel_step s (uv__update_time K s3)"
    using kernel_step_trans [OF kernel_step_trans [OF kernel_step_trans [OF s1(2) w(2)] s3(2)] kernel_step_intros(3)] .
  ultimately show ?thesis using w(1) by blast
qed

lemma io_inv_idle: "io_inv s \<Longrightarrow> nfds s = 0 \<Longrightarrow> watcher_queue s = []"
proof -
  assume a: "io_inv s" "nfds s = 0"
  note i = io_invD [OF a(1)]
  have "card (registered s) < 2 ^ 32" using a(1) card_registered [of s] by (simp add: io_inv_def)
  moreover have "(of_nat (card (registered s)) :: u32) = 0" using a by (simp add: io_inv_def)
  ultimately have "card (registered s) = 0" by (simp add: word_of_nat_eq_0_iff dvd_eq_mod_eq_0)
  then have "registered s = {}" by simp
  moreover have "\<exists>fd. fd \<in> registered s" if "w \<in> set (watcher_queue s)" for w
    using i(5) [of w] that by (auto simp: registered_def)
  ultimately show ?thesis by (cases "watcher_queue s") auto
qed

lemma uv__io_poll_quiet:
  assumes "quiet_kernel K" and "io_inv s"
  shows "\<exists>s'. uv__io_poll K icb 0 s = Some s' \<and> same_core s s' \<and> io_inv s'"
proof (cases "nfds s = 0")
  case True
  then show ?thesis using io_inv_idle [OF assms(2)] assms(2) by (intro exI [of _ s]) (simp add: uv__io_poll_def)
next
  case False
  have e: "epoll_ok K" using assms(1) by (simp add: quiet_kernel_def)
  obtain s1 where s1: "io_register K s = Some s1" "io_inv s1" using io_register_all [OF e assms(2)] by blast
  obtain r s2 where s2: "io_wait K 0 s1 = Some (r, s2)" "ret r = 0" "kernel_step s1 s2"
    using io_wait_quiet [OF assms(1)] by blast
  have "io_inv s2" using s2(3) by (intro io_inv_cong [OF s1(2)]) (simp_all add: kernel_step_def)
  moreover have "same_core s s2"
    using io_register_core [OF s1(1)] s2(3) same_core_trans by (auto simp: kernel_step_def)
  moreover have "io_round K icb (time s1) 0 0 48 s1 = Some (IoReturn, s2)" using s2(1,2) by (simp add: io_round_def)
  then have "io_rounds K icb (time s1) (0, 0, 48) s1 = Some s2" by (subst io_rounds.simps) simp
  then have "uv__io_poll K icb 0 s = Some s2" using False s1(1) by (simp add: uv__io_poll_def)
  ultimately show ?thesis by blast
qed

text \<open>The state a phase leaves to the next when the callbacks do nothing.\<close>

definition calm_loop :: "'a poll_loop_scheme \<Rightarrow> 'a poll_loop_scheme \<Rightarrow> bool" where
  "calm_loop s s' \<longleftrightarrow> base_inv {} [] s' \<and> loop_good s' \<and> stop_flag s' = stop_flag s \<and>
     closing_handles s' = closing_handles s \<and> wqueue s' = wqueue s \<and> wlocal s' = wlocal s \<and> watcher_cb s' = watcher_cb s \<and>
     (\<forall>x. htype (handles s' x) = htype (handles s x) \<and> close_cb (handles s' x) = close_cb (handles s x) \<and>
        next_closing (handles s' x) = next_closing (handles s x))"

lemma calm_loop_trans: "calm_loop s s' \<Longrightarrow> calm_loop s' s'' \<Longrightarrow> calm_loop s s''"
  by (simp add: calm_loop_def)

lemma calm_loop_calls:
  assumes "calm_loop s s'"
  shows "watcher_calls s' k = watcher_calls s k" "close_calls s' ys = close_calls s ys"
    "chain (handles s') (closing_handles s') ys \<longleftrightarrow> chain (handles s) (closing_handles s) ys"
proof -
  have e: "wqueue s' = wqueue s" "watcher_cb s' = watcher_cb s" "closing_handles s' = closing_handles s"
    "close_cb (handles s' x) = close_cb (handles s x)" "next_closing (handles s' x) = next_closing (handles s x)" for x
    using assms by (simp_all add: calm_loop_def)
  show "watcher_calls s' k = watcher_calls s k" "close_calls s' ys = close_calls s ys"
    by (simp_all add: watcher_calls_def close_calls_def e)
  show "chain (handles s') (closing_handles s') ys \<longleftrightarrow> chain (handles s) (closing_handles s) ys"
    unfolding e(3) using chain_cong [of "handles s" "closing_handles s" ys "handles s'"]
      chain_cong [of "handles s'" "closing_handles s" ys "handles s"] e(5) by auto
qed

lemma calm_core: "base_inv {} [] s \<Longrightarrow> loop_good s \<Longrightarrow> same_core s s' \<Longrightarrow> calm_loop s s'"
  using same_coreD [of s s'] same_core_inv [of s s'] by (simp add: calm_loop_def loop_good_def)

lemma calm_trace: "base_inv {} [] s \<Longrightarrow> loop_good s \<Longrightarrow> calm_loop s (s\<lparr>trace := t\<rparr>)"
proof -
  assume a: "base_inv {} [] s" "loop_good s"
  have "loop_good (s\<lparr>trace := t\<rparr>)" by (rule loop_good_cong [OF a(2)]) (simp_all add: members_def)
  then show ?thesis using a(1) by (simp add: calm_loop_def)
qed

lemma calm_timers:
  assumes "base_inv {} [] s" and "loop_good s" and "uv__run_timers no_op s = Some s'" and "timers_inv s'"
  shows "calm_loop s s'" and "io_inv s \<Longrightarrow> io_inv s'" and "pending_queue s' = pending_queue s"
proof -
  have g: "timers_inv s" "watchers_inv s" using assms(2) by (simp_all add: loop_good_def)
  have f: "timer_frame s s'" "base_inv {} [] s'" using run_timers_frame [OF assms(3) g(1)] assms(1) by simp_all
  note d = f(1) [unfolded timer_frame_def]
  have m: "members s' = members s" using d by (simp add: members_def)
  have more: "timer_loop.more s' = timer_loop.more s" using d by simp
  note w = more_watchers [OF more]
  have "active_watchers k s' = active_watchers k s" for k
    unfolding active_watchers_def m using d wtype_not_timer(1) [of k] by (metis (mono_tags, lifting))
  then have "watchers_inv s'" using watchers_inv_cong [OF g(2) w] by blast
  then show "calm_loop s s'" using d f(2) assms(4) w by (simp add: calm_loop_def loop_good_def)
  have e: "watchers s' = watchers s" "watcher_queue s' = watcher_queue s" "nfds s' = nfds s" "io_watchers s' = io_watchers s"
    "pending_queue s' = pending_queue s"
    using more by (cases s; cases s'; simp)+
  show "io_inv s \<Longrightarrow> io_inv s'" by (rule io_inv_cong) (simp_all add: e)
  show "pending_queue s' = pending_queue s" by (rule e)
qed

definition timer_calls :: "'a timer_loop_scheme \<Rightarrow> hid list \<Rightarrow> (cb \<times> hid) list" where
  "timer_calls s xs = map (\<lambda>h. (the (timer_cb (timers s h)), h)) xs"

definition timers_due :: "u64 \<Rightarrow> 'a timer_loop_scheme \<Rightarrow> hid set" where
  "timers_due now s = {h \<in> active_timers s. timeout (timers s h) \<le> now}"

text \<open>The clock of the loop counts milliseconds, so it stays far below the largest \<^verbatim>\<open>uint64_t\<close>.\<close>

lemma update_time_bound: "time (uv__update_time K s) < - 1"
proof -
  have "uint (t div 1000000) < 2 ^ 64 - 1" for t :: u64
  proof -
    have "uint t < 2 ^ 64" using uint_bounded [of t] by simp
    then have "uint t div 1000000 < 2 ^ 64 - 1" by simp
    then show ?thesis by (simp add: uint_div)
  qed
  then show ?thesis
    by (simp add: uv__update_time_def word_less_def unsigned_minus_1_eq_mask mask_eq_exp_minus_1 split: prod.splits)
qed

text \<open>The idle and prepare watchers, the poll, and the check watchers.\<close>

lemma watcher_phases:
  assumes "base_inv {} [] s" and "loop_good s" and "io_inv s" and "\<And>k. wlocal s k = []" and K: "quiet_kernel K"
  shows "\<exists>s1 s2 s3 s4. uv__run_watchers no_op WIdle s = Some s1 \<and> uv__run_watchers no_op WPrepare s1 = Some s2 \<and>
    uv__io_poll K icb 0 s2 = Some s3 \<and> uv__run_watchers no_op WCheck s3 = Some s4 \<and> calm_loop s s4 \<and>
    trace s4 = trace s @ watcher_calls s WIdle @ watcher_calls s WPrepare @ watcher_calls s WCheck"
proof -
  have run: "\<exists>t'. uv__run_watchers no_op k t = Some t' \<and> calm_loop s t' \<and> trace t' = trace t @ watcher_calls s k \<and>
      (io_inv t \<longrightarrow> io_inv t')" if "calm_loop s t" for t k
  proof -
    have t: "base_inv {} [] t" "loop_good t" "wlocal t k = []" using that assms(4) by (simp_all add: calm_loop_def)
    let ?t = "t\<lparr>trace := trace t @ watcher_calls t k\<rparr>"
    have "uv__run_watchers no_op k t = Some ?t" using t by (intro uv__run_watchers_no_op) (simp_all add: loop_good_def)
    moreover have "calm_loop s ?t" using that calm_trace [OF t(1,2)] by (rule calm_loop_trans)
    moreover have "io_inv ?t" if "io_inv t" by (rule io_inv_cong [OF that]) simp_all
    ultimately show ?thesis using calm_loop_calls(1) [OF \<open>calm_loop s t\<close>] by auto
  qed
  have "calm_loop s s" using assms(1,2) by (simp add: calm_loop_def)
  from run [OF this, of WIdle] obtain s1 where s1: "uv__run_watchers no_op WIdle s = Some s1" "calm_loop s s1"
    "trace s1 = trace s @ watcher_calls s WIdle" "io_inv s1" using assms(3) by blast
  from run [OF s1(2), of WPrepare] obtain s2 where s2: "uv__run_watchers no_op WPrepare s1 = Some s2" "calm_loop s s2"
    "trace s2 = trace s1 @ watcher_calls s WPrepare" "io_inv s2" using s1(4) by blast
  obtain s3 where s3: "uv__io_poll K icb 0 s2 = Some s3" "same_core s2 s3" using uv__io_poll_quiet [OF K s2(4)] by blast
  have "calm_loop s s3" using s2(2) calm_core [OF _ _ s3(2)] calm_loop_trans by (auto simp: calm_loop_def)
  from run [OF this, of WCheck] obtain s4 where s4: "uv__run_watchers no_op WCheck s3 = Some s4" "calm_loop s s4"
    "trace s4 = trace s3 @ watcher_calls s WCheck" by blast
  show ?thesis using s1 s2 s3 s4 same_coreD(8) [OF s3(2)] by auto
qed

lemma run_iteration_calm:
  assumes "base_inv {} [] s" and "loop_good s" and "io_inv s" and "pending_queue s = []" and "\<And>k. wlocal s k = []"
    and "chain (handles s) (closing_handles s) ys" and "\<forall>h\<in>set ys. plain_kind (htype (handles s h))" and K: "quiet_kernel K"
    and E: "run_kernel E = K" "run_call E = no_op"
  shows "\<exists>s' xs. run_iteration E UV_RUN_NOWAIT s = Some s' \<and> base_inv {} [] s' \<and> loop_good s' \<and>
    set xs = timers_due (time (uv__update_time K s)) s \<and> distinct xs \<and>
    sorted_wrt (\<lambda>a b. \<not> timer_less_than (timers s) b a) xs \<and>
    trace s' = trace s @ timer_calls s xs @ watcher_calls s WIdle @ watcher_calls s WPrepare @ watcher_calls s WCheck @ close_calls s ys"
proof -
  define s1 where "s1 = uv__update_time K s"
  have c1: "same_core s s1" by (simp add: s1_def)
  note e1 = same_coreD [OF c1]
  have k1: "calm_loop s s1" by (rule calm_core [OF assms(1,2) c1])
  then have i1: "base_inv {} [] s1" "loop_good s1" by (simp_all add: calm_loop_def)
  have io1: "io_inv s1" by (rule io_inv_cong [OF assms(3)]) (simp_all add: s1_def)
  obtain s2 xs where s2: "uv__run_timers no_op s1 = Some s2" "timers_inv s2"
    "trace s2 = trace s1 @ timer_calls s1 xs" "distinct xs" "set xs = due s1"
    "sorted_wrt (\<lambda>a b. \<not> timer_less_than (timers s1) b a) xs"
    using script.run_timers_calm [of s1 "\<lambda>_. []"] i1(2) update_time_bound [of K s]
    by (auto simp: no_op_timers loop_good_def s1_def timer_calls_def no_op_def)
  note t = calm_timers [OF i1 s2(1,2)]
  have k2: "calm_loop s s2" using k1 t(1) by (rule calm_loop_trans)
  then have i2: "base_inv {} [] s2" "loop_good s2" "\<And>k. wlocal s2 k = []" using assms(5) by (simp_all add: calm_loop_def)
  have "pending_queue s2 = []" using t(3) assms(4) by (simp add: s1_def)
  then have pend: "uv__run_pending (run_io E) s2 = Some (0, s2)" by (simp add: uv__run_pending_def)
  obtain s3 s4 s5 s6 where w: "uv__run_watchers no_op WIdle s2 = Some s3" "uv__run_watchers no_op WPrepare s3 = Some s4"
    "uv__io_poll K (run_io E) 0 s4 = Some s5" "uv__run_watchers no_op WCheck s5 = Some s6" and k26: "calm_loop s2 s6"
    and tr: "trace s6 = trace s2 @ watcher_calls s2 WIdle @ watcher_calls s2 WPrepare @ watcher_calls s2 WCheck"
    using watcher_phases [OF i2(1,2) t(2) [OF io1] i2(3) K] by blast
  have k6: "calm_loop s s6" using k2 k26 by (rule calm_loop_trans)
  then have i6: "base_inv {} [] s6" "loop_good s6" by (simp_all add: calm_loop_def)
  have "chain (handles s6) (closing_handles s6) ys" "\<forall>h\<in>set ys. plain_kind (htype (handles s6 h))"
    using calm_loop_calls(3) [OF k6] assms(6,7) k6 by (simp_all add: calm_loop_def)
  from loop_closing.run_closing_handles [OF i6 this, of K "\<lambda>_. []" "run_destroy E"]
  obtain s7 where s7: "uv__run_closing_handles no_op (run_destroy E) s6 = Some s7" "base_inv {} [] s7" "loop_good s7"
    "trace s7 = trace s6 @ close_calls s6 ys"
    unfolding no_op_script by blast
  have "run_iteration E UV_RUN_NOWAIT s = Some s7"
    using s2(1) pend w s7(1) by (simp add: run_iteration_def E s1_def [symmetric])
  moreover have "trace s7 = trace s @ timer_calls s xs @ watcher_calls s WIdle @ watcher_calls s WPrepare @ watcher_calls s WCheck @ close_calls s ys"
    using s7(4) tr s2(3) e1(8,10) calm_loop_calls(1) [OF k2] calm_loop_calls(2) [OF k6] by (simp add: timer_calls_def)
  moreover have "set xs = timers_due (time s1) s" "sorted_wrt (\<lambda>a b. \<not> timer_less_than (timers s) b a) xs"
    using s2(5,6) same_core_inv(4) [OF c1] e1(10) by (simp_all add: due_def timers_due_def)
  ultimately show ?thesis using s2(4) s7(2,3) unfolding s1_def by blast
qed


definition quiet_demo :: kernel where
  "quiet_demo tr c = \<lparr>ret = 0, errno = 0, rdata = [], revents = [], rfds = [], rtime = (1, 0)\<rparr>"

lemma demo_closed_io:
  assumes "run_loop_ops K [LInitTimer 2, LInitWatch WIdle 3, LClose 2 (Some 7), LClose 3 (Some 8)] (fresh_poll_loop 0) = Some s"
  shows "pending_queue s = [] \<and> wlocal s = (\<lambda>_. []) \<and> wqueue s = (\<lambda>_. []) \<and> \<not> stop_flag s \<and> watchers s = [] \<and> watcher_queue s = [] \<and>
    nfds s = 0 \<and> io_watchers s = (\<lambda>_. \<lparr>io_cb = UV__POLL_IO, iofd = - 1, ioevents = 0, pevents = 0\<rparr>) \<and>
    \<not> bit (flags_of s 2) 2 \<and> \<not> bit (flags_of s 3) 2 \<and> members s = {2, 3} \<and> closing_handles s = Some 3"
  using assms
  by (auto simp: live_def is_closing_bit is_active_bit uv_close_mark close_by_type_def uv__timer_close_def uv_timer_stop_def
      uv_timer_init_def uv_watcher_init_def uv__watcher_close_def uv_watcher_stop_def uv__make_close_pending_def
      flag_simps Let_def fresh_loop_defs upd_handle_def upd_timer_def mark_closing_def set_flag_def uv__handle_init_def members_def)


end
