(* ===== verification/UvStream.thy ===== *)
theory UvStream
  imports UvCore
begin

text \<open>
  Streams, \<^verbatim>\<open>3rd/libuv/src/unix/stream.c\<close>: what TCP sockets, pipes and terminals share.

  A stream has a read side (a client callback that gives it buffers and one that takes the bytes), a
  write side (a queue of write requests and a queue of the finished ones whose callbacks are still to be
  called), a connect and a shutdown request, and as a server the accepted descriptor, behind which the
  descriptors that came with messages on a pipe wait.

  Requests are named by their address (\<open>rid\<close>). The buffers of a write request are the bytes they hold
  when the request is made; the client must not touch them before the callback. A client callback gets the
  request's address and its status as arguments. The client's allocation callback answers with the size of the
  buffer it gives, \<open>0\<close> for a null buffer. The parts for \<^verbatim>\<open>__APPLE__\<close> and other platforms are left out.
\<close>

subsection \<open>Streams and requests\<close>

type_synonym rid = nat

record uv_write_t =
  wcb :: "cb option"
  whandle :: hid
  werror :: int
  wsend :: "hid option"
  wbufs :: "u8 list list option"
  wnbufs :: nat
  wwrite_index :: nat

text \<open>A connect or a shutdown request.\<close>

record uv_stream_req =
  sreq_cb :: "cb option"
  sreq_handle :: hid

record uv_stream =
  read_cb :: "cb option"
  alloc_cb :: "cb option"
  connection_cb :: "cb option"
  connect_req :: "rid option"
  shutdown_req :: "rid option"
  accepted_fd :: int
  queued_fds :: "(nat \<times> int list) option"
  delayed_error :: int
  write_queue :: "rid list"
  write_completed_queue :: "rid list"
  write_queue_size :: u64
  ipc :: bool
  pipe_fname :: "u8 list option"

record stream_loop = poll_loop +
  streams :: "hid \<Rightarrow> uv_stream"
  writes :: "rid \<Rightarrow> uv_write_t"
  stream_reqs :: "rid \<Rightarrow> uv_stream_req"
  emfile_fd :: int
  single_accept :: "bool option"

text \<open>What a stream calls: the kernel, the client's callbacks and its allocator.\<close>

type_synonym 's alloc_client = "cb \<Rightarrow> hid \<Rightarrow> nat \<Rightarrow> 's \<Rightarrow> (nat \<times> 's) option"

record 's stream_env =
  str_kernel :: kernel
  str_acb :: "'s arg_client"
  str_alloc :: "'s alloc_client"

definition UV_HANDLE_SHUTTING :: u32 where "UV_HANDLE_SHUTTING = 0x00000100"
definition UV_HANDLE_SHUT :: u32 where "UV_HANDLE_SHUT = 0x00000200"
definition UV_HANDLE_READ_PARTIAL :: u32 where "UV_HANDLE_READ_PARTIAL = 0x00000400"
definition UV_HANDLE_READ_EOF :: u32 where "UV_HANDLE_READ_EOF = 0x00000800"
definition UV_HANDLE_READING :: u32 where "UV_HANDLE_READING = 0x00001000"
definition UV_HANDLE_BOUND :: u32 where "UV_HANDLE_BOUND = 0x00002000"
definition UV_HANDLE_READABLE :: u32 where "UV_HANDLE_READABLE = 0x00004000"
definition UV_HANDLE_WRITABLE :: u32 where "UV_HANDLE_WRITABLE = 0x00008000"
definition UV_HANDLE_BLOCKING_WRITES :: u32 where "UV_HANDLE_BLOCKING_WRITES = 0x00100000"
definition UV_HANDLE_IPV6 :: u32 where "UV_HANDLE_IPV6 = 0x00400000"
definition UV_HANDLE_TCP_NODELAY :: u32 where "UV_HANDLE_TCP_NODELAY = 0x01000000"
definition UV_HANDLE_TCP_KEEPALIVE :: u32 where "UV_HANDLE_TCP_KEEPALIVE = 0x02000000"
definition UV_HANDLE_TCP_SINGLE_ACCEPT :: u32 where "UV_HANDLE_TCP_SINGLE_ACCEPT = 0x04000000"

definition UV_EOF :: int where "UV_EOF = - 4095"
definition UV_EAGAIN :: int where "UV_EAGAIN = - 11"
definition UV_ENOMEM :: int where "UV_ENOMEM = - 12"
definition UV_EBUSY :: int where "UV_EBUSY = - 16"
definition UV_ENFILE :: int where "UV_ENFILE = - 23"
definition UV_EMFILE :: int where "UV_EMFILE = - 24"
definition UV_EPIPE :: int where "UV_EPIPE = - 32"
definition UV_ECONNABORTED :: int where "UV_ECONNABORTED = - 103"
definition UV_ENOBUFS :: int where "UV_ENOBUFS = - 105"
definition UV_ENOTCONN :: int where "UV_ENOTCONN = - 107"
definition UV_ECANCELED :: int where "UV_ECANCELED = - 125"
definition UV_EINTR :: int where "UV_EINTR = - 4"
definition ENOBUFS :: int where "ENOBUFS = 105"

definition upd_stream :: "hid \<Rightarrow> (uv_stream \<Rightarrow> uv_stream) \<Rightarrow> 'a stream_loop_scheme \<Rightarrow> 'a stream_loop_scheme" where
  "upd_stream h f s = s\<lparr>streams := (streams s)(h := f (streams s h))\<rparr>"

definition upd_write :: "rid \<Rightarrow> (uv_write_t \<Rightarrow> uv_write_t) \<Rightarrow> 'a stream_loop_scheme \<Rightarrow> 'a stream_loop_scheme" where
  "upd_write r f s = s\<lparr>writes := (writes s)(r := f (writes s r))\<rparr>"

definition uv__stream_fd :: "hid \<Rightarrow> 'a stream_loop_scheme \<Rightarrow> int" where
  "uv__stream_fd h s = iofd (io_watchers s (WHandle h))"

definition set_stream_fd :: "hid \<Rightarrow> int \<Rightarrow> 'a stream_loop_scheme \<Rightarrow> 'a stream_loop_scheme" where
  "set_stream_fd h fd s = upd_io (WHandle h) (\<lambda>x. x\<lparr>iofd := fd\<rparr>) s"

text \<open>Calling back for a request: the arguments are the request and its status.\<close>

definition req_done ::
  "'a stream_loop_scheme stream_env \<Rightarrow> cb \<Rightarrow> hid \<Rightarrow> rid \<Rightarrow> int \<Rightarrow> 'a stream_loop_scheme \<Rightarrow> 'a stream_loop_scheme option" where
  "req_done E c h r status s = invoke_args (str_acb E) c h [int r, status] [] s"

definition req_done_opt ::
  "'a stream_loop_scheme stream_env \<Rightarrow> cb option \<Rightarrow> hid \<Rightarrow> rid \<Rightarrow> int \<Rightarrow> 'a stream_loop_scheme \<Rightarrow> 'a stream_loop_scheme option" where
  "req_done_opt E c h r status s = (case c of None \<Rightarrow> Some s | Some c \<Rightarrow> req_done E c h r status s)"

subsection \<open>Opening\<close>

definition uv__stream_init :: "kernel \<Rightarrow> hid \<Rightarrow> uv_handle_type \<Rightarrow> 'a stream_loop_scheme \<Rightarrow> 'a stream_loop_scheme option" where
  "uv__stream_init K h typ s = do {
     let s = uv__handle_init h typ s;
     let s = upd_handle h (\<lambda>r. r\<lparr>close_cb := None\<rparr>) s;
     let s = upd_stream h (\<lambda>x. x\<lparr>read_cb := None, alloc_cb := None, connection_cb := None, connect_req := None,
       shutdown_req := None, accepted_fd := - 1, queued_fds := None, delayed_error := 0, write_queue := [],
       write_completed_queue := [], write_queue_size := 0\<rparr>) s;
     s \<leftarrow> (if emfile_fd s = - 1 then do {
             (err, s) \<leftarrow> lift_os (uv__open_cloexec K ''/dev/null'' 0) s;
             (err, s) \<leftarrow> (if err < 0 then lift_os (uv__open_cloexec K ''/'' 0) s else Some (err, s));
             Some (if err \<ge> 0 then s\<lparr>emfile_fd := err\<rparr> else s)
           } else Some s);
     uv__io_init (WHandle h) UV__STREAM_IO (- 1) s
   }"

text \<open>The C \<^verbatim>\<open>int\<close> of a socket option, little endian.\<close>

definition int_bytes :: "int \<Rightarrow> u8 list" where
  "int_bytes v = [word_of_int v, word_of_int (v div 256), word_of_int (v div 65536), word_of_int (v div 16777216)]"

definition bytes_int :: "u8 list \<Rightarrow> int" where
  "bytes_int bs = sint (word_of_int (horner_sum uint 256 (take 4 bs)) :: u32)"

definition uv__tcp_nodelay :: "kernel \<Rightarrow> int \<Rightarrow> bool \<Rightarrow> 'a stream_loop_scheme \<Rightarrow> int \<times> 'a stream_loop_scheme" where
  "uv__tcp_nodelay K fd on s =
     (let (r, s) = sysl K (SysSetsockopt fd 6 1 (int_bytes (of_bool on))) s
      in (if ret r \<noteq> 0 then - errno r else 0, s))"

definition uv__tcp_keepalive :: "kernel \<Rightarrow> int \<Rightarrow> bool \<Rightarrow> u32 \<Rightarrow> 'a stream_loop_scheme \<Rightarrow> int \<times> 'a stream_loop_scheme" where
  "uv__tcp_keepalive K fd on delay s =
     (let (r, s) = sysl K (SysSetsockopt fd 1 9 (int_bytes (of_bool on))) s in
      if ret r \<noteq> 0 then (- errno r, s)
      else if on then (let (r, s) = sysl K (SysSetsockopt fd 6 4 (int_bytes (uint delay))) s
        in (if ret r \<noteq> 0 then - errno r else 0, s))
      else (0, s))"

definition uv__stream_open :: "kernel \<Rightarrow> hid \<Rightarrow> int \<Rightarrow> u32 \<Rightarrow> 'a stream_loop_scheme \<Rightarrow> (int \<times> 'a stream_loop_scheme) option" where
  "uv__stream_open K h fd flags s =
     (if \<not> (uv__stream_fd h s = - 1 \<or> uv__stream_fd h s = fd) then Some (UV_EBUSY, s)
      else if \<not> fd \<ge> 0 then None
      else (let s = set_flag flags h s;
                tcp = (htype (handles s h) = UV_TCP);
                (err, s) = (if tcp \<and> has_flag UV_HANDLE_TCP_NODELAY h s then uv__tcp_nodelay K fd True s else (0, s))
            in if err \<noteq> 0 then Some (err, s)
               else (let (err, s) = (if tcp \<and> has_flag UV_HANDLE_TCP_KEEPALIVE h s
                                     then uv__tcp_keepalive K fd True 60 s else (0, s))
                     in if err \<noteq> 0 then Some (err, s) else Some (0, set_stream_fd h fd s))))"

subsection \<open>Write requests\<close>

definition uv__count_bufs :: "u8 list list \<Rightarrow> u64" where
  "uv__count_bufs bufs = fold (\<lambda>b n. n + of_nat (length b)) bufs 0"

definition uv__getiovmax :: nat where
  "uv__getiovmax = 1024"

definition uv__write_req_size :: "rid \<Rightarrow> 'a stream_loop_scheme \<Rightarrow> u64 option" where
  "uv__write_req_size r s = do {
     bufs \<leftarrow> wbufs (writes s r);
     let n = uv__count_bufs (drop (wwrite_index (writes s r)) bufs);
     if \<not> write_queue_size (streams s (whandle (writes s r))) \<ge> n then None else Some n
   }"

definition uv__write_req_finish :: "rid \<Rightarrow> 'a stream_loop_scheme \<Rightarrow> 'a stream_loop_scheme" where
  "uv__write_req_finish r s =
     (let h = whandle (writes s r);
          s = upd_stream h (\<lambda>x. x\<lparr>write_queue := remove1 r (write_queue x)\<rparr>) s;
          s = (if werror (writes s r) = 0 then upd_write r (\<lambda>w. w\<lparr>wbufs := None\<rparr>) s else s);
          s = upd_stream h (\<lambda>x. x\<lparr>write_completed_queue := write_completed_queue x @ [r]\<rparr>) s
      in uv__io_feed (WHandle h) s)"

definition uv__handle_fd :: "hid \<Rightarrow> 'a stream_loop_scheme \<Rightarrow> int" where
  "uv__handle_fd h s =
     (if htype (handles s h) \<in> {UV_NAMED_PIPE, UV_TCP, UV_UDP} then iofd (io_watchers s (WHandle h)) else - 1)"

text \<open>The function address \<^verbatim>\<open>uv_try_write_cb\<close>, whose call aborts.\<close>

definition uv_try_write_cb :: cb where
  "uv_try_write_cb = 0"

partial_function (option) uv__write_callbacks ::
  "'a stream_loop_scheme stream_env \<Rightarrow> hid \<Rightarrow> 'a stream_loop_scheme \<Rightarrow> 'a stream_loop_scheme option" where
  "uv__write_callbacks E h s =
     (case write_completed_queue (streams s h) of
        [] \<Rightarrow> Some s
      | r # q \<Rightarrow> do {
          let s = upd_stream h (\<lambda>x. x\<lparr>write_completed_queue := q\<rparr>) s;
          s \<leftarrow> uv__req_unregister s;
          s \<leftarrow> (if wbufs (writes s r) \<noteq> None then do {
                  n \<leftarrow> uv__write_req_size r s;
                  let s = upd_stream h (\<lambda>x. x\<lparr>write_queue_size := write_queue_size x - n\<rparr>) s;
                  Some (upd_write r (\<lambda>w. w\<lparr>wbufs := None\<rparr>) s)
                } else Some s);
          s \<leftarrow> (if wcb (writes s r) = Some uv_try_write_cb then None
                else req_done_opt E (wcb (writes s r)) h r (werror (writes s r)) s);
          uv__write_callbacks E h s
        })"

text \<open>The call that sends the head of the queue: \<^verbatim>\<open>sendmsg\<close>, \<^verbatim>\<open>write\<close> or \<^verbatim>\<open>writev\<close>.\<close>

definition write_call :: "int \<Rightarrow> u8 list list \<Rightarrow> int option \<Rightarrow> syscall" where
  "write_call fd iov fd_to_send =
     (case fd_to_send of
        Some d \<Rightarrow> SysSendmsg fd iov (Some d)
      | None \<Rightarrow> (if length iov = 1 then SysWrite fd (iov ! 0) else SysWritev fd iov))"

definition write_failed :: "rid \<Rightarrow> hid \<Rightarrow> int \<Rightarrow> 'a stream_loop_scheme \<Rightarrow> 'a stream_loop_scheme option" where
  "write_failed r h err s = do {
     let s = uv__write_req_finish r (upd_write r (\<lambda>w. w\<lparr>werror := err\<rparr>) s);
     s \<leftarrow> uv__io_stop (WHandle h) POLLOUT s;
     reading \<leftarrow> uv__io_active (WHandle h) POLLIN s;
     Some (if \<not> reading then uv__handle_stop h s else s)
   }"

text \<open>
  The loop that takes the \<open>n\<close> bytes sent off the buffers of the request. It ends with the request finished
  (\<open>True\<close>) or with some of a buffer left to send (\<open>False\<close>).
\<close>

function write_advance :: "hid \<Rightarrow> rid \<Rightarrow> nat \<Rightarrow> 'a stream_loop_scheme \<Rightarrow> (bool \<times> 'a stream_loop_scheme) option" where
  "write_advance h r n s =
     (case wbufs (writes s r) of
        None \<Rightarrow> None
      | Some bufs \<Rightarrow>
          (let i = wwrite_index (writes s r) in
           if \<not> i < wnbufs (writes s r) then None
           else (let len = length (bufs ! i) in
             if n < len
             then Some (False, upd_stream h (\<lambda>x. x\<lparr>write_queue_size := write_queue_size x - of_nat n\<rparr>)
                          (upd_write r (\<lambda>w. w\<lparr>wbufs := Some (bufs[i := drop n (bufs ! i)])\<rparr>) s))
             else (let s' = upd_write r (\<lambda>w. w\<lparr>wwrite_index := i + 1\<rparr>) s in
               if \<not> write_queue_size (streams s' h) \<ge> of_nat len then None
               else (let s'' = upd_stream h (\<lambda>x. x\<lparr>write_queue_size := write_queue_size x - of_nat len\<rparr>) s' in
                 if i + 1 = wnbufs (writes s r)
                 then (if n - len \<noteq> 0 then None else Some (True, uv__write_req_finish r s''))
                 else write_advance h r (n - len) s'')))))"
  by pat_completeness auto
termination
  by (relation "measure (\<lambda>(h, r, n, s). wnbufs (writes s r) - wwrite_index (writes s r))")
    (auto simp: upd_write_def upd_stream_def)

text \<open>A write that could not be completed waits until the descriptor can be written.\<close>

definition write_wait :: "kernel \<Rightarrow> hid \<Rightarrow> 'a stream_loop_scheme \<Rightarrow> 'a stream_loop_scheme option" where
  "write_wait K h s =
     (if has_flag UV_HANDLE_BLOCKING_WRITES h s then None else uv__io_start K (WHandle h) POLLOUT s)"

text \<open>The descriptor to send along with the bytes, \<open>None\<close> inside for none; a closed handle has none to send.\<close>

definition send_fd :: "rid \<Rightarrow> 'a stream_loop_scheme \<Rightarrow> int option option" where
  "send_fd r s =
     (case wsend (writes s r) of
        None \<Rightarrow> Some None
      | Some d \<Rightarrow> if uv__handle_fd d s \<ge> 0 then Some (Some (uv__handle_fd d s)) else None)"

definition write_iov :: "rid \<Rightarrow> 'a stream_loop_scheme \<Rightarrow> u8 list list option" where
  "write_iov r s =
     map_option (\<lambda>bufs. take uv__getiovmax (drop (wwrite_index (writes s r)) (take (wnbufs (writes s r)) bufs))) (wbufs (writes s r))"

definition send_closed :: "rid \<Rightarrow> 'a stream_loop_scheme \<Rightarrow> bool" where
  "send_closed r s \<longleftrightarrow> (\<exists>d. wsend (writes s r) = Some d \<and> uv__is_closing d s)"

lemma send_closed_code [code]:
  "send_closed r s = (case wsend (writes s r) of None \<Rightarrow> False | Some d \<Rightarrow> uv__is_closing d s)"
  by (simp add: send_closed_def split: option.splits)

partial_function (option) uv__write :: "kernel \<Rightarrow> hid \<Rightarrow> 'a stream_loop_scheme \<Rightarrow> 'a stream_loop_scheme option" where
  "uv__write K h s =
     (if \<not> uv__stream_fd h s \<ge> 0 then None
      else case write_queue (streams s h) of
        [] \<Rightarrow> Some s
      | r # _ \<Rightarrow>
          if whandle (writes s r) \<noteq> h then None
          else if send_closed r s then write_failed r h UV_EBADF s
          else do {
            iov \<leftarrow> write_iov r s;
            fd_to_send \<leftarrow> send_fd r s;
            (n, s) \<leftarrow> lift_os (retry K (write_call (uv__stream_fd h s) iov fd_to_send)) s;
            if ret n < 0
            then (if errno n \<noteq> EAGAIN \<and> errno n \<noteq> ENOBUFS then write_failed r h (- errno n) s
                  else if has_flag UV_HANDLE_BLOCKING_WRITES h s then uv__write K h s
                  else if ret n \<noteq> - 1 then None
                  else write_wait K h s)
            else do {
              (finished, s) \<leftarrow> write_advance h r (nat (ret n)) s;
              if finished then Some s
              else if has_flag UV_HANDLE_BLOCKING_WRITES h s then uv__write K h s
              else write_wait K h s
            }
          })"

declare uv__write.simps [code] uv__write_callbacks.simps [code]

text \<open>
  \<^verbatim>\<open>uv_write2\<close>. The null pointers of the C interface are \<open>None\<close>; the memory for more than four buffers is
  allocated, and a failure leaves the request registered, as the code does.
\<close>

definition req_init :: "rid \<Rightarrow> hid \<Rightarrow> hid option \<Rightarrow> cb option \<Rightarrow> 'a stream_loop_scheme \<Rightarrow> 'a stream_loop_scheme" where
  "req_init r h send c s =
     upd_write r (\<lambda>w. w\<lparr>wcb := c, whandle := h, werror := 0, wsend := send, wbufs := None\<rparr>) (uv__req_register s)"

definition write_append :: "rid \<Rightarrow> hid \<Rightarrow> u8 list list \<Rightarrow> 'a stream_loop_scheme \<Rightarrow> 'a stream_loop_scheme" where
  "write_append r h bufs s =
     upd_stream h (\<lambda>x. x\<lparr>write_queue_size := write_queue_size x + uv__count_bufs bufs, write_queue := write_queue x @ [r]\<rparr>)
       (upd_write r (\<lambda>w. w\<lparr>wbufs := Some bufs, wnbufs := length bufs, wwrite_index := 0\<rparr>) s)"

definition stream_kind :: "uv_handle_type \<Rightarrow> bool" where
  "stream_kind t \<longleftrightarrow> t = UV_TCP \<or> t = UV_NAMED_PIPE \<or> t = UV_TTY"

text \<open>What makes \<^verbatim>\<open>uv_write2\<close> refuse a request.\<close>

definition write_refused :: "hid \<Rightarrow> hid option \<Rightarrow> 'a stream_loop_scheme \<Rightarrow> int" where
  "write_refused h send s =
     (if uv__stream_fd h s < 0 then UV_EBADF
      else if \<not> has_flag UV_HANDLE_WRITABLE h s then UV_EPIPE
      else (case send of
         None \<Rightarrow> 0
       | Some d \<Rightarrow> if htype (handles s h) \<noteq> UV_NAMED_PIPE \<or> \<not> ipc (streams s h) then UV_EINVAL
                   else if uv__handle_fd d s < 0 then UV_EBADF else 0))"

definition uv_write2 ::
  "kernel \<Rightarrow> rid \<Rightarrow> hid \<Rightarrow> u8 list list \<Rightarrow> hid option \<Rightarrow> cb option \<Rightarrow> 'a stream_loop_scheme \<Rightarrow> (int \<times> 'a stream_loop_scheme) option" where
  "uv_write2 K r h bufs send c s =
     (if bufs = [] then None
      else if \<not> stream_kind (htype (handles s h)) then None
      else if write_refused h send s \<noteq> 0 then Some (write_refused h send s, s)
      else (let empty_queue = (write_queue_size (streams s h) = 0);
                s = req_init r h send c s;
                (m, s) = (if length bufs > 4 then (let (m, s) = sysl K (SysAlloc (16 * length bufs)) s in (ret m, s)) else (1, s))
            in if m = 0 then Some (UV_ENOMEM, s)
               else (let s = write_append r h bufs s in
                 if connect_req (streams s h) \<noteq> None then Some (0, s)
                 else if empty_queue then do { s \<leftarrow> uv__write K h s; Some (0, s) }
                 else if has_flag UV_HANDLE_BLOCKING_WRITES h s then None
                 else do { s \<leftarrow> uv__io_start K (WHandle h) POLLOUT s; Some (0, s) })))"

definition uv_write ::
  "kernel \<Rightarrow> rid \<Rightarrow> hid \<Rightarrow> u8 list list \<Rightarrow> cb option \<Rightarrow> 'a stream_loop_scheme \<Rightarrow> (int \<times> 'a stream_loop_scheme) option" where
  "uv_write K r h bufs c s = uv_write2 K r h bufs None c s"

text \<open>\<^verbatim>\<open>uv_try_write\<close>; the request is a local variable of the function, at the address \<open>r\<close>.\<close>

definition uv_try_write ::
  "kernel \<Rightarrow> rid \<Rightarrow> hid \<Rightarrow> u8 list list \<Rightarrow> 'a stream_loop_scheme \<Rightarrow> (int \<times> 'a stream_loop_scheme) option" where
  "uv_try_write K r h bufs s =
     (if connect_req (streams s h) \<noteq> None \<or> write_queue_size (streams s h) \<noteq> 0 then Some (UV_EAGAIN, s)
      else do {
        has_pollout \<leftarrow> uv__io_active (WHandle h) POLLOUT s;
        (rc, s) \<leftarrow> uv_write K r h bufs (Some uv_try_write_cb) s;
        if rc \<noteq> 0 then Some (rc, s)
        else do {
          req_size \<leftarrow> (if wbufs (writes s r) \<noteq> None then uv__write_req_size r s else Some 0);
          let written = uv__count_bufs bufs - req_size;
          let s = upd_stream h (\<lambda>x. x\<lparr>write_queue_size := write_queue_size x - req_size\<rparr>) s;
          let s = upd_stream h (\<lambda>x. x\<lparr>write_queue := remove1 r (write_queue x),
                                      write_completed_queue := remove1 r (write_completed_queue x)\<rparr>) s;
          s \<leftarrow> uv__req_unregister s;
          let s = upd_write r (\<lambda>w. w\<lparr>wbufs := None\<rparr>) s;
          s \<leftarrow> (if \<not> has_pollout then uv__io_stop (WHandle h) POLLOUT s else Some s);
          Some (if written = 0 \<and> req_size \<noteq> 0 then UV_EAGAIN else sint (ucast written :: u32), s)
        }
      })"

subsection \<open>Shutdown and connect\<close>

definition uv__drain :: "'a stream_loop_scheme stream_env \<Rightarrow> hid \<Rightarrow> 'a stream_loop_scheme \<Rightarrow> 'a stream_loop_scheme option" where
  "uv__drain E h s =
     (if write_queue (streams s h) \<noteq> [] then None
      else do {
        s \<leftarrow> uv__io_stop (WHandle h) POLLOUT s;
        if has_flag UV_HANDLE_SHUTTING h s \<and> \<not> has_flag UV_HANDLE_CLOSING h s \<and> \<not> has_flag UV_HANDLE_SHUT h s
        then do {
          r \<leftarrow> shutdown_req (streams s h);
          let s = upd_stream h (\<lambda>x. x\<lparr>shutdown_req := None\<rparr>) s;
          let s = clear_flag UV_HANDLE_SHUTTING h s;
          s \<leftarrow> uv__req_unregister s;
          let (n, s) = sysl (str_kernel E) (SysShutdown (uv__stream_fd h s)) s;
          let err = (if ret n \<noteq> 0 then - errno n else 0);
          let s = (if err = 0 then set_flag UV_HANDLE_SHUT h s else s);
          req_done_opt E (sreq_cb (stream_reqs s r)) h r err s
        }
        else Some s
      })"

definition new_req :: "rid \<Rightarrow> hid \<Rightarrow> cb option \<Rightarrow> 'a stream_loop_scheme \<Rightarrow> 'a stream_loop_scheme" where
  "new_req r h c s =
     (let s = uv__req_register s in s\<lparr>stream_reqs := (stream_reqs s)(r := \<lparr>sreq_cb = c, sreq_handle = h\<rparr>)\<rparr>)"

definition uv_shutdown ::
  "kernel \<Rightarrow> rid \<Rightarrow> hid \<Rightarrow> cb option \<Rightarrow> 'a stream_loop_scheme \<Rightarrow> (int \<times> 'a stream_loop_scheme) option" where
  "uv_shutdown K r h c s =
     (if \<not> stream_kind (htype (handles s h)) then None
      else if \<not> has_flag UV_HANDLE_WRITABLE h s \<or> has_flag UV_HANDLE_SHUT h s \<or> has_flag UV_HANDLE_SHUTTING h s
              \<or> uv__is_closing h s
      then Some (UV_ENOTCONN, s)
      else if \<not> uv__stream_fd h s \<ge> 0 then None
      else do {
        let s = new_req r h c s;
        let s = upd_stream h (\<lambda>x. x\<lparr>shutdown_req := Some r\<rparr>) s;
        let s = set_flag UV_HANDLE_SHUTTING h s;
        s \<leftarrow> uv__io_start K (WHandle h) POLLOUT s;
        Some (0, s)
      })"

text \<open>All queued writes end with the error.\<close>

definition uv__stream_flush_write_queue :: "hid \<Rightarrow> int \<Rightarrow> 'a stream_loop_scheme \<Rightarrow> 'a stream_loop_scheme" where
  "uv__stream_flush_write_queue h err s =
     (let q = write_queue (streams s h);
          s = fold (\<lambda>r. upd_write r (\<lambda>w. w\<lparr>werror := err\<rparr>)) q s
      in upd_stream h (\<lambda>x. x\<lparr>write_queue := [], write_completed_queue := write_completed_queue x @ q\<rparr>) s)"

definition uv__stream_connect :: "'a stream_loop_scheme stream_env \<Rightarrow> hid \<Rightarrow> 'a stream_loop_scheme \<Rightarrow> 'a stream_loop_scheme option" where
  "uv__stream_connect E h s =
     (if htype (handles s h) \<noteq> UV_TCP \<and> htype (handles s h) \<noteq> UV_NAMED_PIPE then None
      else do {
        r \<leftarrow> connect_req (streams s h);
        (err, s) \<leftarrow>
          (if delayed_error (streams s h) \<noteq> 0
           then Some (delayed_error (streams s h), upd_stream h (\<lambda>x. x\<lparr>delayed_error := 0\<rparr>) s)
           else if \<not> uv__stream_fd h s \<ge> 0 then None
           else (let (n, s) = sysl (str_kernel E) (SysGetsockopt (uv__stream_fd h s) 1 4) s
                 in Some (- bytes_int (rdata n), s)));
        if err = - EINPROGRESS then Some s
        else do {
          let s = upd_stream h (\<lambda>x. x\<lparr>connect_req := None\<rparr>) s;
          s \<leftarrow> uv__req_unregister s;
          s \<leftarrow> (if err < 0 \<or> write_queue (streams s h) = [] then uv__io_stop (WHandle h) POLLOUT s else Some s);
          s \<leftarrow> req_done_opt E (sreq_cb (stream_reqs s r)) h r err s;
          if uv__stream_fd h s = - 1 then Some s
          else if err < 0 then uv__write_callbacks E h (uv__stream_flush_write_queue h UV_ECANCELED s)
          else Some s
        }
      })"

subsection \<open>Reading\<close>

definition call_read ::
  "'a stream_loop_scheme stream_env \<Rightarrow> hid \<Rightarrow> int \<Rightarrow> u8 list \<Rightarrow> 'a stream_loop_scheme \<Rightarrow> 'a stream_loop_scheme option" where
  "call_read E h n bs s = do { c \<leftarrow> read_cb (streams s h); invoke_args (str_acb E) c h [n] bs s }"

definition stop_reading :: "hid \<Rightarrow> 'a stream_loop_scheme \<Rightarrow> 'a stream_loop_scheme option" where
  "stop_reading h s = do {
     s \<leftarrow> uv__io_stop (WHandle h) POLLIN s;
     writing \<leftarrow> uv__io_active (WHandle h) POLLOUT s;
     Some (if \<not> writing then uv__handle_stop h s else s)
   }"

definition uv__stream_eof :: "'a stream_loop_scheme stream_env \<Rightarrow> hid \<Rightarrow> 'a stream_loop_scheme \<Rightarrow> 'a stream_loop_scheme option" where
  "uv__stream_eof E h s = do {
     s \<leftarrow> stop_reading h (set_flag UV_HANDLE_READ_EOF h s);
     s \<leftarrow> call_read E h UV_EOF [] s;
     Some (clear_flag UV_HANDLE_READING h s)
   }"

text \<open>
  \<^verbatim>\<open>uv__stream_queue_fd\<close>: the queue of descriptors grows by eight. Its size and its contents are modelled, the
  offset of the code is the number of descriptors in it.
\<close>

definition uv__stream_queue_fd :: "kernel \<Rightarrow> hid \<Rightarrow> int \<Rightarrow> 'a stream_loop_scheme \<Rightarrow> int \<times> 'a stream_loop_scheme" where
  "uv__stream_queue_fd K h fd s =
     (case queued_fds (streams s h) of
        None \<Rightarrow>
          (let (m, s) = sysl K (SysAlloc 40) s in
           if ret m = 0 then (UV_ENOMEM, s) else (0, upd_stream h (\<lambda>x. x\<lparr>queued_fds := Some (8, [fd])\<rparr>) s))
      | Some (qsize, fds) \<Rightarrow>
          if qsize = length fds
          then (let (m, s) = sysl K (SysAlloc ((qsize + 7) * 4 + 12)) s in
            if ret m = 0 then (UV_ENOMEM, s)
            else (0, upd_stream h (\<lambda>x. x\<lparr>queued_fds := Some (qsize + 8, fds @ [fd])\<rparr>) s))
          else (0, upd_stream h (\<lambda>x. x\<lparr>queued_fds := Some (qsize, fds @ [fd])\<rparr>) s))"

fun close_all :: "kernel \<Rightarrow> int list \<Rightarrow> 'a stream_loop_scheme \<Rightarrow> 'a stream_loop_scheme option" where
  "close_all K [] s = Some s"
| "close_all K (fd # fds) s = do { (_, s) \<leftarrow> lift_os (uv__close K fd) s; close_all K fds s }"

fun uv__stream_recv_cmsg :: "kernel \<Rightarrow> hid \<Rightarrow> int list \<Rightarrow> 'a stream_loop_scheme \<Rightarrow> (int \<times> 'a stream_loop_scheme) option" where
  "uv__stream_recv_cmsg K h [] s = Some (0, s)"
| "uv__stream_recv_cmsg K h (fd # fds) s =
     (if accepted_fd (streams s h) \<noteq> - 1
      then (let (err, s) = uv__stream_queue_fd K h fd s in
        if err \<noteq> 0 then do { s \<leftarrow> close_all K (fd # fds) s; Some (err, s) }
        else uv__stream_recv_cmsg K h fds s)
      else uv__stream_recv_cmsg K h fds (upd_stream h (\<lambda>x. x\<lparr>accepted_fd := fd\<rparr>) s))"

definition is_ipc :: "hid \<Rightarrow> 'a stream_loop_scheme \<Rightarrow> bool" where
  "is_ipc h s \<longleftrightarrow> htype (handles s h) = UV_NAMED_PIPE \<and> ipc (streams s h)"

text \<open>The receiving call of one round, repeated while it is interrupted.\<close>

partial_function (option) recv_retry :: "kernel \<Rightarrow> int \<Rightarrow> osw \<Rightarrow> (sysret \<times> osw) option" where
  "recv_retry K fd w = do {
     (r, w) \<leftarrow> uv__recvmsg K fd 0 w;
     if ret r < 0 \<and> errno r = EINTR then recv_retry K fd w else Some (r, w)
   }"

definition read_some :: "kernel \<Rightarrow> bool \<Rightarrow> int \<Rightarrow> nat \<Rightarrow> osw \<Rightarrow> (sysret \<times> osw) option" where
  "read_some K by_msg fd len w = (if \<not> by_msg then retry K (SysRead fd len) w else recv_retry K fd w)"

text \<open>
  One round of \<^verbatim>\<open>uv__read\<close>: \<open>True\<close> says that the loop goes on. A null buffer is length \<open>0\<close>. Of a successful
  receipt the first \<open>nread\<close> bytes are the data.
\<close>

definition read_failed ::
  "'a stream_loop_scheme stream_env \<Rightarrow> hid \<Rightarrow> int \<Rightarrow> 'a stream_loop_scheme \<Rightarrow> 'a stream_loop_scheme option" where
  "read_failed E h e s =
     (if e = EAGAIN
      then do {
        s \<leftarrow> (if has_flag UV_HANDLE_READING h s then uv__io_start (str_kernel E) (WHandle h) POLLIN s else Some s);
        call_read E h 0 [] s
      }
      else do {
        s \<leftarrow> call_read E h (- e) [] s;
        if has_flag UV_HANDLE_READING h s then stop_reading h (clear_flag UV_HANDLE_READING h s) else Some s
      })"

definition read_round ::
  "'a stream_loop_scheme stream_env \<Rightarrow> bool \<Rightarrow> hid \<Rightarrow> 'a stream_loop_scheme \<Rightarrow> (bool \<times> 'a stream_loop_scheme) option" where
  "read_round E by_msg h s = do {
     a \<leftarrow> alloc_cb (streams s h);
     (len, s) \<leftarrow> str_alloc E a h 65536 s;
     if len = 0 then do { s \<leftarrow> call_read E h UV_ENOBUFS [] s; Some (False, s) }
     else if \<not> uv__stream_fd h s \<ge> 0 then None
     else do {
       (n, s) \<leftarrow> lift_os (read_some (str_kernel E) by_msg (uv__stream_fd h s) len) s;
       if ret n < 0 then do { s \<leftarrow> read_failed E h (errno n) s; Some (False, s) }
       else if ret n = 0 then do { s \<leftarrow> uv__stream_eof E h s; Some (False, s) }
       else do {
         (err, s) \<leftarrow> (if by_msg then uv__stream_recv_cmsg (str_kernel E) h (rfds n) s else Some (0, s));
         if err \<noteq> 0 then do { s \<leftarrow> call_read E h err [] s; Some (False, s) }
         else do {
           s \<leftarrow> call_read E h (ret n) (take (nat (ret n)) (rdata n)) s;
           if ret n < int len then Some (False, set_flag UV_HANDLE_READ_PARTIAL h s) else Some (True, s)
         }
       }
     }
   }"

text \<open>\<^verbatim>\<open>uv__read\<close> makes at most 32 rounds.\<close>

fun read_rounds ::
  "'a stream_loop_scheme stream_env \<Rightarrow> bool \<Rightarrow> hid \<Rightarrow> nat \<Rightarrow> 'a stream_loop_scheme \<Rightarrow> 'a stream_loop_scheme option" where
  "read_rounds E by_msg h 0 s = Some s"
| "read_rounds E by_msg h (Suc n) s =
     (if read_cb (streams s h) = None \<or> \<not> has_flag UV_HANDLE_READING h s then Some s
      else do {
        (go_on, s) \<leftarrow> read_round E by_msg h s;
        if go_on then read_rounds E by_msg h n s else Some s
      })"

definition uv__read :: "'a stream_loop_scheme stream_env \<Rightarrow> hid \<Rightarrow> 'a stream_loop_scheme \<Rightarrow> 'a stream_loop_scheme option" where
  "uv__read E h s = (let s = clear_flag UV_HANDLE_READ_PARTIAL h s in read_rounds E (is_ipc h s) h 32 s)"

definition uv_read_start ::
  "kernel \<Rightarrow> hid \<Rightarrow> cb option \<Rightarrow> cb option \<Rightarrow> 'a stream_loop_scheme \<Rightarrow> (int \<times> 'a stream_loop_scheme) option" where
  "uv_read_start K h a c s =
     (if \<not> stream_kind (htype (handles s h)) then None
      else if has_flag UV_HANDLE_CLOSING h s then Some (UV_EINVAL, s)
      else if \<not> has_flag UV_HANDLE_READABLE h s then Some (UV_ENOTCONN, s)
      else (let s = set_flag UV_HANDLE_READING h s in
        if \<not> uv__stream_fd h s \<ge> 0 then None
        else if a = None then None
        else do {
          let s = upd_stream h (\<lambda>x. x\<lparr>read_cb := c, alloc_cb := a\<rparr>) s;
          s \<leftarrow> uv__io_start K (WHandle h) POLLIN s;
          Some (0, uv__handle_start h s)
        }))"

definition uv_read_stop :: "hid \<Rightarrow> 'a stream_loop_scheme \<Rightarrow> (int \<times> 'a stream_loop_scheme) option" where
  "uv_read_stop h s =
     (if \<not> has_flag UV_HANDLE_READING h s then Some (0, s)
      else do {
        s \<leftarrow> stop_reading h (clear_flag UV_HANDLE_READING h s);
        Some (0, upd_stream h (\<lambda>x. x\<lparr>read_cb := None, alloc_cb := None\<rparr>) s)
      })"

definition uv_is_readable :: "hid \<Rightarrow> 'a stream_loop_scheme \<Rightarrow> bool" where
  "uv_is_readable h s \<longleftrightarrow> has_flag UV_HANDLE_READABLE h s"

definition uv_is_writable :: "hid \<Rightarrow> 'a stream_loop_scheme \<Rightarrow> bool" where
  "uv_is_writable h s \<longleftrightarrow> has_flag UV_HANDLE_WRITABLE h s"

definition uv_stream_set_blocking :: "kernel \<Rightarrow> hid \<Rightarrow> bool \<Rightarrow> 'a stream_loop_scheme \<Rightarrow> (int \<times> 'a stream_loop_scheme) option" where
  "uv_stream_set_blocking K h blocking s = lift_os (uv__nonblock K (uv__stream_fd h s) (\<not> blocking)) s"

subsection \<open>Events on a stream\<close>

definition hup_eof :: "hid \<Rightarrow> u32 \<Rightarrow> 'a stream_loop_scheme \<Rightarrow> bool" where
  "hup_eof h events s \<longleftrightarrow>
     events AND POLLHUP \<noteq> 0 \<and> has_flag UV_HANDLE_READING h s \<and> has_flag UV_HANDLE_READ_PARTIAL h s
     \<and> \<not> has_flag UV_HANDLE_READ_EOF h s"

definition uv__stream_io ::
  "'a stream_loop_scheme stream_env \<Rightarrow> hid \<Rightarrow> u32 \<Rightarrow> 'a stream_loop_scheme \<Rightarrow> 'a stream_loop_scheme option" where
  "uv__stream_io E h events s =
     (if \<not> stream_kind (htype (handles s h)) then None
      else if has_flag UV_HANDLE_CLOSING h s then None
      else if connect_req (streams s h) \<noteq> None then uv__stream_connect E h s
      else if \<not> uv__stream_fd h s \<ge> 0 then None
      else do {
        s \<leftarrow> (if events AND (POLLIN OR POLLERR OR POLLHUP) \<noteq> 0 then uv__read E h s else Some s);
        if uv__stream_fd h s = - 1 then Some s
        else do {
          s \<leftarrow> (if hup_eof h events s then uv__stream_eof E h s else Some s);
          if uv__stream_fd h s = - 1 then Some s
          else if events AND (POLLOUT OR POLLERR OR POLLHUP) \<noteq> 0
          then do {
            s \<leftarrow> uv__write (str_kernel E) h s;
            s \<leftarrow> uv__write_callbacks E h s;
            if write_queue (streams s h) = [] then uv__drain E h s else Some s
          }
          else Some s
        }
      })"

subsection \<open>Servers\<close>

partial_function (option) emfile_drain :: "kernel \<Rightarrow> int \<Rightarrow> osw \<Rightarrow> (int \<times> osw) option" where
  "emfile_drain K accept_fd w = do {
     (err, w) \<leftarrow> uv__accept K accept_fd w;
     w \<leftarrow> (if err \<ge> 0 then map_option snd (uv__close K err w) else Some w);
     if err \<ge> 0 \<or> err = UV_EINTR then emfile_drain K accept_fd w else Some (err, w)
   }"

definition uv__emfile_trick :: "kernel \<Rightarrow> int \<Rightarrow> 'a stream_loop_scheme \<Rightarrow> (int \<times> 'a stream_loop_scheme) option" where
  "uv__emfile_trick K accept_fd s =
     (if emfile_fd s = - 1 then Some (UV_EMFILE, s)
      else do {
        (_, s) \<leftarrow> lift_os (uv__close K (emfile_fd s)) s;
        let s = s\<lparr>emfile_fd := - 1\<rparr>;
        (err, s) \<leftarrow> lift_os (emfile_drain K accept_fd) s;
        (fd, s) \<leftarrow> lift_os (uv__open_cloexec K ''/'' 0) s;
        Some (err, if fd \<ge> 0 then s\<lparr>emfile_fd := fd\<rparr> else s)
      })"

definition call_connection ::
  "'a stream_loop_scheme stream_env \<Rightarrow> hid \<Rightarrow> int \<Rightarrow> 'a stream_loop_scheme \<Rightarrow> 'a stream_loop_scheme option" where
  "call_connection E h status s = do { c \<leftarrow> connection_cb (streams s h); invoke_args (str_acb E) c h [status] [] s }"

partial_function (option) server_loop ::
  "'a stream_loop_scheme stream_env \<Rightarrow> hid \<Rightarrow> 'a stream_loop_scheme \<Rightarrow> 'a stream_loop_scheme option" where
  "server_loop E h s =
     (if uv__stream_fd h s = - 1 then Some s
      else if accepted_fd (streams s h) \<noteq> - 1 then None
      else do {
        (err, s) \<leftarrow> lift_os (uv__accept (str_kernel E) (uv__stream_fd h s)) s;
        if err < 0
        then (if err = UV_EAGAIN then Some s
              else if err = UV_ECONNABORTED then server_loop E h s
              else do {
                (err, s) \<leftarrow> (if err = UV_EMFILE \<or> err = UV_ENFILE
                              then uv__emfile_trick (str_kernel E) (uv__stream_fd h s) s else Some (err, s));
                if err = UV_EAGAIN then Some s
                else do { s \<leftarrow> call_connection E h err s; server_loop E h s }
              })
        else do {
          let s = upd_stream h (\<lambda>x. x\<lparr>accepted_fd := err\<rparr>) s;
          s \<leftarrow> call_connection E h 0 s;
          if accepted_fd (streams s h) \<noteq> - 1 then uv__io_stop (WHandle h) POLLIN s
          else (let s = (if htype (handles s h) = UV_TCP \<and> has_flag UV_HANDLE_TCP_SINGLE_ACCEPT h s
                         then snd (sysl (str_kernel E) (SysCall ''nanosleep'' [0, 1] []) s) else s)
                in server_loop E h s)
        }
      })"

declare emfile_drain.simps [code] server_loop.simps [code] recv_retry.simps [code]

definition uv__server_io ::
  "'a stream_loop_scheme stream_env \<Rightarrow> hid \<Rightarrow> u32 \<Rightarrow> 'a stream_loop_scheme \<Rightarrow> 'a stream_loop_scheme option" where
  "uv__server_io E h events s =
     (if events AND POLLIN = 0 then None
      else if accepted_fd (streams s h) \<noteq> - 1 then None
      else if has_flag UV_HANDLE_CLOSING h s then None
      else do {
        s \<leftarrow> uv__io_start (str_kernel E) (WHandle h) POLLIN s;
        server_loop E h s
      })"

text \<open>
  \<^verbatim>\<open>uv_accept\<close>. Opening a datagram socket, \<^verbatim>\<open>uv_udp_open\<close>, is the argument \<open>udp_open\<close>. After a failure the accepted
  descriptor is closed and the next one of the queue moves up all the same.
\<close>

definition accept_next :: "kernel \<Rightarrow> hid \<Rightarrow> int \<Rightarrow> 'a stream_loop_scheme \<Rightarrow> 'a stream_loop_scheme option" where
  "accept_next K server err s =
     (case queued_fds (streams s server) of
        Some (qsize, fds) \<Rightarrow>
          if fds = [] then None
          else Some (upd_stream server (\<lambda>x. x\<lparr>accepted_fd := hd fds,
                 queued_fds := (if tl fds = [] then None else Some (qsize, tl fds))\<rparr>) s)
      | None \<Rightarrow>
          let s = upd_stream server (\<lambda>x. x\<lparr>accepted_fd := - 1\<rparr>) s in
          if err = 0 then uv__io_start K (WHandle server) POLLIN s else Some s)"

definition uv_accept ::
  "kernel \<Rightarrow> (hid \<Rightarrow> int \<Rightarrow> 'a stream_loop_scheme \<Rightarrow> (int \<times> 'a stream_loop_scheme) option) \<Rightarrow> hid \<Rightarrow> hid \<Rightarrow>
    'a stream_loop_scheme \<Rightarrow> (int \<times> 'a stream_loop_scheme) option" where
  "uv_accept K udp_open server client s =
     (let fd = accepted_fd (streams s server); t = htype (handles s client) in
      if fd = - 1 then Some (UV_EAGAIN, s)
      else if t \<noteq> UV_NAMED_PIPE \<and> t \<noteq> UV_TCP \<and> t \<noteq> UV_UDP then Some (UV_EINVAL, s)
      else do {
        (err, s) \<leftarrow> (if t = UV_UDP then udp_open client fd s
                      else uv__stream_open K client fd (UV_HANDLE_READABLE OR UV_HANDLE_WRITABLE) s);
        s \<leftarrow> (if err \<noteq> 0 then map_option snd (lift_os (uv__close K fd) s)
              else Some (set_flag UV_HANDLE_BOUND client s));
        s \<leftarrow> accept_next K server err s;
        Some (err, s)
      })"

subsection \<open>Closing\<close>

definition uv__stream_close :: "kernel \<Rightarrow> hid \<Rightarrow> 'a stream_loop_scheme \<Rightarrow> 'a stream_loop_scheme option" where
  "uv__stream_close K h s = do {
     s \<leftarrow> uv__io_close K (WHandle h) s;
     (_, s) \<leftarrow> uv_read_stop h s;
     let s = uv__handle_stop h s;
     s \<leftarrow> (if uv__stream_fd h s \<noteq> - 1
           then do {
             s \<leftarrow> (if uv__stream_fd h s > 2 then map_option snd (lift_os (uv__close K (uv__stream_fd h s)) s) else Some s);
             Some (set_stream_fd h (- 1) s)
           } else Some s);
     s \<leftarrow> (if accepted_fd (streams s h) \<noteq> - 1
           then do {
             (_, s) \<leftarrow> lift_os (uv__close K (accepted_fd (streams s h))) s;
             Some (upd_stream h (\<lambda>x. x\<lparr>accepted_fd := - 1\<rparr>) s)
           } else Some s);
     s \<leftarrow> (case queued_fds (streams s h) of
             None \<Rightarrow> Some s
           | Some (_, fds) \<Rightarrow> do {
               s \<leftarrow> close_all K fds s;
               Some (upd_stream h (\<lambda>x. x\<lparr>queued_fds := None\<rparr>) s) });
     still \<leftarrow> uv__io_active (WHandle h) (POLLIN OR POLLOUT) s;
     if still then None else Some s
   }"

text \<open>The callbacks of the connect and the shutdown request are called here whether they are null or not.\<close>

definition cancel_req :: "'a stream_loop_scheme stream_env \<Rightarrow> hid \<Rightarrow> rid \<Rightarrow> 'a stream_loop_scheme \<Rightarrow> 'a stream_loop_scheme option" where
  "cancel_req E h r s = do {
     s \<leftarrow> uv__req_unregister s;
     c \<leftarrow> sreq_cb (stream_reqs s r);
     req_done E c h r UV_ECANCELED s
   }"

definition uv__stream_destroy :: "'a stream_loop_scheme stream_env \<Rightarrow> hid \<Rightarrow> 'a stream_loop_scheme \<Rightarrow> 'a stream_loop_scheme option" where
  "uv__stream_destroy E h s = do {
     still \<leftarrow> uv__io_active (WHandle h) (POLLIN OR POLLOUT) s;
     if still then None
     else if \<not> has_flag UV_HANDLE_CLOSED h s then None
     else do {
       s \<leftarrow> (case connect_req (streams s h) of
               None \<Rightarrow> Some s
             | Some r \<Rightarrow> do {
                 s \<leftarrow> cancel_req E h r s;
                 Some (upd_stream h (\<lambda>x. x\<lparr>connect_req := None\<rparr>) s) });
       s \<leftarrow> uv__write_callbacks E h (uv__stream_flush_write_queue h UV_ECANCELED s);
       s \<leftarrow> (case shutdown_req (streams s h) of
               None \<Rightarrow> Some s
             | Some r \<Rightarrow> do {
                 s \<leftarrow> cancel_req E h r s;
                 Some (upd_stream h (\<lambda>x. x\<lparr>shutdown_req := None\<rparr>) s) });
       if write_queue_size (streams s h) \<noteq> 0 then None else Some s
     }
   }"

text \<open>The kind of an open descriptor.\<close>

definition uv__handle_type :: "kernel \<Rightarrow> int \<Rightarrow> 'a io_loop_scheme \<Rightarrow> uv_handle_type \<times> 'a io_loop_scheme" where
  "uv__handle_type K fd s =
     (let (r, s) = sysl K (SysGetsockname fd) s; family = uint (rdata r ! 0) + 256 * uint (rdata r ! 1) in
      if ret r \<noteq> 0 then (UV_UNKNOWN_HANDLE, s)
      else (let (r, s) = sysl K (SysGetsockopt fd 1 3) s; typ = bytes_int (rdata r) in
        if ret r \<noteq> 0 then (UV_UNKNOWN_HANDLE, s)
        else if typ = 1 \<and> family = 1 then (UV_NAMED_PIPE, s)
        else if typ = 1 \<and> (family = 2 \<or> family = 10) then (UV_TCP, s)
        else if typ = 2 \<and> (family = 2 \<or> family = 10) then (UV_UDP, s)
        else (UV_UNKNOWN_HANDLE, s)))"

subsection \<open>What the functions leave alone\<close>

lemma upd_stream_simps [simp]:
  "streams (upd_stream h f s) = (streams s)(h := f (streams s h))" "writes (upd_stream h f s) = writes s"
  "stream_reqs (upd_stream h f s) = stream_reqs s" "emfile_fd (upd_stream h f s) = emfile_fd s"
  "handles (upd_stream h f s) = handles s" "active_reqs (upd_stream h f s) = active_reqs s" "os (upd_stream h f s) = os s"
  "io_watchers (upd_stream h f s) = io_watchers s" "watchers (upd_stream h f s) = watchers s" "nfds (upd_stream h f s) = nfds s"
  "watcher_queue (upd_stream h f s) = watcher_queue s" "io_trace (upd_stream h f s) = io_trace s"
  "active_handles (upd_stream h f s) = active_handles s" "pending_queue (upd_stream h f s) = pending_queue s"
  "backend_fd (upd_stream h f s) = backend_fd s" "trace (upd_stream h f s) = trace s" "pending_local (upd_stream h f s) = pending_local s"
  by (simp_all add: upd_stream_def)

lemma upd_write_simps [simp]:
  "writes (upd_write r f s) = (writes s)(r := f (writes s r))" "streams (upd_write r f s) = streams s"
  "stream_reqs (upd_write r f s) = stream_reqs s" "emfile_fd (upd_write r f s) = emfile_fd s"
  "handles (upd_write r f s) = handles s" "active_reqs (upd_write r f s) = active_reqs s" "os (upd_write r f s) = os s"
  "io_watchers (upd_write r f s) = io_watchers s" "watchers (upd_write r f s) = watchers s" "nfds (upd_write r f s) = nfds s"
  "watcher_queue (upd_write r f s) = watcher_queue s" "io_trace (upd_write r f s) = io_trace s"
  "active_handles (upd_write r f s) = active_handles s" "pending_queue (upd_write r f s) = pending_queue s"
  "backend_fd (upd_write r f s) = backend_fd s" "trace (upd_write r f s) = trace s" "pending_local (upd_write r f s) = pending_local s"
  by (simp_all add: upd_write_def)

text \<open>\<open>same_streams\<close>: two states of the loop in which the streams, their requests and their handles agree.\<close>

definition same_streams :: "'a stream_loop_scheme \<Rightarrow> 'a stream_loop_scheme \<Rightarrow> bool" where
  "same_streams s s' \<longleftrightarrow> streams s' = streams s \<and> writes s' = writes s \<and> stream_reqs s' = stream_reqs s \<and>
     emfile_fd s' = emfile_fd s \<and> active_reqs s' = active_reqs s \<and> io_trace s' = io_trace s \<and> trace s' = trace s"

lemma same_streams_trans: "same_streams s s' \<Longrightarrow> same_streams s' s'' \<Longrightarrow> same_streams s s''"
  by (simp add: same_streams_def)

lemma same_streams_io [simp]:
  "same_streams s s" "same_streams s (upd_io w f s)" "same_streams s (s\<lparr>os := o'\<rparr>)" "same_streams s (snd (sysl K c s))"
  "same_streams s (s\<lparr>watcher_queue := q\<rparr>)" "same_streams s (s\<lparr>watchers := t, nfds := n\<rparr>)" "same_streams s (s\<lparr>watchers := t\<rparr>)"
  "same_streams s (s\<lparr>pending_queue := q\<rparr>)" "same_streams s (upd_handle h g s)" "same_streams s (s\<lparr>active_handles := a\<rparr>)"
  by (simp_all add: same_streams_def upd_io_def upd_handle_def sysl_def split: prod.splits)

text \<open>The bytes the kernel has taken for a descriptor, read off the calls.\<close>

definition sends :: "syscall \<Rightarrow> int option" where
  "sends c = (case c of SysWrite fd b \<Rightarrow> Some fd | SysWritev fd iov \<Rightarrow> Some fd | SysSendmsg fd iov d \<Rightarrow> Some fd | _ \<Rightarrow> None)"

definition call_bytes :: "syscall \<Rightarrow> u8 list" where
  "call_bytes c = (case c of SysWrite fd b \<Rightarrow> b | SysWritev fd iov \<Rightarrow> concat iov | SysSendmsg fd iov d \<Rightarrow> concat iov | _ \<Rightarrow> [])"

definition sent_by :: "int \<Rightarrow> syscall \<times> sysret \<Rightarrow> u8 list" where
  "sent_by fd x = (if sends (fst x) = Some fd then take (nat (ret (snd x))) (call_bytes (fst x)) else [])"

definition sent :: "int \<Rightarrow> 'a io_loop_scheme \<Rightarrow> u8 list" where
  "sent fd s = concat (map (sent_by fd) (sys_trace (os s)))"

lemma sent_sysl: "sysl K c s = (r, s') \<Longrightarrow> sent fd s' = sent fd s @ sent_by fd (c, r)"
  by (auto simp: sysl_def sys_def Let_def sent_def)

lemma sends_other [simp]: "sends (SysAlloc n) = None" "sends (SysClose fd) = None" "sends (SysEpollCtl e opn fd ev) = None"
  "sends (SysShutdown fd) = None" "sends (SysIoctl fd c) = None"
  by (simp_all add: sends_def)

lemma write_call_bytes: "sends (write_call fd iov d) = Some fd" "call_bytes (write_call fd iov d) = concat iov"
proof -
  show "sends (write_call fd iov d) = Some fd" by (simp add: write_call_def sends_def split: option.splits)
  have "concat iov = iov ! 0" if "length iov = 1" using that by (cases iov) auto
  then show "call_bytes (write_call fd iov d) = concat iov" by (simp add: write_call_def call_bytes_def split: option.splits)
qed

text \<open>What write(2) and its relatives do: they take at most the bytes they are given, or fail.\<close>

definition writes_ok :: "kernel \<Rightarrow> bool" where
  "writes_ok K \<longleftrightarrow> (\<forall>tr c. sends c \<noteq> None \<longrightarrow> ret (K tr c) \<ge> - 1 \<and> ret (K tr c) \<le> int (length (call_bytes c)) \<and> errno (K tr c) > 0)"

definition alloc_ok :: "kernel \<Rightarrow> bool" where
  "alloc_ok K \<longleftrightarrow> (\<forall>tr n. ret (K tr (SysAlloc n)) \<noteq> 0)"

text \<open>The watcher of a stream: open, and in the table of its descriptor or nowhere.\<close>

definition stream_io :: "hid \<Rightarrow> 'a io_loop_scheme \<Rightarrow> bool" where
  "stream_io h s \<longleftrightarrow> io_inv s \<and>
     (let fd = iofd (io_watchers s (WHandle h)) in
      0 \<le> fd \<and> fd < 2 ^ 31 - 3 \<and>
      (nat fd < length (watchers s) \<longrightarrow> watchers s ! nat fd \<in> {None, Some (WHandle h)} \<and>
         (watchers s ! nat fd = None \<longrightarrow> pevents (io_watchers s (WHandle h)) = 0)))"

lemma io_stop_frames:
  assumes "uv__io_stop w ev s = Some s'"
  shows "same_streams s s'" "os s' = os s" "handles s' = handles s" "iofd (io_watchers s' v) = iofd (io_watchers s v)"
    "active_handles s' = active_handles s"
  using assms unfolding uv__io_stop_def io_queue_watcher_def Let_def
  by (auto simp: same_streams_def upd_io_def split: if_splits option.splits)

lemma sysl_result:
  assumes "sysl K c s = (r, s')"
  shows "s' = s\<lparr>os := os s'\<rparr>" "sends c = None \<Longrightarrow> sent fd s' = sent fd s" "live_fds (os s') = fd_effect c r (live_fds (os s))"
proof -
  obtain w where w: "sys K c (os s) = (r, w)" "s' = s\<lparr>os := w\<rparr>" using assms by (auto simp: sysl_def split: prod.splits)
  then show "s' = s\<lparr>os := os s'\<rparr>" by simp
  show "live_fds (os s') = fd_effect c r (live_fds (os s))" using live_fds_sys [OF w(1)] w(2) by simp
  show "sends c = None \<Longrightarrow> sent fd s' = sent fd s" using sent_sysl [OF assms] by (simp add: sent_by_def)
qed

lemma maybe_resize_frames:
  assumes "maybe_resize K n s = Some s'"
  shows "same_streams s s'" "sent fd s' = sent fd s" "handles s' = handles s" "io_watchers s' = io_watchers s"
    "live_fds (os s') = live_fds (os s)" "active_handles s' = active_handles s"
proof -
  have "\<exists>t w. s' = s\<lparr>watchers := t, os := w\<rparr> \<and> (\<forall>fd. sent fd s' = sent fd s) \<and> live_fds w = live_fds (os s)"
  proof (cases "n \<le> of_nat (length (watchers s))")
    case True
    then show ?thesis using assms by (intro exI [of _ "watchers s"] exI [of _ "os s"]) (simp add: maybe_resize_def)
  next
    case False
    let ?n = "next_power_of_two (n + 2) - 2"
    obtain r s1 where s1: "sysl K (SysAlloc (8 * (unat ?n + 2))) s = (r, s1)" by (cases "sysl K (SysAlloc (8 * (unat ?n + 2))) s")
    note f = sysl_result [OF s1]
    have "s' = s1\<lparr>watchers := watchers s1 @ replicate (unat ?n - length (watchers s1)) None\<rparr>"
      using assms False s1 by (auto simp: maybe_resize_def Let_def split: if_splits)
    moreover have "sent fd (s1\<lparr>watchers := t\<rparr>) = sent fd s" for fd t using f(2) [of fd] by (simp add: sent_def)
    moreover have "live_fds (os s1) = live_fds (os s)" using f(3) by (simp add: fd_effect_def new_fds_def)
    ultimately show ?thesis using f(1)
      by (intro exI [of _ "watchers s1 @ replicate (unat ?n - length (watchers s1)) None"] exI [of _ "os s1"]) (cases s1; cases s; simp)
  qed
  then obtain t w where e: "s' = s\<lparr>watchers := t, os := w\<rparr>" "\<forall>fd. sent fd s' = sent fd s" "live_fds w = live_fds (os s)" by blast
  from e(1) show "same_streams s s'" "handles s' = handles s" "io_watchers s' = io_watchers s" "active_handles s' = active_handles s"
    by (simp_all add: same_streams_def)
  from e show "sent fd s' = sent fd s" "live_fds (os s') = live_fds (os s)" by simp_all
qed

lemma io_start_frames:
  assumes "uv__io_start K w ev s = Some s'"
  shows "same_streams s s'" "sent fd s' = sent fd s" "handles s' = handles s" "iofd (io_watchers s' v) = iofd (io_watchers s v)"
    "live_fds (os s') = live_fds (os s)" "active_handles s' = active_handles s"
proof -
  obtain s1 where s1: "maybe_resize K (word_of_int (iofd (io_watchers s w)) + 1)
       (upd_io w (\<lambda>x. x\<lparr>pevents := pevents x OR ev\<rparr>) s) = Some s1"
      "s' = (if ioevents (io_watchers s1 w) = pevents (io_watchers s1 w) then s1 else io_enter w s1)"
    using assms
    by (cases "maybe_resize K (word_of_int (iofd (io_watchers s w)) + 1) (upd_io w (\<lambda>x. x\<lparr>pevents := pevents x OR ev\<rparr>) s)")
      (simp_all add: uv__io_start_def Let_def split: if_split_asm)
  note f = maybe_resize_frames [OF s1(1)]
  have e: "same_streams s1 s'" "os s' = os s1" "handles s' = handles s1" "io_watchers s' = io_watchers s1" "active_handles s' = active_handles s1"
    unfolding s1(2) io_enter_def io_queue_watcher_def Let_def by (auto simp: same_streams_def)
  show "same_streams s s'" using same_streams_trans [OF same_streams_trans [OF same_streams_io(2) f(1)] e(1)] .
  show "sent fd s' = sent fd s" "handles s' = handles s" "live_fds (os s') = live_fds (os s)" "active_handles s' = active_handles s"
    using f(2) [of fd] f(3,5,6) e by (simp_all add: sent_def upd_io_def)
  show "iofd (io_watchers s' v) = iofd (io_watchers s v)" using f(4) e(4) by (simp add: upd_io_def)
qed

lemma stream_ioD:
  assumes "stream_io h s"
  shows "io_inv s" "0 \<le> iofd (io_watchers s (WHandle h))" "iofd (io_watchers s (WHandle h)) < 2 ^ 31 - 3"
    "nat (iofd (io_watchers s (WHandle h))) < length (watchers s) \<Longrightarrow> watchers s ! nat (iofd (io_watchers s (WHandle h))) \<in> {None, Some (WHandle h)}"
    "nat (iofd (io_watchers s (WHandle h))) < length (watchers s) \<Longrightarrow> watchers s ! nat (iofd (io_watchers s (WHandle h))) = None \<Longrightarrow>
      pevents (io_watchers s (WHandle h)) = 0"
  using assms unfolding stream_io_def by (auto simp: Let_def)

lemma maybe_resize_total:
  assumes "alloc_ok K"
  shows "\<exists>s'. maybe_resize K n s = Some s'"
proof -
  have "ret (fst (sysl K (SysAlloc m) s)) \<noteq> 0" for m
    using assms by (simp add: alloc_ok_def sysl_def sys_def Let_def)
  then have "ret r \<noteq> 0" if "sysl K (SysAlloc m) s = (r, s1)" for m r s1 by (metis fst_conv that)
  then show ?thesis by (auto simp: maybe_resize_def Let_def split: prod.split)
qed

lemma io_start_stream:
  fixes s :: "'a stream_loop_scheme"
  assumes "stream_io h s" and "alloc_ok K" and "ev AND NOT IO_EVENTS = 0" and "ev \<noteq> 0"
  shows "\<exists>s'. uv__io_start K (WHandle h) ev s = Some s' \<and> stream_io h s'"
proof -
  note d = stream_ioD [OF assms(1)]
  obtain s1 where "maybe_resize K (word_of_int (iofd (io_watchers s (WHandle h))) + 1)
      (upd_io (WHandle h) (\<lambda>x. x\<lparr>pevents := pevents x OR ev\<rparr>) s) = Some s1"
    using maybe_resize_total [OF assms(2)] by blast
  then obtain s' where s': "uv__io_start K (WHandle h) ev s = Some s'"
    using assms(3,4) d(2,3) by (simp add: uv__io_start_def Let_def INT_MAX_def)
  note r = uv__io_start_inv [OF d(1,2,3,4) s']
  have "iofd (io_watchers s' (WHandle h)) = iofd (io_watchers s (WHandle h))" using io_start_frames(4) [OF s'] .
  then have "stream_io h s'" using r d(2,3) by (simp add: stream_io_def Let_def fd_watcher_def)
  then show ?thesis using s' by blast
qed

lemma io_stop_stream:
  fixes s :: "'a stream_loop_scheme"
  assumes "stream_io h s" and "ev AND NOT IO_EVENTS = 0" and "ev \<noteq> 0"
  shows "\<exists>s'. uv__io_stop (WHandle h) ev s = Some s' \<and> stream_io h s'"
proof -
  note d = stream_ioD [OF assms(1)]
  obtain s' where s': "uv__io_stop (WHandle h) ev s = Some s'" "io_inv s'"
    using uv__io_stop_inv [OF d(1) assms(2,3), of "WHandle h"] d by auto
  have f: "iofd (io_watchers s' (WHandle h)) = iofd (io_watchers s (WHandle h))" using io_stop_frames(4) [OF s'(1)] .
  have "watchers s' = watchers s \<and> (pevents (io_watchers s' (WHandle h)) = pevents (io_watchers s (WHandle h)) AND NOT ev \<or> s' = s) \<or>
     watchers s' = (watchers s)[nat (iofd (io_watchers s (WHandle h))) := None] \<and> pevents (io_watchers s' (WHandle h)) = 0"
  proof (cases "length (watchers s) \<le> nat (iofd (io_watchers s (WHandle h)))")
    case True
    then show ?thesis using s'(1) d(2) assms(2,3) by (simp add: uv__io_stop_def Let_def split: if_split_asm)
  next
    case False
    let ?w = "WHandle h"
    let ?fd = "iofd (io_watchers s ?w)"
    let ?s1 = "upd_io ?w (\<lambda>x. x\<lparr>pevents := pevents x AND NOT ev\<rparr>) s"
    have slot: "watchers s ! nat ?fd \<in> {None, Some ?w}" using d(4) False by simp
    show ?thesis
    proof (cases "pevents (io_watchers s ?w) AND NOT ev = 0")
      case p: True
      show ?thesis
      proof (cases "watchers s ! nat ?fd")
        case None
        then have "s' = ?s1\<lparr>watcher_queue := remove1 ?w (watcher_queue ?s1)\<rparr>"
          using s'(1) d(2) assms(2,3) False p by (simp add: uv__io_stop_def fd_watcher_def Let_def split: if_split_asm)
        then show ?thesis by simp
      next
        case (Some v)
        then have "watchers s' = (watchers s)[nat ?fd := None] \<and> pevents (io_watchers s' ?w) = 0"
          using s'(1) d(2) assms(2,3) False p slot by (simp add: uv__io_stop_def fd_watcher_def Let_def split: if_split_asm) auto
        then show ?thesis by blast
      qed
    next
      case False
      then have "s' = io_queue_watcher ?w ?s1"
        using s'(1) d(2) assms(2,3) \<open>\<not> length (watchers s) \<le> nat ?fd\<close>
        by (simp add: uv__io_stop_def Let_def split: if_split_asm)
      then show ?thesis by simp
    qed
  qed
  then consider "watchers s' = watchers s" "pevents (io_watchers s' (WHandle h)) = pevents (io_watchers s (WHandle h)) AND NOT ev"
    | "s' = s" | "watchers s' = (watchers s)[nat (iofd (io_watchers s (WHandle h))) := None]" "pevents (io_watchers s' (WHandle h)) = 0"
    by blast
  then have "stream_io h s'"
  proof cases
    case 1
    then show ?thesis using s'(2) d(2-4) d(5) unfolding stream_io_def f Let_def by simp
  next
    case 2
    then show ?thesis using assms(1) by simp
  next
    case 3
    then show ?thesis using s'(2) d(2,3) unfolding stream_io_def f Let_def by simp
  qed
  then show ?thesis using s'(1) by blast
qed

lemma poll_masks [simp]: "POLLIN AND NOT IO_EVENTS = 0" "POLLOUT AND NOT IO_EVENTS = 0" "POLLIN \<noteq> 0" "POLLOUT \<noteq> 0"
  "(POLLIN OR POLLOUT) AND NOT IO_EVENTS = 0" "POLLIN OR POLLOUT \<noteq> 0"
  by (simp_all add: IO_EVENTS_def POLLIN_def POLLOUT_def POLLRDHUP_def POLLPRI_def)

lemma stream_io_cong:
  assumes "stream_io h s" and "io_inv s'" and "watchers s' = watchers s" and "io_watchers s' = io_watchers s"
  shows "stream_io h s'"
  using assms by (simp add: stream_io_def)

lemma io_active_some [simp]: "ev AND NOT IO_EVENTS = 0 \<Longrightarrow> ev \<noteq> 0 \<Longrightarrow>
    uv__io_active w ev s = Some (pevents (io_watchers s w) AND ev \<noteq> 0)"
  by (simp add: uv__io_active_def)

end
