(* ===== verification/StreamWrite.thy ===== *)
theory StreamWrite
  imports UvStream
begin

text \<open>
  The write side of a stream (\<^verbatim>\<open>uv_write\<close>, \<^verbatim>\<open>uv__write\<close>, \<^verbatim>\<open>uv__write_callbacks\<close> and \<^verbatim>\<open>uv__stream_destroy\<close> of
  \<^verbatim>\<open>3rd/libuv/src/unix/stream.c\<close>) against what it promises.

  The promise is a queue of bytes: \<open>send_step\<close> emits bytes from the front of the first request, finishes it when none are left or
  fails it. \<open>write_view\<close> reads that queue off the state, \<open>sent\<close> reads the bytes the kernel took off its calls, and \<open>write_inv\<close>
  is the accounting: \<open>write_queue_size\<close> is the number of bytes still to be sent or given up, and every request has its place on
  one of the two queues. Every operation emits exactly what its step does.

  The refinement is for streams that do not block. On a blocking one \<^verbatim>\<open>uv__write\<close> tries again and again.
\<close>

subsection \<open>The bytes of the write queue\<close>

text \<open>The bytes of a request that are still to be sent.\<close>

definition pending :: "rid \<Rightarrow> 'a stream_loop_scheme \<Rightarrow> u8 list" where
  "pending r s = (case wbufs (writes s r) of None \<Rightarrow> [] | Some bufs \<Rightarrow> concat (drop (wwrite_index (writes s r)) bufs))"

declare write_advance.simps [simp del]

text \<open>The state after \<open>n\<close> bytes went from a request: \<open>bufs\<close> and \<open>i\<close> are its new buffers and index.\<close>

definition taken :: "hid \<Rightarrow> rid \<Rightarrow> nat \<Rightarrow> u8 list list \<Rightarrow> nat \<Rightarrow> 'a stream_loop_scheme \<Rightarrow> 'a stream_loop_scheme" where
  "taken h r n bufs i s =
     upd_stream h (\<lambda>x. x\<lparr>write_queue_size := write_queue_size x - of_nat n\<rparr>)
       (upd_write r (\<lambda>w. w\<lparr>wbufs := Some bufs, wwrite_index := i\<rparr>) s)"

lemma taken_twice: "taken h r m bufs' j (taken h r n bufs i s) = taken h r (n + m) bufs' j s"
  by (simp add: taken_def upd_stream_def upd_write_def diff_diff_eq)

lemma taken_simps [simp]:
  "writes (taken h r n bufs i s) = (writes s)(r := (writes s r)\<lparr>wbufs := Some bufs, wwrite_index := i\<rparr>)"
  "streams (taken h r n bufs i s) = (streams s)(h := (streams s h)\<lparr>write_queue_size := write_queue_size (streams s h) - of_nat n\<rparr>)"
  by (simp_all add: taken_def)

lemma concat_drop_nth: "i < length bufs \<Longrightarrow> concat (drop i bufs) = bufs ! i @ concat (drop (Suc i) bufs)"
  by (metis Cons_nth_drop_Suc concat.simps(2))

lemma write_advance_step:
  assumes "wbufs (writes s r) = Some bufs" and "wwrite_index (writes s r) < wnbufs (writes s r)"
  shows "n < length (bufs ! wwrite_index (writes s r)) \<Longrightarrow> write_advance h r n s = Some (False, taken h r n (bufs[wwrite_index (writes s r) := drop n (bufs ! wwrite_index (writes s r))]) (wwrite_index (writes s r)) s)"
    and "length (bufs ! wwrite_index (writes s r)) \<le> n \<Longrightarrow> of_nat (length (bufs ! wwrite_index (writes s r))) \<le> write_queue_size (streams s h) \<Longrightarrow>
      write_advance h r n s =
        (let s' = taken h r (length (bufs ! wwrite_index (writes s r))) bufs (wwrite_index (writes s r) + 1) s in
         if wwrite_index (writes s r) + 1 = wnbufs (writes s r)
         then (if n - length (bufs ! wwrite_index (writes s r)) \<noteq> 0 then None else Some (True, uv__write_req_finish r s'))
         else write_advance h r (n - length (bufs ! wwrite_index (writes s r))) s')"
proof -
  have u: "(writes s r)\<lparr>wbufs := Some b, wwrite_index := wwrite_index (writes s r)\<rparr> = (writes s r)\<lparr>wbufs := Some b\<rparr>"
    "(writes s r)\<lparr>wbufs := Some bufs, wwrite_index := j\<rparr> = (writes s r)\<lparr>wwrite_index := j\<rparr>" for b j
    using assms(1) by (cases "writes s r"; simp)+
  have t: "taken h r m b (wwrite_index (writes s r)) s = upd_stream h (\<lambda>x. x\<lparr>write_queue_size := write_queue_size x - of_nat m\<rparr>) (upd_write r (\<lambda>w. w\<lparr>wbufs := Some b\<rparr>) s)"
    "taken h r m bufs j s = upd_stream h (\<lambda>x. x\<lparr>write_queue_size := write_queue_size x - of_nat m\<rparr>) (upd_write r (\<lambda>w. w\<lparr>wwrite_index := j\<rparr>) s)"
    for m b j unfolding taken_def upd_write_def by (simp_all add: u)
  show "n < length (bufs ! wwrite_index (writes s r)) \<Longrightarrow> write_advance h r n s = Some (False, taken h r n (bufs[wwrite_index (writes s r) := drop n (bufs ! wwrite_index (writes s r))]) (wwrite_index (writes s r)) s)"
    using assms by (subst write_advance.simps) (simp add: t(1) Let_def)
  show "length (bufs ! wwrite_index (writes s r)) \<le> n \<Longrightarrow> of_nat (length (bufs ! wwrite_index (writes s r))) \<le> write_queue_size (streams s h) \<Longrightarrow>
      write_advance h r n s =
        (let s' = taken h r (length (bufs ! wwrite_index (writes s r))) bufs (wwrite_index (writes s r) + 1) s in
         if wwrite_index (writes s r) + 1 = wnbufs (writes s r)
         then (if n - length (bufs ! wwrite_index (writes s r)) \<noteq> 0 then None else Some (True, uv__write_req_finish r s'))
         else write_advance h r (n - length (bufs ! wwrite_index (writes s r))) s')"
    using assms by (subst write_advance.simps) (simp add: t(2) Let_def)
qed

lemma of_nat_le_64: "m \<le> n \<Longrightarrow> n < 2 ^ 64 \<Longrightarrow> (of_nat m :: u64) \<le> of_nat n"
  by (simp add: word_le_nat_alt unat_of_nat take_bit_nat_eq_self_iff)

lemma write_advance_takes:
  assumes "wbufs (writes s r) = Some bufs" and "length bufs = wnbufs (writes s r)" and "wwrite_index (writes s r) < wnbufs (writes s r)"
    and "n \<le> length (pending r s)" and "write_queue_size (streams s h) = of_nat m" and "length (pending r s) \<le> m" and "m < 2 ^ 64"
  shows "\<exists>bufs' i. length bufs' = wnbufs (writes s r) \<and>
    (if n = length (pending r s) then write_advance h r n s = Some (True, uv__write_req_finish r (taken h r n bufs' i s))
     else write_advance h r n s = Some (False, taken h r n bufs' i s) \<and> i < wnbufs (writes s r) \<and>
       concat (drop i bufs') = drop n (pending r s))"
  using assms
proof (induction "wnbufs (writes s r) - wwrite_index (writes s r)" arbitrary: s n m rule: less_induct)
  case less
  let ?i = "wwrite_index (writes s r)"
  let ?len = "length (bufs ! ?i)"
  have p: "pending r s = bufs ! ?i @ concat (drop (Suc ?i) bufs)"
    using less.prems(1-3) by (simp add: pending_def concat_drop_nth)
  note step = write_advance_step [OF less.prems(1,3)]
  show ?case
  proof (cases "n < ?len")
    case True
    have "concat (drop ?i (bufs[?i := drop n (bufs ! ?i)])) = drop n (pending r s)"
      using True less.prems(2,3) by (simp add: p concat_drop_nth)
    moreover have "n \<noteq> length (pending r s)" using True p by simp
    ultimately show ?thesis
      using step(1) [OF True, of h] less.prems(2,3) by (intro exI [of _ "bufs[?i := drop n (bufs ! ?i)]"] exI [of _ ?i]) simp
  next
    case False
    then have l: "?len \<le> n" by simp
    have le: "of_nat ?len \<le> write_queue_size (streams s h)"
      using less.prems(5-7) p by (simp add: of_nat_le_64)
    let ?s = "taken h r ?len bufs (?i + 1) s"
    show ?thesis
    proof (cases "?i + 1 = wnbufs (writes s r)")
      case True
      then have "pending r s = bufs ! ?i" using p less.prems(2) by simp
      then have "n = length (pending r s)" "n = ?len" using l less.prems(4) by auto
      then show ?thesis using step(2) [OF l le] True less.prems(2) by (intro exI [of _ bufs] exI [of _ "?i + 1"]) simp
    next
      case False
      have p': "pending r ?s = concat (drop (Suc ?i) bufs)" by (simp add: pending_def)
      have "write_queue_size (streams ?s h) = of_nat (m - ?len)" using less.prems(5,6) p by (simp add: of_nat_diff)
      moreover have "wnbufs (writes s r) - Suc ?i < wnbufs (writes s r) - ?i" using less.prems(3) by simp
      ultimately have ih: "\<exists>bufs' i. length bufs' = wnbufs (writes ?s r) \<and>
         (if n - ?len = length (pending r ?s) then write_advance h r (n - ?len) ?s = Some (True, uv__write_req_finish r (taken h r (n - ?len) bufs' i ?s))
         else write_advance h r (n - ?len) ?s = Some (False, taken h r (n - ?len) bufs' i ?s) \<and> i < wnbufs (writes ?s r) \<and>
           concat (drop i bufs') = drop (n - ?len) (pending r ?s))"
        using less.prems(2-4,6,7) False p l
        by (intro less.hyps [where m = "m - ?len"]) (simp_all add: p' [simplified])
      then obtain bufs' i where b: "length bufs' = wnbufs (writes ?s r)"
        "if n - ?len = length (pending r ?s) then write_advance h r (n - ?len) ?s = Some (True, uv__write_req_finish r (taken h r (n - ?len) bufs' i ?s))
         else write_advance h r (n - ?len) ?s = Some (False, taken h r (n - ?len) bufs' i ?s) \<and> i < wnbufs (writes ?s r) \<and>
           concat (drop i bufs') = drop (n - ?len) (pending r ?s)"
        using ih by blast
      have e: "taken h r (n - ?len) bufs' i ?s = taken h r n bufs' i s" "wnbufs (writes ?s r) = wnbufs (writes s r)"
        "(n - ?len = length (pending r ?s)) = (n = length (pending r s))" "drop (n - ?len) (pending r ?s) = drop n (pending r s)"
        using p p' l by (auto simp: taken_twice)
      have "write_advance h r (n - ?len) ?s = write_advance h r n s"
        using step(2) [OF l le] False by (simp only: Let_def if_False)
      then show ?thesis using b unfolding e by metis
    qed
  qed
qed

text \<open>
  What the write side promises, as steps of a queue of bytes. The state is the list of the requests to be sent, each with
  the bytes left of it, and the list of the finished ones with their status; the step emits bytes.
\<close>

type_synonym write_view = "(rid \<times> u8 list) list \<times> (rid \<times> int) list"

inductive send_step :: "write_view \<Rightarrow> u8 list \<Rightarrow> write_view \<Rightarrow> bool" where
  send_idle: "send_step ([], D) [] ([], D)"
| send_some: "send_step ((r, d @ bs) # Q, D) d ((r, bs) # Q, D)"
| send_last: "send_step ((r, bs) # Q, D) bs (Q, D @ [(r, 0)])"
| send_fail: "e < 0 \<Longrightarrow> send_step ((r, bs) # Q, D) [] (Q, D @ [(r, e)])"

definition write_view :: "hid \<Rightarrow> 'a stream_loop_scheme \<Rightarrow> write_view" where
  "write_view h s =
     (map (\<lambda>r. (r, pending r s)) (write_queue (streams s h)),
      map (\<lambda>r. (r, werror (writes s r))) (write_completed_queue (streams s h)))"

text \<open>The requests of the stream, and the bytes it still counts for them.\<close>

abbreviation queued :: "hid \<Rightarrow> 'a stream_loop_scheme \<Rightarrow> rid list" where
  "queued h s \<equiv> write_queue (streams s h) @ write_completed_queue (streams s h)"

definition unsent_size :: "hid \<Rightarrow> 'a stream_loop_scheme \<Rightarrow> nat" where
  "unsent_size h s = sum_list (map (\<lambda>r. length (pending r s)) (queued h s))"

definition waiting_ok :: "hid \<Rightarrow> uv_write_t \<Rightarrow> bool" where
  "waiting_ok h w \<longleftrightarrow> whandle w = h \<and> werror w = 0 \<and> wwrite_index w < wnbufs w \<and>
     (\<exists>bufs. wbufs w = Some bufs \<and> length bufs = wnbufs w)"

definition write_inv :: "hid \<Rightarrow> 'a stream_loop_scheme \<Rightarrow> bool" where
  "write_inv h s \<longleftrightarrow>
     distinct (queued h s) \<and> length (queued h s) \<le> unat (active_reqs s) \<and>
     (\<forall>r\<in>set (write_queue (streams s h)). waiting_ok h (writes s r)) \<and>
     (\<forall>r\<in>set (write_completed_queue (streams s h)). whandle (writes s r) = h \<and> werror (writes s r) \<le> 0) \<and>
     unsent_size h s < 2 ^ 64 \<and> write_queue_size (streams s h) = of_nat (unsent_size h s)"

lemma write_invD:
  assumes "write_inv h s"
  shows "distinct (queued h s)" "length (queued h s) \<le> unat (active_reqs s)"
    "r \<in> set (write_queue (streams s h)) \<Longrightarrow> waiting_ok h (writes s r)"
    "r \<in> set (write_completed_queue (streams s h)) \<Longrightarrow> whandle (writes s r) = h \<and> werror (writes s r) \<le> 0"
    "unsent_size h s < 2 ^ 64" "write_queue_size (streams s h) = of_nat (unsent_size h s)"
  using assms by (auto simp: write_inv_def)

lemma pending_cong: "writes s' r = writes s r \<Longrightarrow> pending r s' = pending r s"
  by (simp add: pending_def cong: option.case_cong)

lemma same_streams_view:
  assumes "same_streams s s'"
  shows "write_view h s' = write_view h s" "write_inv h s' = write_inv h s" "unsent_size h s' = unsent_size h s"
proof -
  have "pending r s' = pending r s" for r using assms by (intro pending_cong) (simp add: same_streams_def)
  then show "write_view h s' = write_view h s" "write_inv h s' = write_inv h s" "unsent_size h s' = unsent_size h s"
    using assms by (simp_all add: same_streams_def write_view_def write_inv_def unsent_size_def)
qed

lemma io_feed_frames [simp]:
  "same_streams s (uv__io_feed w s)" "os (uv__io_feed w s) = os s" "handles (uv__io_feed w s) = handles s"
  "watchers (uv__io_feed w s) = watchers s" "io_watchers (uv__io_feed w s) = io_watchers s"
  "io_inv (uv__io_feed w s) = io_inv s"
  by (auto simp: uv__io_feed_def same_streams_def io_inv_def registered_def)

text \<open>Finishing the head of the queue, with or without an error.\<close>

lemma finish_head:
  assumes "write_inv h s" and "write_queue (streams s h) = r # q" and "whandle w = h" and "werror w \<le> 0"
    and "length (pending r (s\<lparr>writes := (writes s)(r := w)\<rparr>)) = k" and "k \<le> length (pending r s)" and "werror w = 0 \<Longrightarrow> k = 0"
    and s1: "s1 = upd_stream h (\<lambda>x. x\<lparr>write_queue_size := write_queue_size x - of_nat (length (pending r s) - k)\<rparr>) (upd_write r (\<lambda>_. w) s)"
  shows "write_inv h (uv__write_req_finish r s1)"
    and "write_view h (uv__write_req_finish r s1) = (tl (fst (write_view h s)), snd (write_view h s) @ [(r, werror w)])"
    and "unsent_size h (uv__write_req_finish r s1) + (length (pending r s) - k) = unsent_size h s"
proof -
  note d = write_invD [OF assms(1)]
  let ?s = "uv__write_req_finish r s1"
  have nq: "r \<notin> set q" "r \<notin> set (write_completed_queue (streams s h))" using d(1) assms(2) by auto
  have st: "streams ?s h = (streams s h)\<lparr>write_queue := q, write_completed_queue := write_completed_queue (streams s h) @ [r],
      write_queue_size := write_queue_size (streams s h) - of_nat (length (pending r s) - k)\<rparr>"
    using assms(2,3) by (simp add: uv__write_req_finish_def Let_def s1 uv__io_feed_def)
  have wr: "writes ?s = (writes s)(r := (if werror w = 0 then w\<lparr>wbufs := None\<rparr> else w))" "active_reqs ?s = active_reqs s"
    using assms(3) by (simp_all add: uv__write_req_finish_def Let_def s1 uv__io_feed_def)
  have pr: "pending r ?s = pending r (s\<lparr>writes := (writes s)(r := w)\<rparr>)"
    using assms(5,7) wr by (auto simp: pending_def cong: option.case_cong)
  have po: "pending x ?s = pending x s" if "x \<noteq> r" for x using wr that by (intro pending_cong) simp
  have l: "map (\<lambda>x. length (pending x ?s)) q = map (\<lambda>x. length (pending x s)) q"
    "map (\<lambda>x. length (pending x ?s)) (write_completed_queue (streams s h)) = map (\<lambda>x. length (pending x s)) (write_completed_queue (streams s h))"
    by (intro map_ext impI; metis po nq)+
  show u: "unsent_size h ?s + (length (pending r s) - k) = unsent_size h s"
    unfolding unsent_size_def st using assms(2,5,6) pr by (simp add: l)
  have "write_queue_size (streams ?s h) = of_nat (unsent_size h ?s)"
    using d(6) u [symmetric] unfolding st by simp
  moreover have "unsent_size h ?s < 2 ^ 64" using u d(5) by linarith
  moreover have "waiting_ok h (writes ?s x)" if "x \<in> set q" for x using that nq d(3) [of x] assms(2) wr by auto
  moreover have "whandle (writes ?s x) = h \<and> werror (writes ?s x) \<le> 0" if "x \<in> set (write_completed_queue (streams s h) @ [r])" for x
    using that d(4) [of x] assms(3,4) wr by auto
  ultimately show "write_inv h ?s"
    using d(1,2) assms(2) unfolding write_inv_def st wr(2) by auto
  have "map (\<lambda>x. (x, pending x ?s)) q = map (\<lambda>x. (x, pending x s)) q" by (intro map_ext impI) (metis po nq(1))
  moreover have "map (\<lambda>x. (x, werror (writes ?s x))) (write_completed_queue (streams s h)) =
      map (\<lambda>x. (x, werror (writes s x))) (write_completed_queue (streams s h))" using wr nq by auto
  ultimately show "write_view h ?s = (tl (fst (write_view h s)), snd (write_view h s) @ [(r, werror w)])"
    unfolding write_view_def st using wr assms(2) by simp
qed

lemma take_head:
  assumes "write_inv h s" and "write_queue (streams s h) = r # q" and "length bufs = wnbufs (writes s r)" and "i < wnbufs (writes s r)"
    and "concat (drop i bufs) = drop n (pending r s)" and "n \<le> length (pending r s)"
  shows "write_inv h (taken h r n bufs i s)"
    and "write_view h (taken h r n bufs i s) = ((r, drop n (pending r s)) # tl (fst (write_view h s)), snd (write_view h s))"
    and "unsent_size h (taken h r n bufs i s) + n = unsent_size h s"
proof -
  note d = write_invD [OF assms(1)]
  let ?s = "taken h r n bufs i s"
  have nq: "r \<notin> set q" "r \<notin> set (write_completed_queue (streams s h))" using d(1) assms(2) by auto
  have pr: "pending r ?s = drop n (pending r s)" using assms(5) by (simp add: pending_def)
  have po: "pending x ?s = pending x s" if "x \<noteq> r" for x using that by (intro pending_cong) simp
  have l: "map (\<lambda>x. length (pending x ?s)) q = map (\<lambda>x. length (pending x s)) q"
    "map (\<lambda>x. length (pending x ?s)) (write_completed_queue (streams s h)) = map (\<lambda>x. length (pending x s)) (write_completed_queue (streams s h))"
    by (intro map_ext impI; metis po nq)+
  show u: "unsent_size h ?s + n = unsent_size h s"
    unfolding unsent_size_def using assms(2,6) pr by (simp add: l)
  have "waiting_ok h (writes ?s r)" using d(3) [of r] assms(2-4) by (simp add: waiting_ok_def)
  moreover have "waiting_ok h (writes ?s x)" if "x \<in> set q" for x using that nq d(3) [of x] assms(2) by auto
  moreover have "writes ?s x = writes s x" if "x \<in> set (write_completed_queue (streams s h))" for x using that nq by auto
  ultimately show "write_inv h ?s"
    using d assms(2) u [symmetric] by (auto simp: write_inv_def taken_def)
  have "map (\<lambda>x. (x, pending x ?s)) q = map (\<lambda>x. (x, pending x s)) q" by (intro map_ext impI) (metis po nq(1))
  moreover have "map (\<lambda>x. (x, werror (writes ?s x))) (write_completed_queue (streams s h)) =
      map (\<lambda>x. (x, werror (writes s x))) (write_completed_queue (streams s h))" using nq by auto
  ultimately show "write_view h ?s = ((r, drop n (pending r s)) # tl (fst (write_view h s)), snd (write_view h s))"
    unfolding write_view_def using assms(2) pr by simp
qed

text \<open>What a function on the write side leaves alone: the descriptors, the other streams and the flags but the active one.\<close>

definition stream_rest :: "uv_stream \<Rightarrow> uv_stream" where
  "stream_rest x = x\<lparr>write_queue := [], write_completed_queue := [], write_queue_size := 0\<rparr>"

definition write_frame :: "hid \<Rightarrow> 'a stream_loop_scheme \<Rightarrow> 'a stream_loop_scheme \<Rightarrow> bool" where
  "write_frame h s s' \<longleftrightarrow>
     (\<forall>v. iofd (io_watchers s' v) = iofd (io_watchers s v)) \<and>
     (\<forall>x. x \<noteq> h \<longrightarrow> streams s' x = streams s x) \<and>
     stream_rest (streams s' h) = stream_rest (streams s h) \<and>
     (\<forall>x. wsend (writes s' x) = wsend (writes s x) \<and> wcb (writes s' x) = wcb (writes s x)) \<and>
     (\<forall>x. htype (handles s' x) = htype (handles s x) \<and>
        flags_of s' x AND NOT UV_HANDLE_ACTIVE = flags_of s x AND NOT UV_HANDLE_ACTIVE) \<and>
     stream_reqs s' = stream_reqs s \<and> active_reqs s' = active_reqs s \<and> io_trace s' = io_trace s \<and> trace s' = trace s"

lemma write_frame_refl [simp]: "write_frame h s s"
  by (simp add: write_frame_def)

lemma write_frame_trans: "write_frame h s s' \<Longrightarrow> write_frame h s' s'' \<Longrightarrow> write_frame h s s''"
  by (simp add: write_frame_def)

lemma write_frame_same:
  assumes "same_streams s s'" and "handles s' = handles s" and "\<And>v. iofd (io_watchers s' v) = iofd (io_watchers s v)"
  shows "write_frame h s s'"
  using assms by (simp add: write_frame_def same_streams_def)

lemma write_frame_start:
  assumes "write_frame h s s'" and "uv__io_start K w ev s' = Some s''"
  shows "write_frame h s s''"
  by (rule write_frame_trans [OF assms(1) write_frame_same]) (use io_start_frames [OF assms(2)] in auto)

lemma write_frame_stop:
  assumes "write_frame h s s'" and "uv__io_stop w ev s' = Some s''"
  shows "write_frame h s s''"
  by (rule write_frame_trans [OF assms(1) write_frame_same]) (use io_stop_frames [OF assms(2)] in auto)

lemma write_frame_taken: "write_frame h s (taken h r n bufs i s)"
  by (simp add: write_frame_def taken_def stream_rest_def)

lemma write_frame_finish: "whandle (writes s r) = h \<Longrightarrow> write_frame h s (uv__write_req_finish r s)"
  by (simp add: write_frame_def uv__write_req_finish_def Let_def uv__io_feed_def stream_rest_def)

lemma flags_active: "(w OR UV_HANDLE_ACTIVE) AND NOT UV_HANDLE_ACTIVE = w AND NOT UV_HANDLE_ACTIVE"
  "(w AND NOT UV_HANDLE_ACTIVE) AND NOT UV_HANDLE_ACTIVE = w AND NOT UV_HANDLE_ACTIVE"
  by (auto intro!: bit_word_eqI simp: bit_simps)

lemma handle_stop_frames:
  fixes s :: "'a stream_loop_scheme"
  shows "same_streams s (uv__handle_stop h s)" "io_watchers (uv__handle_stop h s) = io_watchers s"
    "watchers (uv__handle_stop h s) = watchers s" "os (uv__handle_stop h s) = os s" "io_inv (uv__handle_stop h s) = io_inv s"
    "htype (handles (uv__handle_stop h s) x) = htype (handles s x)"
    "flags_of (uv__handle_stop h s) x AND NOT UV_HANDLE_ACTIVE = flags_of s x AND NOT UV_HANDLE_ACTIVE"
  by (auto simp: uv__handle_stop_def clear_flag_def uv__active_handle_rm_def same_streams_def upd_handle_def io_inv_def
      registered_def Let_def flags_active)

lemma write_frame_handle_stop:
  assumes "write_frame h s s'"
  shows "write_frame h s (uv__handle_stop y s')"
  by (rule write_frame_trans [OF assms]) (use handle_stop_frames [where s = s' and h = y] in \<open>simp add: write_frame_def same_streams_def\<close>)

lemma write_failed_ok:
  assumes "write_inv h s" and "stream_io h s" and "write_queue (streams s h) = r # q" and "err < 0"
  shows "\<exists>s'. write_failed r h err s = Some s' \<and> write_inv h s' \<and> stream_io h s' \<and> write_frame h s s' \<and> os s' = os s \<and>
    write_view h s' = (tl (fst (write_view h s)), snd (write_view h s) @ [(r, err)]) \<and> unsent_size h s' = unsent_size h s"
proof -
  have w: "waiting_ok h (writes s r)" using write_invD(3) [OF assms(1)] assms(3) by simp
  define s1 where "s1 = upd_write r (\<lambda>w. w\<lparr>werror := err\<rparr>) s"
  define s2 where "s2 = uv__write_req_finish r s1"
  have p: "pending r (s\<lparr>writes := (writes s)(r := (writes s r)\<lparr>werror := err\<rparr>)\<rparr>) = pending r s"
    by (simp add: pending_def cong: option.case_cong)
  have s1: "s1 = upd_stream h (\<lambda>x. x\<lparr>write_queue_size := write_queue_size x - of_nat (length (pending r s) - length (pending r s))\<rparr>)
      (upd_write r (\<lambda>_. (writes s r)\<lparr>werror := err\<rparr>) s)"
    by (simp add: s1_def upd_stream_def upd_write_def fun_upd_def)
  note f = finish_head [OF assms(1,3) _ _ _ _ _ s1, folded s2_def, unfolded p]
  have v: "write_inv h s2" "write_view h s2 = (tl (fst (write_view h s)), snd (write_view h s) @ [(r, err)])"
    "unsent_size h s2 = unsent_size h s"
    using f w assms(4) by (simp_all add: waiting_ok_def)
  have "write_frame h s s1" by (simp add: write_frame_def s1_def)
  moreover have "write_frame h s1 s2" using w unfolding s2_def by (intro write_frame_finish) (simp add: s1_def waiting_ok_def)
  ultimately have fr: "write_frame h s s2" by (rule write_frame_trans)
  have io: "stream_io h s2" "os s2 = os s"
    using assms(2) unfolding s2_def s1_def uv__write_req_finish_def Let_def
    by (auto elim!: stream_io_cong simp: stream_io_def io_inv_def registered_def uv__io_feed_def)
  obtain s3 where s3: "uv__io_stop (WHandle h) POLLOUT s2 = Some s3" "stream_io h s3"
    using io_stop_stream [OF io(1), of POLLOUT] by auto
  note st = io_stop_frames [OF s3(1)]
  define s4 where "s4 = (if pevents (io_watchers s3 (WHandle h)) AND POLLIN = 0 then uv__handle_stop h s3 else s3)"
  have "write_failed r h err s = Some s4"
    using s3(1) by (simp add: write_failed_def s1_def [symmetric] s2_def [symmetric] s4_def)
  moreover have "same_streams s2 s4" "stream_io h s4" "os s4 = os s"
    using st(1,2) handle_stop_frames [where s = s3 and h = h] s3(2) io(2)
    by (auto simp: s4_def stream_io_def intro: same_streams_trans)
  moreover have "write_frame h s s4"
    using write_frame_stop [OF fr s3(1)] by (simp add: s4_def write_frame_handle_stop)
  ultimately show ?thesis using v same_streams_view [of s2 s4] by auto
qed

lemma lift_retry: "prompt K \<Longrightarrow> lift_os (retry K c) s = Some (sysl K c s)"
  by (simp add: lift_os_def sysl_def retry_prompt split: prod.split)

lemma io_inv_os [simp]: "io_inv (s\<lparr>os := w\<rparr>) = io_inv s"
  by (simp add: io_inv_def registered_def)

lemma sysl_stream:
  fixes s :: "'a stream_loop_scheme"
  assumes "sysl K c s = (r, s')"
  shows "same_streams s s'" "stream_io h s' = stream_io h s" "handles s' = handles s" "io_watchers s' = io_watchers s" "watchers s' = watchers s"
proof -
  note e = sysl_result(1) [OF assms]
  show "same_streams s s'" "handles s' = handles s" "io_watchers s' = io_watchers s" "watchers s' = watchers s"
    by (subst e, simp)+
  show "stream_io h s' = stream_io h s" by (subst e, simp add: stream_io_def)
qed

text \<open>A request that sends a handle along has one to send, or its handle is closed.\<close>

definition send_ok :: "rid \<Rightarrow> 'a stream_loop_scheme \<Rightarrow> bool" where
  "send_ok r s \<longleftrightarrow> send_closed r s \<or> send_fd r s \<noteq> None"

lemma write_iov_bytes:
  assumes "waiting_ok h (writes s r)"
  shows "\<exists>iov rest. write_iov r s = Some iov \<and> pending r s = concat iov @ rest"
proof -
  obtain bufs where b: "wbufs (writes s r) = Some bufs" "length bufs = wnbufs (writes s r)"
    using assms by (auto simp: waiting_ok_def)
  let ?l = "drop (wwrite_index (writes s r)) bufs"
  have "write_iov r s = Some (take uv__getiovmax ?l)" using b by (simp add: write_iov_def)
  moreover have "pending r s = concat (take uv__getiovmax ?l) @ concat (drop uv__getiovmax ?l)"
    using b unfolding pending_def by (simp del: drop_drop) (metis append_take_drop_id concat_append)
  ultimately show ?thesis by blast
qed

lemma uv__write_call:
  assumes "prompt K" and "uv__stream_fd h s \<ge> 0" and "write_queue (streams s h) = r # q" and "whandle (writes s r) = h"
    and "\<not> send_closed r s" and "write_iov r s = Some iov" and "send_fd r s = Some f"
    and "sysl K (write_call (uv__stream_fd h s) iov f) s = (n, s1)"
  shows "uv__write K h s =
        (if ret n < 0
         then (if errno n \<noteq> EAGAIN \<and> errno n \<noteq> ENOBUFS then write_failed r h (- errno n) s1
               else if has_flag UV_HANDLE_BLOCKING_WRITES h s1 then uv__write K h s1
               else if ret n \<noteq> - 1 then None else write_wait K h s1)
         else do { (finished, s) \<leftarrow> write_advance h r (nat (ret n)) s1;
                   if finished then Some s
                   else if has_flag UV_HANDLE_BLOCKING_WRITES h s then uv__write K h s
                   else write_wait K h s })"
  by (subst uv__write.simps) (simp only: assms lift_retry [OF assms(1)] not_not if_False if_True list.case Option.bind.simps option.case prod.case simp_thms)

lemma io_inv_stream_upds [simp]: "io_inv (upd_stream h f s) = io_inv s" "io_inv (upd_write r g s) = io_inv s"
  by (simp_all add: io_inv_def registered_def)

lemma finish_stream_io: "stream_io h (uv__write_req_finish r s) = stream_io h s"
  by (auto elim!: stream_io_cong simp: uv__write_req_finish_def Let_def stream_io_def)

lemma finish_clears:
  assumes "werror (writes s r) = 0"
  shows "uv__write_req_finish r s = uv__write_req_finish r (upd_write r (\<lambda>w. w\<lparr>wbufs := None\<rparr>) s)"
  using assms by (simp add: uv__write_req_finish_def upd_write_def upd_stream_def Let_def)

lemma uv__write_refines:
  assumes "write_inv h s" and "stream_io h s" and "\<not> has_flag UV_HANDLE_BLOCKING_WRITES h s"
    and "writes_ok K" and "prompt K" and "alloc_ok K" and "\<forall>r q. write_queue (streams s h) = r # q \<longrightarrow> send_ok r s"
  shows "\<exists>s' d. uv__write K h s = Some s' \<and> send_step (write_view h s) d (write_view h s') \<and>
    sent (uv__stream_fd h s) s' = sent (uv__stream_fd h s) s @ d \<and> write_inv h s' \<and> stream_io h s' \<and> write_frame h s s' \<and>
    unsent_size h s' + length d = unsent_size h s"
proof (cases "write_queue (streams s h)")
  case Nil
  then have "uv__write K h s = Some s" using stream_ioD(2) [OF assms(2)] by (subst uv__write.simps) (simp add: uv__stream_fd_def)
  then show ?thesis using assms(1,2) Nil by (intro exI [of _ s] exI [of _ "[]"]) (simp add: write_view_def send_idle)
next
  case (Cons r q)
  have fd: "uv__stream_fd h s \<ge> 0" using stream_ioD(2) [OF assms(2)] by (simp add: uv__stream_fd_def)
  have w: "waiting_ok h (writes s r)" using write_invD(3) [OF assms(1)] Cons by simp
  have view: "write_view h s = ((r, pending r s) # tl (fst (write_view h s)), snd (write_view h s))"
    using Cons by (simp add: write_view_def)
  show ?thesis
  proof (cases "send_closed r s")
    case True
    then have "uv__write K h s = write_failed r h UV_EBADF s"
      using fd Cons w by (subst uv__write.simps) (simp add: waiting_ok_def)
    moreover obtain s' where "write_failed r h UV_EBADF s = Some s'" "write_inv h s'" "stream_io h s'" "write_frame h s s'" "os s' = os s"
      "write_view h s' = (tl (fst (write_view h s)), snd (write_view h s) @ [(r, UV_EBADF)])" "unsent_size h s' = unsent_size h s"
      using write_failed_ok [OF assms(1,2) Cons, of UV_EBADF] by (auto simp: UV_EBADF_def)
    moreover have "send_step (write_view h s) [] (tl (fst (write_view h s)), snd (write_view h s) @ [(r, UV_EBADF)])"
      by (subst view) (simp add: send_fail UV_EBADF_def)
    ultimately show ?thesis by (intro exI [of _ s'] exI [of _ "[]"]) (simp add: sent_def)
  next
    case False
    obtain iov rest where iov: "write_iov r s = Some iov" "pending r s = concat iov @ rest" using write_iov_bytes [OF w] by blast
    obtain f where f: "send_fd r s = Some f" using assms(7) Cons False by (auto simp: send_ok_def)
    let ?c = "write_call (uv__stream_fd h s) iov f"
    obtain n s1 where s1: "sysl K ?c s = (n, s1)" by (cases "sysl K ?c s")
    note t = sysl_stream [OF s1]
    have ok: "ret n \<ge> - 1" "ret n \<le> int (length (concat iov))" "errno n > 0"
    proof -
      have "n = K (sys_trace (os s)) ?c" using s1 by (auto simp: sysl_def sys_def Let_def)
      then show "ret n \<ge> - 1" "ret n \<le> int (length (concat iov))" "errno n > 0"
        using assms(4) unfolding writes_ok_def by (metis write_call_bytes option.distinct(1))+
    qed
    have sn: "sent (uv__stream_fd h s) s1 = sent (uv__stream_fd h s) s @ take (nat (ret n)) (concat iov)"
      using sent_sysl [OF s1] by (simp add: sent_by_def write_call_bytes)
    have v1: "write_view h s1 = write_view h s" "write_inv h s1" "unsent_size h s1 = unsent_size h s" using same_streams_view [OF t(1)] assms(1) by simp_all
    have q1: "write_queue (streams s1 h) = r # q" "writes s1 = writes s" "pending r s1 = pending r s"
      using t(1) Cons pending_cong [of s1 r s] by (simp_all add: same_streams_def)
    have nb: "\<not> has_flag UV_HANDLE_BLOCKING_WRITES h s1" using assms(3) unfolding has_flag_def t(3) .
    have fr: "write_frame h s s1" by (rule write_frame_same [OF t(1,3)]) (simp only: t(4))
    have "whandle (writes s r) = h" using w by (simp add: waiting_ok_def)
    note go = uv__write_call [OF assms(5) fd Cons this False iov(1) f s1]
    have wait: "\<exists>s3. write_wait K h s2 = Some s3 \<and> same_streams s2 s3 \<and> stream_io h s3 \<and> write_frame h s2 s3 \<and>
        (\<forall>fd. sent fd s3 = sent fd s2)"
      if io2: "stream_io h s2" and b2: "\<not> has_flag UV_HANDLE_BLOCKING_WRITES h s2" for s2 :: "'a stream_loop_scheme"
    proof -
      obtain s3 where s3: "uv__io_start K (WHandle h) POLLOUT s2 = Some s3" "stream_io h s3"
        using io_start_stream [OF io2 assms(6), of POLLOUT] by auto
      then show ?thesis using b2 io_start_frames [OF s3(1)] write_frame_start [OF write_frame_refl s3(1)]
        by (auto simp: write_wait_def)
    qed
    show ?thesis
    proof (cases "ret n < 0")
      case True
      then have n1: "ret n = - 1" using ok by simp
      then have sn': "sent (uv__stream_fd h s) s1 = sent (uv__stream_fd h s) s" using sn by simp
      show ?thesis
      proof (cases "errno n \<noteq> EAGAIN \<and> errno n \<noteq> ENOBUFS")
        case e: True
        obtain s' where s': "write_failed r h (- errno n) s1 = Some s'" "write_inv h s'" "stream_io h s'" "write_frame h s1 s'" "os s' = os s1"
          "write_view h s' = (tl (fst (write_view h s1)), snd (write_view h s1) @ [(r, - errno n)])" "unsent_size h s' = unsent_size h s1"
          using write_failed_ok [OF v1(2) _ q1(1), of "- errno n"] t(2) assms(2) ok(3) by auto
        moreover have "send_step (write_view h s) [] (write_view h s')"
          using ok(3) unfolding s'(6) v1(1) by (subst view) (simp add: send_fail)
        moreover have "uv__write K h s = Some s'" using go True e s'(1) by simp
        moreover have "sent (uv__stream_fd h s) s' = sent (uv__stream_fd h s) s" using s'(5) sn' by (simp add: sent_def)
        ultimately show ?thesis using write_frame_trans [OF fr] v1(3) by (intro exI [of _ s'] exI [of _ "[]"]) simp
      next
        case e: False
        obtain s3 where s3: "write_wait K h s1 = Some s3" "same_streams s1 s3" "stream_io h s3" "write_frame h s1 s3"
          "sent (uv__stream_fd h s) s3 = sent (uv__stream_fd h s) s1"
          using wait [of s1] t(2) assms(2) nb by auto
        moreover have "uv__write K h s = Some s3" using go True e s3(1) n1 nb by simp
        moreover have "send_step (write_view h s) [] (write_view h s3)"
          unfolding same_streams_view(1) [OF s3(2)] v1(1) using send_some [of r "[]"] by (subst (1 2) view) simp
        ultimately show ?thesis using sn' write_frame_trans [OF fr] same_streams_view(2,3) [OF s3(2)] v1(2,3)
          by (intro exI [of _ s3] exI [of _ "[]"]) simp
      qed
    next
      case False
      let ?n = "nat (ret n)"
      have np: "?n \<le> length (pending r s1)" using ok(2) False iov(2) q1(3) by simp
      have dt: "take ?n (concat iov) = take ?n (pending r s1)" using ok(2) False iov(2) q1(3) by simp
      obtain bufs where b: "wbufs (writes s1 r) = Some bufs" "length bufs = wnbufs (writes s1 r)" "wwrite_index (writes s1 r) < wnbufs (writes s1 r)"
        using w q1(2) by (auto simp: waiting_ok_def)
      have us: "length (pending r s1) \<le> unsent_size h s1" using q1(1) by (simp add: unsent_size_def)
      obtain bufs' i where a: "length bufs' = wnbufs (writes s1 r)"
        "if ?n = length (pending r s1) then write_advance h r ?n s1 = Some (True, uv__write_req_finish r (taken h r ?n bufs' i s1))
         else write_advance h r ?n s1 = Some (False, taken h r ?n bufs' i s1) \<and> i < wnbufs (writes s1 r) \<and>
           concat (drop i bufs') = drop ?n (pending r s1)"
        using write_advance_takes [OF b np write_invD(6) [OF v1(2)] us write_invD(5) [OF v1(2)]] by blast
      have tk: "stream_io h (taken h r ?n bufs' i s1)" "os (taken h r ?n bufs' i s1) = os s1" "handles (taken h r ?n bufs' i s1) = handles s1"
      proof -
        have "stream_io h s1" using t(2) assms(2) by simp
        then show "stream_io h (taken h r ?n bufs' i s1)"
          by (rule stream_io_cong) (use stream_ioD(1) [OF \<open>stream_io h s1\<close>] in \<open>simp_all add: taken_def\<close>)
      qed (simp_all add: taken_def)
      show ?thesis
      proof (cases "?n = length (pending r s1)")
        case True
        let ?w = "(writes s r)\<lparr>wbufs := Some bufs', wwrite_index := i\<rparr>"
        define s2 where "s2 = uv__write_req_finish r (taken h r ?n bufs' i s1)"
        have z: "werror ?w = 0" "whandle ?w = h" using w by (simp_all add: waiting_ok_def)
        let ?u = "upd_stream h (\<lambda>x. x\<lparr>write_queue_size := write_queue_size x - of_nat (length (pending r s1) - 0)\<rparr>)
              (upd_write r (\<lambda>_. ?w\<lparr>wbufs := None\<rparr>) s1)"
        have "uv__write_req_finish r (taken h r ?n bufs' i s1) = uv__write_req_finish r (upd_write r (\<lambda>w. w\<lparr>wbufs := None\<rparr>) (taken h r ?n bufs' i s1))"
          by (rule finish_clears) (use z q1(2) in simp)
        also have "upd_write r (\<lambda>w. w\<lparr>wbufs := None\<rparr>) (taken h r ?n bufs' i s1) = ?u"
          unfolding taken_def True by (simp add: upd_write_def upd_stream_def q1(2))
        finally have "uv__write_req_finish r (taken h r ?n bufs' i s1) = uv__write_req_finish r ?u" .
        note fh = finish_head [OF v1(2) q1(1), of "?w\<lparr>wbufs := None\<rparr>" 0, OF _ _ _ _ _ refl, folded this, folded s2_def]
        have v2: "write_inv h s2" "write_view h s2 = (tl (fst (write_view h s)), snd (write_view h s) @ [(r, 0)])"
          "unsent_size h s2 + length (pending r s1) = unsent_size h s"
          using fh z v1(1,3) by (simp_all add: pending_def)
        have "uv__write K h s = Some s2" using go False a(2) True by (simp add: s2_def)
        moreover have "send_step (write_view h s) (pending r s) (write_view h s2)"
          unfolding v2(2) by (subst view) (simp add: send_last)
        moreover have "sent (uv__stream_fd h s) s2 = sent (uv__stream_fd h s) s @ pending r s"
          using sn dt True q1(3) tk(2) by (simp add: sent_def s2_def uv__write_req_finish_def Let_def)
        moreover have "stream_io h s2"
          unfolding s2_def finish_stream_io by (rule tk(1))
        moreover have "write_frame h s s2"
        proof -
          have "whandle (writes (taken h r ?n bufs' i s1) r) = h" using z q1(2) by simp
          then show ?thesis unfolding s2_def using fr write_frame_taken write_frame_finish write_frame_trans by metis
        qed
        ultimately show ?thesis using v2(1,3) q1(3) by (intro exI [of _ s2] exI [of _ "pending r s"]) simp
      next
        case part: False
        let ?s = "taken h r ?n bufs' i s1"
        have i: "i < wnbufs (writes s1 r)" "concat (drop i bufs') = drop ?n (pending r s1)" "write_advance h r ?n s1 = Some (False, ?s)"
          using a(2) part by simp_all
        note th = take_head [OF v1(2) q1(1) a(1) i(1,2) np]
        have nb2: "\<not> has_flag UV_HANDLE_BLOCKING_WRITES h ?s" using nb unfolding has_flag_def tk(3) .
        obtain s3 where s3: "write_wait K h ?s = Some s3" "same_streams ?s s3" "stream_io h s3" "write_frame h ?s s3"
          "sent (uv__stream_fd h s) s3 = sent (uv__stream_fd h s) ?s"
          using wait [OF tk(1) nb2] by auto
        have "uv__write K h s = Some s3" using go False i(3) nb2 s3(1) by simp
        moreover have "send_step (write_view h s) (take ?n (pending r s)) (write_view h s3)"
        proof -
          have "send_step ((r, take ?n (pending r s) @ drop ?n (pending r s)) # tl (fst (write_view h s)), snd (write_view h s))
              (take ?n (pending r s)) ((r, drop ?n (pending r s)) # tl (fst (write_view h s)), snd (write_view h s))" by (rule send_some)
          then show ?thesis unfolding same_streams_view(1) [OF s3(2)] th(2) v1(1) q1(3) by (subst view) simp
        qed
        moreover have "sent (uv__stream_fd h s) s3 = sent (uv__stream_fd h s) s @ take ?n (pending r s)"
          using s3(5) sn dt q1(3) tk(2) by (simp add: sent_def)
        moreover have "write_inv h s3" "unsent_size h s3 + length (take ?n (pending r s)) = unsent_size h s"
          using th(1,3) same_streams_view(2,3) [OF s3(2)] v1(3) np q1(3) by simp_all
        moreover have "write_frame h s s3" using fr write_frame_taken s3(4) write_frame_trans by metis
        ultimately show ?thesis using s3(3) by (intro exI [of _ s3] exI [of _ "take ?n (pending r s)"]) simp
      qed
    qed
  qed
qed

lemma count_bufs: "uv__count_bufs bufs = of_nat (length (concat bufs))"
proof -
  have "fold (\<lambda>b n. n + of_nat (length b)) bufs m = m + of_nat (length (concat bufs))" for m :: u64
    by (induction bufs arbitrary: m) (simp_all add: add.assoc)
  then show ?thesis by (simp add: uv__count_bufs_def)
qed

text \<open>Queueing a new request.\<close>

lemma append_ok:
  fixes s :: "'a stream_loop_scheme"
  assumes "write_inv h s" and "r \<notin> set (queued h s)" and "bufs \<noteq> []" and "unsent_size h s + length (concat bufs) < 2 ^ 64"
    and "unat (active_reqs s) < 2 ^ 32 - 1" and s1: "same_streams (req_init r h send c s) s1"
  shows "write_inv h (write_append r h bufs s1)"
    and "write_view h (write_append r h bufs s1) = (fst (write_view h s) @ [(r, concat bufs)], snd (write_view h s))"
    and "unsent_size h (write_append r h bufs s1) = unsent_size h s + length (concat bufs)"
    and "wsend (writes (write_append r h bufs s1) r) = send" "\<And>x. x \<noteq> r \<Longrightarrow> wsend (writes (write_append r h bufs s1) x) = wsend (writes s x)"
proof -
  note d = write_invD [OF assms(1)]
  let ?s = "write_append r h bufs s1"
  let ?x = "streams s h"
  have st: "streams s1 = streams s" using s1 by (simp add: same_streams_def req_init_def uv__req_register_def)
  have wr: "writes s1 = (writes s)(r := (writes s r)\<lparr>wcb := c, whandle := h, werror := 0, wsend := send, wbufs := None\<rparr>)"
    "active_reqs s1 = active_reqs s + 1"
    using s1 by (simp_all add: same_streams_def req_init_def uv__req_register_def)
  have x: "streams ?s h = ?x\<lparr>write_queue_size := write_queue_size ?x + of_nat (length (concat bufs)), write_queue := write_queue ?x @ [r]\<rparr>"
    by (simp add: write_append_def st count_bufs)
  have w: "writes ?s = (writes s)(r := (writes s r)\<lparr>wcb := c, whandle := h, werror := 0, wsend := send, wbufs := Some bufs,
      wnbufs := length bufs, wwrite_index := 0\<rparr>)"
    by (simp add: write_append_def wr)
  have a: "unat (active_reqs ?s) = unat (active_reqs s) + 1"
    using assms(5) by (simp add: write_append_def wr unat_word_ariths)
  have pr: "pending r ?s = concat bufs" by (simp add: pending_def w)
  have po: "pending y ?s = pending y s" if "y \<noteq> r" for y using that w by (intro pending_cong) simp
  have l: "map (\<lambda>y. length (pending y ?s)) ys = map (\<lambda>y. length (pending y s)) ys" if "r \<notin> set ys" for ys
    by (intro map_ext impI) (metis po that)
  have nq: "r \<notin> set (write_queue ?x)" "r \<notin> set (write_completed_queue ?x)" using assms(2) by auto
  show u: "unsent_size h ?s = unsent_size h s + length (concat bufs)"
    unfolding unsent_size_def x using nq pr by (simp add: l)
  have "waiting_ok h (writes ?s y)" if "y \<in> set (write_queue ?x @ [r])" for y
    using that d(3) [of y] nq w assms(3) by (auto simp: waiting_ok_def)
  moreover have "writes ?s y = writes s y" if "y \<in> set (write_completed_queue ?x)" for y using that nq w by auto
  ultimately show "write_inv h ?s"
    using d(1,2,4,6) nq assms(4) a u unfolding write_inv_def x by (auto simp: ac_simps)
  have "map (\<lambda>y. (y, pending y ?s)) (write_queue ?x) = map (\<lambda>y. (y, pending y s)) (write_queue ?x)"
    by (intro map_ext impI) (metis po nq(1))
  moreover have "map (\<lambda>y. (y, werror (writes ?s y))) (write_completed_queue ?x) = map (\<lambda>y. (y, werror (writes s y))) (write_completed_queue ?x)"
    by (intro map_ext impI) (use nq w in auto)
  ultimately show "write_view h ?s = (fst (write_view h s) @ [(r, concat bufs)], snd (write_view h s))"
    unfolding write_view_def x by (simp add: pr)
  show "wsend (writes ?s r) = send" "\<And>y. y \<noteq> r \<Longrightarrow> wsend (writes ?s y) = wsend (writes s y)" by (simp_all add: w)
qed

lemma write_append_frames [simp]:
  "handles (write_append r h bufs s) = handles s" "io_watchers (write_append r h bufs s) = io_watchers s"
  "os (write_append r h bufs s) = os s" "stream_io g (write_append r h bufs s) = stream_io g s"
  "uv__stream_fd g (write_append r h bufs s) = uv__stream_fd g s"
  "io_trace (write_append r h bufs s) = io_trace s"
  by (simp_all add: write_append_def stream_io_def uv__stream_fd_def)

lemma req_init_frames [simp]:
  "handles (req_init r h send c s) = handles s" "io_watchers (req_init r h send c s) = io_watchers s"
  "os (req_init r h send c s) = os s" "stream_io g (req_init r h send c s) = stream_io g s"
  "uv__stream_fd g (req_init r h send c s) = uv__stream_fd g s" "streams (req_init r h send c s) = streams s"
  "io_trace (req_init r h send c s) = io_trace s"
  by (simp_all add: req_init_def uv__req_register_def stream_io_def uv__stream_fd_def io_inv_def registered_def)

text \<open>A stream that can be written to, with no handles among the requests.\<close>

definition can_write :: "hid \<Rightarrow> 'a stream_loop_scheme \<Rightarrow> bool" where
  "can_write h s \<longleftrightarrow>
     write_inv h s \<and> stream_io h s \<and> stream_kind (htype (handles s h)) \<and> has_flag UV_HANDLE_WRITABLE h s \<and>
     \<not> has_flag UV_HANDLE_BLOCKING_WRITES h s \<and> connect_req (streams s h) = None \<and>
     (\<forall>r\<in>set (write_queue (streams s h)). wsend (writes s r) = None)"

definition kernel_writes :: "kernel \<Rightarrow> bool" where
  "kernel_writes K \<longleftrightarrow> writes_ok K \<and> prompt K \<and> alloc_ok K"

text \<open>A request that may be made: new, not empty, and small enough to be counted.\<close>

definition may_submit :: "hid \<Rightarrow> rid \<Rightarrow> u8 list list \<Rightarrow> 'a stream_loop_scheme \<Rightarrow> bool" where
  "may_submit h r bufs s \<longleftrightarrow>
     r \<notin> set (queued h s) \<and> bufs \<noteq> [] \<and> unsent_size h s + length (concat bufs) < 2 ^ 64 \<and> unat (active_reqs s) < 2 ^ 32 - 1"

lemma has_flag_active:
  assumes "flags_of s' h AND NOT UV_HANDLE_ACTIVE = flags_of s h AND NOT UV_HANDLE_ACTIVE" and "f AND UV_HANDLE_ACTIVE = 0"
  shows "has_flag f h s' = has_flag f h s"
proof -
  have f: "f = NOT UV_HANDLE_ACTIVE AND f"
  proof -
    have "f = f AND (UV_HANDLE_ACTIVE OR NOT UV_HANDLE_ACTIVE)" by simp
    also have "\<dots> = f AND NOT UV_HANDLE_ACTIVE" unfolding bit.conj_disj_distrib assms(2) by simp
    finally show ?thesis by (simp add: and.commute)
  qed
  have "w AND f = (w AND NOT UV_HANDLE_ACTIVE) AND f" for w by (subst f) (simp add: and.assoc)
  then show ?thesis using assms(1) by (metis has_flag_def)
qed

lemma flag_apart: "UV_HANDLE_WRITABLE AND UV_HANDLE_ACTIVE = 0" "UV_HANDLE_BLOCKING_WRITES AND UV_HANDLE_ACTIVE = 0"
  "UV_HANDLE_CLOSED AND UV_HANDLE_ACTIVE = 0" "UV_HANDLE_READING AND UV_HANDLE_ACTIVE = 0" "UV_HANDLE_READABLE AND UV_HANDLE_ACTIVE = 0"
  by (simp_all add: UV_HANDLE_WRITABLE_def UV_HANDLE_BLOCKING_WRITES_def UV_HANDLE_CLOSED_def UV_HANDLE_READING_def
      UV_HANDLE_READABLE_def UV_HANDLE_ACTIVE_def)

lemma write_frame_flags:
  assumes "write_frame h s s'" and "f AND UV_HANDLE_ACTIVE = 0"
  shows "has_flag f x s' = has_flag f x s"
  using assms has_flag_active unfolding write_frame_def by blast

lemma stream_restD:
  assumes "stream_rest x = stream_rest y"
  shows "connect_req x = connect_req y" "shutdown_req x = shutdown_req y" "accepted_fd x = accepted_fd y" "queued_fds x = queued_fds y"
    "read_cb x = read_cb y" "alloc_cb x = alloc_cb y" "ipc x = ipc y" "delayed_error x = delayed_error y"
  using assms by (cases x; cases y; simp add: stream_rest_def)+

lemma send_ok_plain: "wsend (writes s r) = None \<Longrightarrow> send_ok r s"
  by (simp add: send_ok_def send_fd_def)

lemma send_step_incl: "send_step v d v' \<Longrightarrow> set (map fst (fst v')) \<subseteq> set (map fst (fst v))"
  by (induction rule: send_step.induct) auto

lemma write_view_requests: "map fst (fst (write_view h s)) = write_queue (streams s h)"
  "map fst (snd (write_view h s)) = write_completed_queue (streams s h)"
  by (simp_all add: write_view_def comp_def)

lemma uv__write_keeps:
  assumes "can_write h s" and "kernel_writes K"
  shows "\<exists>s' d. uv__write K h s = Some s' \<and> send_step (write_view h s) d (write_view h s') \<and>
    sent (uv__stream_fd h s) s' = sent (uv__stream_fd h s) s @ d \<and> can_write h s' \<and> write_frame h s s' \<and>
    unsent_size h s' + length d = unsent_size h s"
proof -
  have c: "write_inv h s" "stream_io h s" "stream_kind (htype (handles s h))" "has_flag UV_HANDLE_WRITABLE h s"
    "\<not> has_flag UV_HANDLE_BLOCKING_WRITES h s" "connect_req (streams s h) = None"
    "\<forall>r\<in>set (write_queue (streams s h)). wsend (writes s r) = None"
    using assms(1) by (auto simp: can_write_def)
  have k: "writes_ok K" "prompt K" "alloc_ok K" using assms(2) by (auto simp: kernel_writes_def)
  have so: "\<forall>r q. write_queue (streams s h) = r # q \<longrightarrow> send_ok r s" using c(7) send_ok_plain by auto
  obtain s' d where s': "uv__write K h s = Some s'" "send_step (write_view h s) d (write_view h s')"
    "sent (uv__stream_fd h s) s' = sent (uv__stream_fd h s) s @ d" "write_inv h s'" "stream_io h s'" "write_frame h s s'"
    "unsent_size h s' + length d = unsent_size h s"
    using uv__write_refines [OF c(1,2,5) k so] by blast
  have "set (write_queue (streams s' h)) \<subseteq> set (write_queue (streams s h))"
    using send_step_incl [OF s'(2)] unfolding write_view_requests .
  moreover have "connect_req (streams s' h) = connect_req (streams s h)"
    using s'(6) by (intro stream_restD(1)) (simp add: write_frame_def)
  ultimately have "can_write h s'"
    using s'(4-6) c write_frame_flags [OF s'(6) flag_apart(1), of h] write_frame_flags [OF s'(6) flag_apart(2), of h]
    unfolding can_write_def write_frame_def by auto
  then show ?thesis using s' by blast
qed

lemma uv_write_keeps:
  fixes s :: "'a stream_loop_scheme"
  assumes "can_write h s" and "kernel_writes K" and "may_submit h r bufs s"
  shows "\<exists>s' d. uv_write K r h bufs c s = Some (0, s') \<and>
    (let v = (fst (write_view h s) @ [(r, concat bufs)], snd (write_view h s)) in
       send_step v d (write_view h s') \<or> d = [] \<and> write_view h s' = v) \<and>
    sent (uv__stream_fd h s) s' = sent (uv__stream_fd h s) s @ d \<and> can_write h s' \<and>
    uv__stream_fd h s' = uv__stream_fd h s \<and> active_reqs s' = active_reqs s + 1 \<and>
    unsent_size h s' + length d = unsent_size h s + length (concat bufs)"
proof -
  have w: "write_inv h s" "stream_io h s" "stream_kind (htype (handles s h))" "has_flag UV_HANDLE_WRITABLE h s"
    "\<not> has_flag UV_HANDLE_BLOCKING_WRITES h s" "connect_req (streams s h) = None"
    "\<forall>r\<in>set (write_queue (streams s h)). wsend (writes s r) = None"
    using assms(1) by (auto simp: can_write_def)
  have al: "alloc_ok K" using assms(2) by (simp add: kernel_writes_def)
  have m: "r \<notin> set (queued h s)" "bufs \<noteq> []" "unsent_size h s + length (concat bufs) < 2 ^ 64" "unat (active_reqs s) < 2 ^ 32 - 1"
    using assms(3) by (auto simp: may_submit_def)
  let ?i = "req_init r h None c s"
  obtain m0 s1 where s1: "(if length bufs > 4 then (let (m, s) = sysl K (SysAlloc (16 * length bufs)) ?i in (ret m, s)) else (1, ?i)) = (m0, s1)"
    by fastforce
  have m0: "m0 \<noteq> 0" "same_streams ?i s1" "stream_io h s1 = stream_io h s" "handles s1 = handles s" "io_watchers s1 = io_watchers s"
    "sent fd s1 = sent fd s" for fd
  proof -
    have q: "ret m \<noteq> 0 \<and> same_streams ?i s2 \<and> stream_io h s2 = stream_io h s \<and> handles s2 = handles s \<and>
        io_watchers s2 = io_watchers s \<and> sent fd s2 = sent fd s" if e: "sysl K (SysAlloc n) ?i = (m, s2)" for m n s2
    proof -
      have "m = K (sys_trace (os ?i)) (SysAlloc n)" using e by (auto simp: sysl_def sys_def Let_def)
      then have "ret m \<noteq> 0" using al by (simp only: alloc_ok_def not_False_eq_True)
      then show ?thesis using sysl_stream [OF e] sysl_result(2) [OF e, of fd] by (simp add: sent_def)
    qed
    show "m0 \<noteq> 0" "same_streams ?i s1" "stream_io h s1 = stream_io h s" "handles s1 = handles s" "io_watchers s1 = io_watchers s"
      "sent fd s1 = sent fd s"
      using s1 q [of "16 * length bufs"] by (auto simp: sent_def split: if_splits prod.splits)
  qed
  let ?a = "write_append r h bufs s1"
  note a = append_ok [OF w(1) m m0(2)]
  have ss: "streams s1 = streams s" using m0(2) by (simp add: same_streams_def)
  have fa: "has_flag f h ?a = has_flag f h s" for f by (simp add: has_flag_def m0(4))
  have ca: "can_write h ?a"
    unfolding can_write_def
  proof (intro conjI ballI)
    show "write_inv h ?a" by (rule a(1))
    show "stream_io h ?a" using m0(3) w(2) by simp
    show "stream_kind (htype (handles ?a h))" using m0(4) w(3) by simp
    show "has_flag UV_HANDLE_WRITABLE h ?a" "\<not> has_flag UV_HANDLE_BLOCKING_WRITES h ?a" using fa w(4,5) by simp_all
    show "connect_req (streams ?a h) = None" using ss w(6) by (simp add: write_append_def)
    fix x assume "x \<in> set (write_queue (streams ?a h))"
    then have "x = r \<or> x \<noteq> r \<and> x \<in> set (write_queue (streams s h))" using ss m(1) by (auto simp: write_append_def)
    then show "wsend (writes ?a x) = None" using a(4,5) w(7) by auto
  qed
  have fd: "\<not> uv__stream_fd h s < 0" using stream_ioD(2) [OF w(2)] by (simp add: uv__stream_fd_def)
  have go: "uv_write K r h bufs c s =
      (if write_queue_size (streams s h) = 0 then do { s \<leftarrow> uv__write K h ?a; Some (0, s) }
       else do { s \<leftarrow> uv__io_start K (WHandle h) POLLOUT ?a; Some (0, s) })"
  proof -
    have "write_refused h None s = 0" using fd w(4) by (simp add: write_refused_def)
    moreover have "connect_req (streams ?a h) = None" "\<not> has_flag UV_HANDLE_BLOCKING_WRITES h ?a"
      using ca by (auto simp: can_write_def)
    ultimately show ?thesis unfolding uv_write_def uv_write2_def Let_def s1 [unfolded Let_def] using m(2) w(3) m0(1) by simp
  qed
  have fds: "uv__stream_fd h ?a = uv__stream_fd h s" using m0(5) by (simp add: uv__stream_fd_def)
  have ar: "active_reqs ?a = active_reqs s + 1"
    using m0(2) by (simp add: write_append_def same_streams_def req_init_def uv__req_register_def)
  show ?thesis
  proof (cases "write_queue_size (streams s h) = 0")
    case True
    obtain s' d where s': "uv__write K h ?a = Some s'" "send_step (write_view h ?a) d (write_view h s')"
      "sent (uv__stream_fd h ?a) s' = sent (uv__stream_fd h ?a) ?a @ d" "can_write h s'" "write_frame h ?a s'"
      "unsent_size h s' + length d = unsent_size h ?a"
      using uv__write_keeps [OF ca assms(2)] by blast
    have "sent (uv__stream_fd h s) ?a = sent (uv__stream_fd h s) s" using m0(6) by (simp add: sent_def)
    then show ?thesis using s' go True a(2,3) fds ar unfolding write_frame_def Let_def
      by (intro exI [of _ s'] exI [of _ d]) (simp add: uv__stream_fd_def)
  next
    case False
    obtain s' where s': "uv__io_start K (WHandle h) POLLOUT ?a = Some s'" "stream_io h s'"
      using io_start_stream [of h ?a K POLLOUT] ca al by (auto simp: can_write_def)
    note f = io_start_frames [OF s'(1)]
    have "sent (uv__stream_fd h s) s' = sent (uv__stream_fd h s) s" using f(2) m0(6) by (simp add: sent_def)
    moreover have "can_write h s'"
      using ca s'(2) f(1,3) same_streams_view(2) [OF f(1)] unfolding can_write_def same_streams_def has_flag_def by simp
    moreover have "write_view h s' = write_view h ?a" "unsent_size h s' = unsent_size h ?a" using same_streams_view [OF f(1)] by simp_all
    moreover have "active_reqs s' = active_reqs s + 1" using f(1) ar by (simp add: same_streams_def)
    ultimately show ?thesis using s'(1) go False a(2,3) f(4) fds
      by (intro exI [of _ s'] exI [of _ "[]"]) (simp add: uv__stream_fd_def)
  qed
qed

subsection \<open>Bytes in order\<close>

text \<open>What a client and the kernel do to the write side of a stream: submit a request, and report that the descriptor can be written.\<close>

datatype write_op = Submit rid "u8 list list" "cb option" | Writable

fun run_write_op :: "kernel \<Rightarrow> hid \<Rightarrow> write_op \<Rightarrow> 'a stream_loop_scheme \<Rightarrow> 'a stream_loop_scheme option" where
  "run_write_op K h (Submit r bufs c) s = map_option snd (uv_write K r h bufs c s)"
| "run_write_op K h Writable s = uv__write K h s"

fun run_write_ops :: "kernel \<Rightarrow> hid \<Rightarrow> write_op list \<Rightarrow> 'a stream_loop_scheme \<Rightarrow> 'a stream_loop_scheme option" where
  "run_write_ops K h [] s = Some s"
| "run_write_ops K h (x # xs) s = do { s \<leftarrow> run_write_op K h x s; run_write_ops K h xs s }"

fun op_bytes :: "write_op \<Rightarrow> u8 list" where
  "op_bytes (Submit r bufs c) = concat bufs"
| "op_bytes Writable = []"

fun op_request :: "write_op \<Rightarrow> rid list" where
  "op_request (Submit r bufs c) = [r]"
| "op_request Writable = []"

definition submitted :: "write_op list \<Rightarrow> u8 list" where
  "submitted xs = concat (map op_bytes xs)"

definition requests :: "write_op list \<Rightarrow> rid list" where
  "requests xs = concat (map op_request xs)"

definition unsent :: "hid \<Rightarrow> 'a stream_loop_scheme \<Rightarrow> u8 list" where
  "unsent h s = concat (map (\<lambda>r. pending r s) (write_queue (streams s h)))"

text \<open>No finished request has failed.\<close>

definition none_failed :: "hid \<Rightarrow> 'a stream_loop_scheme \<Rightarrow> bool" where
  "none_failed h s \<longleftrightarrow> (\<forall>x\<in>set (snd (write_view h s)). snd x = 0)"

lemma unsent_view: "unsent h s = concat (map snd (fst (write_view h s)))"
  by (simp add: unsent_def write_view_def comp_def)

lemma send_step_bytes: "send_step v d v' \<Longrightarrow> \<forall>x\<in>set (snd v'). snd x = 0 \<Longrightarrow>
    concat (map snd (fst v)) = d @ concat (map snd (fst v')) \<and> (\<forall>x\<in>set (snd v). snd x = 0)"
  by (induction rule: send_step.induct) auto

lemma send_step_requests: "send_step v d v' \<Longrightarrow>
    set (map fst (fst v') @ map fst (snd v')) = set (map fst (fst v) @ map fst (snd v)) \<and>
    (\<forall>x\<in>set (snd v). x \<in> set (snd v'))"
  by (induction rule: send_step.induct) auto

text \<open>A sequence of operations with new requests, none of them empty, that the counters can count.\<close>

definition ops_ok :: "hid \<Rightarrow> write_op list \<Rightarrow> 'a stream_loop_scheme \<Rightarrow> bool" where
  "ops_ok h xs s \<longleftrightarrow>
     distinct (requests xs) \<and> set (requests xs) \<inter> set (queued h s) = {} \<and>
     (\<forall>r bufs c. Submit r bufs c \<in> set xs \<longrightarrow> bufs \<noteq> []) \<and>
     unsent_size h s + length (submitted xs) < 2 ^ 64 \<and> unat (active_reqs s) + length (requests xs) < 2 ^ 32"

lemma queued_view: "queued h s = map fst (fst (write_view h s)) @ map fst (snd (write_view h s))"
  by (simp add: write_view_requests)

lemma write_op_bytes:
  assumes "can_write h s" and "kernel_writes K" and "ops_ok h (x # xs) s"
  shows "\<exists>s'. run_write_op K h x s = Some s' \<and> can_write h s' \<and> ops_ok h xs s' \<and> uv__stream_fd h s' = uv__stream_fd h s \<and>
    (none_failed h s' \<longrightarrow> none_failed h s \<and>
       sent (uv__stream_fd h s) s' @ unsent h s' = sent (uv__stream_fd h s) s @ unsent h s @ op_bytes x)"
proof (cases x)
  case Writable
  obtain s' d where s': "uv__write K h s = Some s'" "send_step (write_view h s) d (write_view h s')"
    "sent (uv__stream_fd h s) s' = sent (uv__stream_fd h s) s @ d" "can_write h s'" "write_frame h s s'"
    "unsent_size h s' + length d = unsent_size h s"
    using uv__write_keeps [OF assms(1,2)] by blast
  have "set (queued h s') = set (queued h s)" unfolding queued_view using send_step_requests [OF s'(2)] by simp
  then have "ops_ok h xs s'"
    using assms(3) s'(5,6) Writable unfolding ops_ok_def write_frame_def by (auto simp: requests_def submitted_def)
  then show ?thesis
    using s' Writable send_step_bytes [OF s'(2)] by (auto simp: none_failed_def unsent_view write_frame_def uv__stream_fd_def)
next
  case (Submit r bufs c)
  have "may_submit h r bufs s"
    using assms(3) Submit by (auto simp: ops_ok_def may_submit_def requests_def submitted_def)
  then obtain s' d where s': "uv_write K r h bufs c s = Some (0, s')"
    "send_step (fst (write_view h s) @ [(r, concat bufs)], snd (write_view h s)) d (write_view h s') \<or>
       d = [] \<and> write_view h s' = (fst (write_view h s) @ [(r, concat bufs)], snd (write_view h s))"
    "sent (uv__stream_fd h s) s' = sent (uv__stream_fd h s) s @ d" "can_write h s'" "uv__stream_fd h s' = uv__stream_fd h s"
    "active_reqs s' = active_reqs s + 1" "unsent_size h s' + length d = unsent_size h s + length (concat bufs)"
    using uv_write_keeps [OF assms(1,2)] unfolding Let_def by blast
  let ?v = "(fst (write_view h s) @ [(r, concat bufs)], snd (write_view h s))"
  have st: "set (queued h s') = insert r (set (queued h s)) \<and>
      (none_failed h s' \<longrightarrow> none_failed h s \<and> unsent h s @ concat bufs = d @ unsent h s')"
  proof (cases "d = [] \<and> write_view h s' = ?v")
    case True
    then show ?thesis unfolding queued_view none_failed_def unsent_view by simp
  next
    case False
    then have a: "send_step ?v d (write_view h s')" using s'(2) by blast
    show ?thesis using send_step_requests [OF a] send_step_bytes [OF a] unfolding queued_view none_failed_def unsent_view by simp
  qed
  have "unat (active_reqs s') = unat (active_reqs s) + 1"
    using assms(3) Submit s'(6) by (simp add: ops_ok_def requests_def unat_word_ariths)
  then have "ops_ok h xs s'"
    using assms(3) s'(7) Submit st unfolding ops_ok_def by (auto simp: requests_def submitted_def)
  then show ?thesis using s' Submit st by auto
qed

lemma write_ops_bytes:
  "can_write h s \<Longrightarrow> kernel_writes K \<Longrightarrow> ops_ok h xs s \<Longrightarrow>
    \<exists>s'. run_write_ops K h xs s = Some s' \<and> can_write h s' \<and> uv__stream_fd h s' = uv__stream_fd h s \<and>
      (none_failed h s' \<longrightarrow> none_failed h s \<and>
         sent (uv__stream_fd h s) s' @ unsent h s' = sent (uv__stream_fd h s) s @ unsent h s @ submitted xs)"
proof (induction xs arbitrary: s)
  case (Cons x xs)
  obtain s1 where s1: "run_write_op K h x s = Some s1" "can_write h s1" "ops_ok h xs s1" "uv__stream_fd h s1 = uv__stream_fd h s"
    "none_failed h s1 \<longrightarrow> none_failed h s \<and>
       sent (uv__stream_fd h s) s1 @ unsent h s1 = sent (uv__stream_fd h s) s @ unsent h s @ op_bytes x"
    using write_op_bytes [OF Cons.prems] by blast
  obtain s' where s': "run_write_ops K h xs s1 = Some s'" "can_write h s'" "uv__stream_fd h s' = uv__stream_fd h s1"
    "none_failed h s' \<longrightarrow> none_failed h s1 \<and>
       sent (uv__stream_fd h s1) s' @ unsent h s' = sent (uv__stream_fd h s1) s1 @ unsent h s1 @ submitted xs"
    using Cons.IH [OF s1(2) Cons.prems(2) s1(3)] by blast
  have "submitted (x # xs) = op_bytes x @ submitted xs" by (simp add: submitted_def)
  then show ?case using s1 s' by (metis append.assoc Option.bind.simps(2) run_write_ops.simps(2))
qed (simp add: submitted_def)

subsection \<open>An open stream\<close>

text \<open>A loop with nothing in it but the stream at address \<open>h\<close>, open for reading and writing on descriptor \<open>fd\<close>.\<close>

definition no_stream :: uv_stream where
  "no_stream = \<lparr>read_cb = None, alloc_cb = None, connection_cb = None, connect_req = None, shutdown_req = None, accepted_fd = - 1,
     queued_fds = None, delayed_error = 0, write_queue = [], write_completed_queue = [], write_queue_size = 0, ipc = False, pipe_fname = None\<rparr>"

definition no_write :: uv_write_t where
  "no_write = \<lparr>wcb = None, whandle = 0, werror = 0, wsend = None, wbufs = None, wnbufs = 0, wwrite_index = 0\<rparr>"

definition open_stream :: "uv_handle_type \<Rightarrow> hid \<Rightarrow> int \<Rightarrow> stream_loop" where
  "open_stream typ h fd =
     set_stream_fd h fd (set_flag (UV_HANDLE_READABLE OR UV_HANDLE_WRITABLE) h (uv__handle_init h typ
       (poll_loop.extend (fresh_poll_loop 0)
         \<lparr>streams = (\<lambda>_. no_stream), writes = (\<lambda>_. no_write), stream_reqs = (\<lambda>_. \<lparr>sreq_cb = None, sreq_handle = 0\<rparr>),
          emfile_fd = - 1, single_accept = None\<rparr>)))"

text \<open>A kernel that takes two bytes at a time.\<close>

definition slow_kernel :: kernel where
  "slow_kernel tr c =
     \<lparr>ret = (if sends c = None then 1 else int (min 2 (length (call_bytes c)))), errno = EAGAIN,
      rdata = [], revents = [], rfds = [], rtime = (0, 0)\<rparr>"

lemma slow_kernel_writes: "kernel_writes slow_kernel"
  by (simp add: kernel_writes_def writes_ok_def prompt_def alloc_ok_def slow_kernel_def EAGAIN_def EINTR_def)

lemma open_stream_eqs:
  "streams (open_stream typ h fd) = (\<lambda>_. no_stream)" "writes (open_stream typ h fd) = (\<lambda>_. no_write)"
  "active_reqs (open_stream typ h fd) = 0" "uv__stream_fd h (open_stream typ h fd) = fd" "htype (handles (open_stream typ h fd) h) = typ"
  "has_flag UV_HANDLE_WRITABLE h (open_stream typ h fd)" "\<not> has_flag UV_HANDLE_BLOCKING_WRITES h (open_stream typ h fd)"
  "watchers (open_stream typ h fd) = []" "watcher_queue (open_stream typ h fd) = []" "nfds (open_stream typ h fd) = 0"
  "io_watchers (open_stream typ h fd) = (\<lambda>_. \<lparr>io_cb = UV__POLL_IO, iofd = - 1, ioevents = 0, pevents = 0\<rparr>)
     (WHandle h := \<lparr>io_cb = UV__POLL_IO, iofd = fd, ioevents = 0, pevents = 0\<rparr>)"
  "sys_trace (os (open_stream typ h fd)) = []"
proof -
  have "sys_trace (os (fresh_poll_loop 0)) = []" by (simp add: fresh_loop_defs fresh_osw_def)
  then show "sys_trace (os (open_stream typ h fd)) = []"
    by (simp add: open_stream_def poll_loop.extend_def uv__handle_init_def set_flag_def set_stream_fd_def upd_io_def upd_handle_def Let_def)
qed (simp_all add: open_stream_def poll_loop.extend_def uv__handle_init_def set_flag_def set_stream_fd_def uv__stream_fd_def
      upd_io_def upd_handle_def has_flag_def Let_def UV_HANDLE_READABLE_def UV_HANDLE_WRITABLE_def UV_HANDLE_REF_def UV_HANDLE_BLOCKING_WRITES_def)

lemma open_stream_can_write: "stream_kind typ \<Longrightarrow> 0 \<le> fd \<Longrightarrow> fd < 2 ^ 31 - 3 \<Longrightarrow> can_write h (open_stream typ h fd)"
  by (simp add: can_write_def write_inv_def unsent_size_def stream_io_def io_inv_def registered_def open_stream_eqs no_stream_def)

lemma demo_run: "map_option (none_failed 2) (run_write_ops slow_kernel 2 [Submit 5 [[1, 2], [3]] None, Writable] (open_stream UV_TCP 2 3)) = Some True"
  by code_simp

text \<open>
  C3. A write request does what a queue of bytes does: it joins the end of the queue, and what goes to the kernel during the
  call is exactly what one step of the queue emits. A request that may be made is never refused, and no counter wraps.
\<close>

theorem stream_write_refines:
  assumes "can_write h s" and "kernel_writes K" and "may_submit h r bufs s"
  shows "\<exists>s' d. uv_write K r h bufs c s = Some (0, s') \<and>
    (let v = (fst (write_view h s) @ [(r, concat bufs)], snd (write_view h s)) in
       send_step v d (write_view h s') \<or> d = [] \<and> write_view h s' = v) \<and>
    sent (uv__stream_fd h s) s' = sent (uv__stream_fd h s) s @ d \<and> can_write h s' \<and>
    unsent_size h s' + length d = unsent_size h s + length (concat bufs)"
  using uv_write_keeps [OF assms] by blast

theorem stream_write_refines_witness:
  "\<exists>s' d. uv_write slow_kernel 5 2 [[1, 2], [3]] None (open_stream UV_TCP 2 3) = Some (0, s') \<and>
     (send_step ([(5, [1, 2, 3])], []) d (write_view 2 s') \<or> d = [] \<and> write_view 2 s' = ([(5, [1, 2, 3])], [])) \<and> sent 3 s' = d"
proof -
  let ?s = "open_stream UV_TCP 2 3"
  have "can_write 2 ?s" by (rule open_stream_can_write) (simp_all add: stream_kind_def)
  moreover have "may_submit 2 5 [[1, 2], [3]] ?s"
    by (simp add: may_submit_def open_stream_eqs no_stream_def unsent_size_def)
  moreover have "write_view 2 ?s = ([], [])" "sent 3 ?s = []" by (simp_all add: write_view_def sent_def open_stream_eqs no_stream_def)
  ultimately show ?thesis
    using stream_write_refines [of 2 ?s slow_kernel 5 "[[1, 2], [3]]" None] slow_kernel_writes
    by (auto simp: open_stream_eqs)
qed



subsection \<open>Callbacks and destruction\<close>

text \<open>
  A client whose callbacks return and leave the streams, their requests and the I/O of the loop alone. What else they do (stop the loop, start
  timers) is open.
\<close>

definition untouched :: "'a stream_loop_scheme \<Rightarrow> 'a stream_loop_scheme \<Rightarrow> bool" where
  "untouched s s' \<longleftrightarrow>
     streams s' = streams s \<and> writes s' = writes s \<and> stream_reqs s' = stream_reqs s \<and> active_reqs s' = active_reqs s \<and>
     io_trace s' = io_trace s \<and> handles s' = handles s \<and> io_watchers s' = io_watchers s \<and> watchers s' = watchers s \<and>
     watcher_queue s' = watcher_queue s \<and> nfds s' = nfds s \<and> os s' = os s"

definition calm_client :: "'a stream_loop_scheme arg_client \<Rightarrow> bool" where
  "calm_client acb \<longleftrightarrow> (\<forall>c h args bs s. \<exists>s'. acb c h args bs s = Some s' \<and> untouched s s')"

lemma calm_call:
  assumes "calm_client acb"
  shows "\<exists>s'. invoke_args acb c h args bs s = Some s' \<and> untouched (s\<lparr>io_trace := io_trace s @ [(c, h, args, bs)]\<rparr>) s'"
  using assms unfolding calm_client_def invoke_args_def by blast

text \<open>The calls of the callbacks of finished requests.\<close>

definition done_calls :: "hid \<Rightarrow> 'a stream_loop_scheme \<Rightarrow> rid list \<Rightarrow> (cb \<times> hid \<times> int list \<times> u8 list) list" where
  "done_calls h s rs = concat (map (\<lambda>r. case wcb (writes s r) of None \<Rightarrow> [] | Some c \<Rightarrow> [(c, h, [int r, werror (writes s r)], [])]) rs)"

text \<open>Taking the first finished request off the queue, before its callback.\<close>

lemma upd_write_same: "wbufs (writes s r) = None \<Longrightarrow> upd_write r (\<lambda>w. w\<lparr>wbufs := None\<rparr>) s = s"
proof -
  assume "wbufs (writes s r) = None"
  then have "(writes s r)\<lparr>wbufs := None\<rparr> = writes s r" by (cases "writes s r") simp
  then show ?thesis unfolding upd_write_def by (simp only: fun_upd_triv) (cases s; simp)
qed

lemma upd_stream_same: "upd_stream h (\<lambda>x. x\<lparr>write_queue_size := write_queue_size x\<rparr>) s = s"
proof -
  have "(streams s h)\<lparr>write_queue_size := write_queue_size (streams s h)\<rparr> = streams s h" by (cases "streams s h") simp
  then show ?thesis unfolding upd_stream_def by (simp only: fun_upd_triv) (cases s; simp)
qed

lemma pop_done:
  assumes "write_inv h s" and "write_completed_queue (streams s h) = r # q"
  shows "\<exists>s1. uv__req_unregister (upd_stream h (\<lambda>x. x\<lparr>write_completed_queue := q\<rparr>) s) = Some s1 \<and>
    (\<exists>s2. (if wbufs (writes s1 r) \<noteq> None then do {
                  n \<leftarrow> uv__write_req_size r s1;
                  let s = upd_stream h (\<lambda>x. x\<lparr>write_queue_size := write_queue_size x - n\<rparr>) s1;
                  Some (upd_write r (\<lambda>w. w\<lparr>wbufs := None\<rparr>) s)
                } else Some s1) = Some s2 \<and> write_inv h s2 \<and>
      streams s2 h = (streams s h)\<lparr>write_completed_queue := q, write_queue_size := write_queue_size (streams s2 h)\<rparr> \<and>
      (\<forall>g. g \<noteq> h \<longrightarrow> streams s2 g = streams s g) \<and>
      (\<exists>b. writes s2 = (writes s)(r := (writes s r)\<lparr>wbufs := b\<rparr>)) \<and> active_reqs s2 = active_reqs s - 1 \<and>
      untouched (s\<lparr>streams := streams s2, writes := writes s2, active_reqs := active_reqs s2\<rparr>) s2)"
proof -
  note d = write_invD [OF assms(1)]
  let ?s0 = "upd_stream h (\<lambda>x. x\<lparr>write_completed_queue := q\<rparr>) s"
  let ?s1 = "?s0\<lparr>active_reqs := active_reqs s - 1\<rparr>"
  have ar: "0 < unat (active_reqs s)" using d(2) assms(2) by simp
  then have s1: "uv__req_unregister ?s0 = Some ?s1"
    by (auto simp: uv__req_unregister_def uv__has_active_reqs_def unat_gt_0 word_gt_0)
  have nq: "r \<notin> set q" "r \<notin> set (write_queue (streams s h))" using d(1) assms(2) by auto
  have wh: "whandle (writes s r) = h" using d(4) assms(2) by simp
  have le: "length (pending r s) \<le> unsent_size h s" using assms(2) by (simp add: unsent_size_def)
  define b where "b = (if wbufs (writes s r) = None then wbufs (writes s r) else None)"
  define s2 where "s2 = upd_stream h (\<lambda>x. x\<lparr>write_queue_size := write_queue_size x - of_nat (length (pending r s))\<rparr>)
      (upd_write r (\<lambda>w. w\<lparr>wbufs := None\<rparr>) ?s1)"
  have go: "(if wbufs (writes ?s1 r) \<noteq> None then do {
                  n \<leftarrow> uv__write_req_size r ?s1;
                  let s = upd_stream h (\<lambda>x. x\<lparr>write_queue_size := write_queue_size x - n\<rparr>) ?s1;
                  Some (upd_write r (\<lambda>w. w\<lparr>wbufs := None\<rparr>) s)
                } else Some ?s1) = Some s2"
  proof (cases "wbufs (writes s r)")
    case None
    then have "pending r s = []" by (simp add: pending_def)
    then have "s2 = ?s1" using None upd_stream_same [of h "?s1"] upd_write_same [of "?s1" r] by (simp add: s2_def)
    then show ?thesis using None by simp
  next
    case (Some bufs)
    have n: "uv__count_bufs (drop (wwrite_index (writes s r)) bufs) = of_nat (length (pending r s))"
      using Some by (simp add: count_bufs pending_def)
    have "\<not> \<not> write_queue_size (streams s h) \<ge> of_nat (length (pending r s))"
      using d(5,6) le by (simp add: of_nat_le_64)
    then have "uv__write_req_size r ?s1 = Some (of_nat (length (pending r s)))"
      using Some wh n by (simp add: uv__write_req_size_def)
    then show ?thesis using Some by (simp add: s2_def upd_stream_def upd_write_def)
  qed
  have st: "streams s2 h = (streams s h)\<lparr>write_completed_queue := q,
      write_queue_size := write_queue_size (streams s h) - of_nat (length (pending r s))\<rparr>" by (simp add: s2_def)
  have wr: "writes s2 = (writes s)(r := (writes s r)\<lparr>wbufs := None\<rparr>)" by (simp add: s2_def)
  have po: "pending x s2 = pending x s" if "x \<noteq> r" for x using that by (intro pending_cong) (simp add: wr)
  have l: "map (\<lambda>x. length (pending x s2)) ys = map (\<lambda>x. length (pending x s)) ys" if "r \<notin> set ys" for ys
    by (intro map_ext impI) (metis po that)
  have u: "unsent_size h s2 + length (pending r s) = unsent_size h s"
    unfolding unsent_size_def st using nq assms(2) by (simp add: l)
  have ww: "writes s2 x = writes s x" if "x \<in> set q \<union> set (write_queue (streams s h))" for x using that nq wr by auto
  have us: "write_queue_size (streams s2 h) = of_nat (unsent_size h s2)" using d(6) unfolding u [symmetric] st by simp
  have ub: "unsent_size h s2 < 2 ^ 64" using u d(5) by linarith
  have "unat (active_reqs s2) = unat (active_reqs s) - 1" using ar by (simp add: s2_def unat_minus_one word_gt_0 unat_gt_0)
  then have "length (queued h s2) \<le> unat (active_reqs s2)" using d(2) assms(2) by (simp add: st)
  moreover have "distinct (queued h s2)" using d(1) assms(2) by (simp add: st)
  moreover have "\<forall>x\<in>set (write_queue (streams s2 h)). waiting_ok h (writes s2 x)" using d(3) ww by (simp add: st)
  moreover have "\<forall>x\<in>set (write_completed_queue (streams s2 h)). whandle (writes s2 x) = h \<and> werror (writes s2 x) \<le> 0"
    using d(4) ww assms(2) by (simp add: st)
  ultimately have "write_inv h s2" using us ub unfolding write_inv_def by blast
  moreover have "untouched (s\<lparr>streams := streams s2, writes := writes s2, active_reqs := active_reqs s2\<rparr>) s2"
    by (simp add: untouched_def s2_def stream_loop.defs)
  ultimately show ?thesis
    using s1 go st wr by (intro exI [of _ ?s1] conjI exI [of _ s2]) (auto simp: s2_def)
qed

lemma untouched_trans: "untouched s s' \<Longrightarrow> untouched s' s'' \<Longrightarrow> untouched s s''"
  by (simp add: untouched_def)

text \<open>What calling back leaves alone.\<close>

definition calls_frame :: "hid \<Rightarrow> 'a stream_loop_scheme \<Rightarrow> 'a stream_loop_scheme \<Rightarrow> bool" where
  "calls_frame h s s' \<longleftrightarrow>
     stream_rest (streams s' h) = stream_rest (streams s h) \<and> (\<forall>g. g \<noteq> h \<longrightarrow> streams s' g = streams s g) \<and>
     (\<forall>r. wcb (writes s' r) = wcb (writes s r) \<and> werror (writes s' r) = werror (writes s r)) \<and>
     stream_reqs s' = stream_reqs s \<and> handles s' = handles s \<and> io_watchers s' = io_watchers s \<and> watchers s' = watchers s \<and>
     watcher_queue s' = watcher_queue s \<and> nfds s' = nfds s \<and> os s' = os s"

lemma calls_frame_refl [simp]: "calls_frame h s s"
  by (simp add: calls_frame_def)

lemma calls_frame_trans: "calls_frame h s s' \<Longrightarrow> calls_frame h s' s'' \<Longrightarrow> calls_frame h s s''"
  by (simp add: calls_frame_def)

lemma write_callbacks_ok:
  fixes s :: "'a stream_loop_scheme"
  assumes "calm_client (str_acb E)"
  shows "write_inv h s \<Longrightarrow> \<forall>r\<in>set (write_completed_queue (streams s h)). wcb (writes s r) \<noteq> Some uv_try_write_cb \<Longrightarrow>
    \<exists>s'. uv__write_callbacks E h s = Some s' \<and> write_inv h s' \<and> write_completed_queue (streams s' h) = [] \<and>
      write_queue (streams s' h) = write_queue (streams s h) \<and>
      io_trace s' = io_trace s @ done_calls h s (write_completed_queue (streams s h)) \<and>
      active_reqs s' = active_reqs s - of_nat (length (write_completed_queue (streams s h))) \<and> calls_frame h s s'"
proof (induction "write_completed_queue (streams s h)" arbitrary: s)
  case Nil
  have "[] = write_completed_queue (streams s h)" by (rule Nil.hyps)
  then have "write_completed_queue (streams s h) = []" by simp
  then show ?case using Nil.prems by (intro exI [of _ s]) (subst uv__write_callbacks.simps, simp add: done_calls_def)
next
  case (Cons r q)
  have q: "write_completed_queue (streams s h) = r # q" using Cons.hyps(2) by simp
  obtain s1 s2 b where s1: "uv__req_unregister (upd_stream h (\<lambda>x. x\<lparr>write_completed_queue := q\<rparr>) s) = Some s1"
    and s2: "(if wbufs (writes s1 r) \<noteq> None then do {
                  n \<leftarrow> uv__write_req_size r s1;
                  let s = upd_stream h (\<lambda>x. x\<lparr>write_queue_size := write_queue_size x - n\<rparr>) s1;
                  Some (upd_write r (\<lambda>w. w\<lparr>wbufs := None\<rparr>) s)
                } else Some s1) = Some s2" "write_inv h s2"
      "streams s2 h = (streams s h)\<lparr>write_completed_queue := q, write_queue_size := write_queue_size (streams s2 h)\<rparr>"
      "\<forall>g. g \<noteq> h \<longrightarrow> streams s2 g = streams s g" "writes s2 = (writes s)(r := (writes s r)\<lparr>wbufs := b\<rparr>)"
      "active_reqs s2 = active_reqs s - 1" "untouched (s\<lparr>streams := streams s2, writes := writes s2, active_reqs := active_reqs s2\<rparr>) s2"
    using pop_done [OF Cons.prems(1) q] by blast
  have w2: "wcb (writes s2 x) = wcb (writes s x)" "werror (writes s2 x) = werror (writes s x)" for x by (simp_all add: s2(5))
  have no_try: "wcb (writes s2 r) \<noteq> Some uv_try_write_cb" using Cons.prems(2) q w2 by simp
  have sr: "stream_rest (streams s2 h) = stream_rest (streams s h)" "write_completed_queue (streams s2 h) = q"
    "write_queue (streams s2 h) = write_queue (streams s h)" by (subst s2(3), simp add: stream_rest_def)+
  have f2: "calls_frame h s s2" "io_trace s2 = io_trace s"
    using s2(4,7) sr w2 by (simp_all add: calls_frame_def untouched_def)
  obtain s3 where s3: "req_done_opt E (wcb (writes s2 r)) h r (werror (writes s2 r)) s2 = Some s3"
    "untouched (s2\<lparr>io_trace := io_trace s2 @ done_calls h s [r]\<rparr>) s3"
  proof (cases "wcb (writes s2 r)")
    case None
    then have "done_calls h s [r] = []" using w2 by (simp add: done_calls_def)
    then show ?thesis using that [of s2] None by (simp add: req_done_opt_def untouched_def)
  next
    case (Some c)
    then have "done_calls h s [r] = [(c, h, [int r, werror (writes s2 r)], [])]" using w2 by (simp add: done_calls_def)
    moreover obtain s3 where "invoke_args (str_acb E) c h [int r, werror (writes s2 r)] [] s2 = Some s3"
      "untouched (s2\<lparr>io_trace := io_trace s2 @ [(c, h, [int r, werror (writes s2 r)], [])]\<rparr>) s3"
      using calm_call [OF assms] by blast
    ultimately show ?thesis using that [of s3] Some by (simp add: req_done_opt_def req_done_def)
  qed
  have f3: "calls_frame h s2 s3" "streams s3 = streams s2" "writes s3 = writes s2" "active_reqs s3 = active_reqs s2"
    "io_trace s3 = io_trace s @ done_calls h s [r]"
    using s3(2) f2(2) by (simp_all add: calls_frame_def untouched_def)
  have i3: "write_inv h s3"
  proof -
    have "pending x s3 = pending x s2" for x by (intro pending_cong) (simp add: f3)
    then show ?thesis using s2(2) by (simp add: write_inv_def unsent_size_def f3)
  qed
  have q3: "write_completed_queue (streams s3 h) = q" using sr f3 by simp
  have "\<forall>x\<in>set (write_completed_queue (streams s3 h)). wcb (writes s3 x) \<noteq> Some uv_try_write_cb"
    using Cons.prems(2) q q3 f3(3) w2 by simp
  then obtain s' where s': "uv__write_callbacks E h s3 = Some s'" "write_inv h s'" "write_completed_queue (streams s' h) = []"
    "write_queue (streams s' h) = write_queue (streams s3 h)" "io_trace s' = io_trace s3 @ done_calls h s3 q"
    "active_reqs s' = active_reqs s3 - of_nat (length q)" "calls_frame h s3 s'"
    using Cons.hyps(1) [of s3] i3 q3 by auto
  have "uv__write_callbacks E h s = Some s'"
    using q s1 s2(1) no_try s3(1) s'(1) by (subst uv__write_callbacks.simps) simp
  moreover have "done_calls h s3 q = done_calls h s q" by (simp add: done_calls_def f3(3) w2 cong: map_cong option.case_cong)
  then have "io_trace s' = io_trace s @ done_calls h s (r # q)" using s'(5) f3(5) by (simp add: done_calls_def)
  moreover have "calls_frame h s s'" using f2(1) f3(1) s'(7) calls_frame_trans by blast
  moreover have "write_queue (streams s' h) = write_queue (streams s h)" using s'(4) f3(2) sr(3) by simp
  moreover have "active_reqs s' = active_reqs s - of_nat (length (r # q))" using s'(6) f3(4) s2(6) by (simp add: diff_diff_eq)
  ultimately show ?case using s'(2,3) unfolding q by blast
qed

lemma fold_errors:
  "writes (fold (\<lambda>r. upd_write r (\<lambda>w. w\<lparr>werror := err\<rparr>)) q s) = (\<lambda>x. if x \<in> set q then (writes s x)\<lparr>werror := err\<rparr> else writes s x)"
  by (induction q arbitrary: s) (auto simp: fun_eq_iff)

lemma fold_errors_frames:
  "streams (fold (\<lambda>r. upd_write r (f r)) q s) = streams s" "stream_reqs (fold (\<lambda>r. upd_write r (f r)) q s) = stream_reqs s"
  "handles (fold (\<lambda>r. upd_write r (f r)) q s) = handles s" "active_reqs (fold (\<lambda>r. upd_write r (f r)) q s) = active_reqs s"
  "io_watchers (fold (\<lambda>r. upd_write r (f r)) q s) = io_watchers s" "watchers (fold (\<lambda>r. upd_write r (f r)) q s) = watchers s"
  "watcher_queue (fold (\<lambda>r. upd_write r (f r)) q s) = watcher_queue s" "nfds (fold (\<lambda>r. upd_write r (f r)) q s) = nfds s"
  "os (fold (\<lambda>r. upd_write r (f r)) q s) = os s" "io_trace (fold (\<lambda>r. upd_write r (f r)) q s) = io_trace s"
  by (induction q arbitrary: s) simp_all

text \<open>After the flush all requests of the stream are finished.\<close>

lemma flush_ok:
  assumes "write_inv h s" and "err \<le> 0" and s1: "s1 = uv__stream_flush_write_queue h err s"
  shows "write_inv h s1" and "write_queue (streams s1 h) = []"
    and "write_completed_queue (streams s1 h) = write_completed_queue (streams s h) @ write_queue (streams s h)"
    and "writes s1 = (\<lambda>x. if x \<in> set (write_queue (streams s h)) then (writes s x)\<lparr>werror := err\<rparr> else writes s x)"
    and "stream_rest (streams s1 h) = stream_rest (streams s h)" "\<forall>g. g \<noteq> h \<longrightarrow> streams s1 g = streams s g"
    "stream_reqs s1 = stream_reqs s" "handles s1 = handles s" "active_reqs s1 = active_reqs s" "io_trace s1 = io_trace s"
    "io_watchers s1 = io_watchers s"
proof -
  note d = write_invD [OF assms(1)]
  have st: "streams s1 h = (streams s h)\<lparr>write_queue := [],
      write_completed_queue := write_completed_queue (streams s h) @ write_queue (streams s h)\<rparr>"
    by (simp add: s1 uv__stream_flush_write_queue_def Let_def fold_errors_frames)
  then show st': "write_queue (streams s1 h) = []"
    "write_completed_queue (streams s1 h) = write_completed_queue (streams s h) @ write_queue (streams s h)"
    "stream_rest (streams s1 h) = stream_rest (streams s h)" by (simp_all add: stream_rest_def)
  show wr: "writes s1 = (\<lambda>x. if x \<in> set (write_queue (streams s h)) then (writes s x)\<lparr>werror := err\<rparr> else writes s x)"
    by (simp add: s1 uv__stream_flush_write_queue_def Let_def fold_errors)
  show fr: "\<forall>g. g \<noteq> h \<longrightarrow> streams s1 g = streams s g" "stream_reqs s1 = stream_reqs s" "handles s1 = handles s"
    "active_reqs s1 = active_reqs s" "io_trace s1 = io_trace s" "io_watchers s1 = io_watchers s"
    by (simp_all add: s1 uv__stream_flush_write_queue_def Let_def fold_errors_frames)
  have po: "pending x s1 = pending x s" for x unfolding pending_def wr by (simp cong: option.case_cong)
  have u: "unsent_size h s1 = unsent_size h s" unfolding unsent_size_def st by (simp add: po)
  have "\<forall>x\<in>set (write_completed_queue (streams s1 h)). whandle (writes s1 x) = h \<and> werror (writes s1 x) \<le> 0"
  proof
    fix x assume "x \<in> set (write_completed_queue (streams s1 h))"
    then have "x \<in> set (write_completed_queue (streams s h)) \<or> x \<in> set (write_queue (streams s h))" using st'(2) by auto
    then show "whandle (writes s1 x) = h \<and> werror (writes s1 x) \<le> 0"
      using d(3,4) [of x] assms(2) unfolding wr waiting_ok_def by auto
  qed
  moreover have "distinct (queued h s1)" "length (queued h s1) \<le> unat (active_reqs s1)"
    using d(1,2) fr(4) unfolding st by (auto simp: add.commute)
  moreover have "write_queue_size (streams s1 h) = of_nat (unsent_size h s1)" "unsent_size h s1 < 2 ^ 64" using d(5,6) u by (simp_all add: st)
  ultimately show "write_inv h s1" unfolding write_inv_def using st'(1) by simp
qed

text \<open>The call that cancels a connect or a shutdown request.\<close>

definition cancel_calls :: "hid \<Rightarrow> 'a stream_loop_scheme \<Rightarrow> rid option \<Rightarrow> (cb \<times> hid \<times> int list \<times> u8 list) list" where
  "cancel_calls h s p =
     (case p of None \<Rightarrow> [] | Some r \<Rightarrow>
        (case sreq_cb (stream_reqs s r) of None \<Rightarrow> [] | Some c \<Rightarrow> [(c, h, [int r, UV_ECANCELED], [])]))"

text \<open>What \<^verbatim>\<open>uv__stream_destroy\<close> has to call back for: with the status they ended with, or cancelled.\<close>

definition destroy_calls :: "hid \<Rightarrow> 'a stream_loop_scheme \<Rightarrow> (cb \<times> hid \<times> int list \<times> u8 list) list" where
  "destroy_calls h s =
     cancel_calls h s (connect_req (streams s h)) @ done_calls h s (write_completed_queue (streams s h)) @
     concat (map (\<lambda>r. case wcb (writes s r) of None \<Rightarrow> [] | Some c \<Rightarrow> [(c, h, [int r, UV_ECANCELED], [])]) (write_queue (streams s h))) @
     cancel_calls h s (shutdown_req (streams s h))"

definition pending_reqs :: "uv_stream \<Rightarrow> nat" where
  "pending_reqs x = (if connect_req x = None then 0 else 1) + length (write_queue x) + length (write_completed_queue x) +
     (if shutdown_req x = None then 0 else 1)"

lemma cancel_req_ok:
  assumes "calm_client (str_acb E)" and "0 < unat (active_reqs s)" and "sreq_cb (stream_reqs s r) = Some c"
  shows "\<exists>s'. cancel_req E h r s = Some s' \<and>
    untouched (s\<lparr>active_reqs := active_reqs s - 1, io_trace := io_trace s @ [(c, h, [int r, UV_ECANCELED], [])]\<rparr>) s'"
proof -
  let ?s = "s\<lparr>active_reqs := active_reqs s - 1\<rparr>"
  obtain s' where "invoke_args (str_acb E) c h [int r, UV_ECANCELED] [] ?s = Some s'"
    "untouched (?s\<lparr>io_trace := io_trace ?s @ [(c, h, [int r, UV_ECANCELED], [])]\<rparr>) s'"
    using calm_call [OF assms(1)] by blast
  moreover have "uv__req_unregister s = Some ?s"
    using assms(2) by (auto simp: uv__req_unregister_def uv__has_active_reqs_def unat_gt_0 word_gt_0)
  ultimately show ?thesis using assms(3) by (intro exI [of _ s']) (simp add: cancel_req_def req_done_def)
qed

definition opt_num :: "'b option \<Rightarrow> nat" where
  "opt_num p = (case p of None \<Rightarrow> 0 | Some _ \<Rightarrow> 1)"

text \<open>Cancelling the request of one of the two fields: \<open>clear\<close> empties the field.\<close>

lemma cancel_opt_ok:
  assumes "calm_client (str_acb E)" and "opt_num p \<le> unat (active_reqs s)" and "\<forall>r. p = Some r \<longrightarrow> sreq_cb (stream_reqs s r) \<noteq> None"
    and "p = None \<Longrightarrow> f (streams s h) = streams s h"
  shows "\<exists>s'. (case p of None \<Rightarrow> Some s | Some r \<Rightarrow> do { s \<leftarrow> cancel_req E h r s; Some (upd_stream h f s) }) = Some s' \<and>
    streams s' = (streams s)(h := f (streams s h)) \<and> writes s' = writes s \<and> stream_reqs s' = stream_reqs s \<and>
    active_reqs s' = active_reqs s - of_nat (opt_num p) \<and> unat (active_reqs s') = unat (active_reqs s) - opt_num p \<and>
    io_trace s' = io_trace s @ cancel_calls h s p \<and> handles s' = handles s \<and> io_watchers s' = io_watchers s"
proof (cases p)
  case None
  then show ?thesis using assms(4) by (intro exI [of _ s]) (simp add: opt_num_def cancel_calls_def fun_upd_idem)
next
  case (Some r)
  obtain c where c: "sreq_cb (stream_reqs s r) = Some c" using assms(3) Some by blast
  have ar: "0 < unat (active_reqs s)" using assms(2) Some by (simp add: opt_num_def)
  obtain s' where s': "cancel_req E h r s = Some s'"
    "untouched (s\<lparr>active_reqs := active_reqs s - 1, io_trace := io_trace s @ [(c, h, [int r, UV_ECANCELED], [])]\<rparr>) s'"
    using cancel_req_ok [OF assms(1) ar c] by blast
  have "unat (active_reqs s - 1) = unat (active_reqs s) - 1" using ar by (simp add: unat_minus_one word_gt_0 unat_gt_0)
  then show ?thesis using s' Some c by (intro exI [of _ "upd_stream h f s'"]) (simp add: untouched_def opt_num_def cancel_calls_def)
qed

lemma pending_reqs_num: "pending_reqs x = opt_num (connect_req x) + length (write_queue x) + length (write_completed_queue x) + opt_num (shutdown_req x)"
  by (simp add: pending_reqs_def opt_num_def split: option.split)

text \<open>A stream that is closed: its watcher is idle.\<close>

definition stream_down :: "hid \<Rightarrow> 'a stream_loop_scheme \<Rightarrow> bool" where
  "stream_down h s \<longleftrightarrow> has_flag UV_HANDLE_CLOSED h s \<and> pevents (io_watchers s (WHandle h)) AND (POLLIN OR POLLOUT) = 0"

lemma destroy_all:
  fixes s :: "'a stream_loop_scheme"
  assumes "write_inv h s" and "stream_down h s" and calm: "calm_client (str_acb E)"
    and "pending_reqs (streams s h) \<le> unat (active_reqs s)"
    and "\<forall>r\<in>set (queued h s). wcb (writes s r) \<noteq> Some uv_try_write_cb"
    and "\<forall>r. connect_req (streams s h) = Some r \<or> shutdown_req (streams s h) = Some r \<longrightarrow> sreq_cb (stream_reqs s r) \<noteq> None"
  shows "\<exists>s'. uv__stream_destroy E h s = Some s' \<and> io_trace s' = io_trace s @ destroy_calls h s \<and>
    pending_reqs (streams s' h) = 0 \<and> write_queue_size (streams s' h) = 0 \<and>
    active_reqs s' = active_reqs s - of_nat (pending_reqs (streams s h))"
proof -
  let ?x = "streams s h"
  let ?wq = "write_queue ?x" and ?cq = "write_completed_queue ?x"
  have np: "opt_num (connect_req ?x) + length ?wq + length ?cq + opt_num (shutdown_req ?x) \<le> unat (active_reqs s)"
    using assms(4) by (simp add: pending_reqs_num)
  obtain s1 where s1: "(case connect_req ?x of None \<Rightarrow> Some s | Some r \<Rightarrow> do { s \<leftarrow> cancel_req E h r s;
      Some (upd_stream h (\<lambda>x. x\<lparr>connect_req := None\<rparr>) s) }) = Some s1"
    "streams s1 = (streams s)(h := ?x\<lparr>connect_req := None\<rparr>)" "writes s1 = writes s" "stream_reqs s1 = stream_reqs s"
    "active_reqs s1 = active_reqs s - of_nat (opt_num (connect_req ?x))" "unat (active_reqs s1) = unat (active_reqs s) - opt_num (connect_req ?x)"
    "io_trace s1 = io_trace s @ cancel_calls h s (connect_req ?x)" "handles s1 = handles s" "io_watchers s1 = io_watchers s"
    using cancel_opt_ok [OF calm, of "connect_req ?x" s "\<lambda>x. x\<lparr>connect_req := None\<rparr>" h] np assms(6) by (cases ?x) auto
  have po1: "pending r s1 = pending r s" for r using s1(3) by (intro pending_cong) simp
  have i1: "write_inv h s1"
    using assms(1) np s1(2,3,6) unfolding write_inv_def unsent_size_def by (simp add: po1)
  define s2 where "s2 = uv__stream_flush_write_queue h UV_ECANCELED s1"
  have ec: "UV_ECANCELED \<le> 0" by (simp add: UV_ECANCELED_def)
  note f = flush_ok [OF i1 ec s2_def]
  have w2: "wcb (writes s2 r) = wcb (writes s r)" for r by (simp add: f(4) s1(3))
  have c2: "write_completed_queue (streams s2 h) = ?cq @ ?wq" using f(3) s1(2) by simp
  have "\<forall>r\<in>set (write_completed_queue (streams s2 h)). wcb (writes s2 r) \<noteq> Some uv_try_write_cb"
    using assms(5) w2 c2 by auto
  then obtain s3 where s3: "uv__write_callbacks E h s2 = Some s3" "write_inv h s3" "write_completed_queue (streams s3 h) = []"
    "write_queue (streams s3 h) = []" "io_trace s3 = io_trace s2 @ done_calls h s2 (?cq @ ?wq)"
    "active_reqs s3 = active_reqs s2 - of_nat (length (?cq @ ?wq))" "calls_frame h s2 s3"
    using write_callbacks_ok [OF calm f(1)] f(2) c2 by auto
  have dc: "done_calls h s2 (?cq @ ?wq) = done_calls h s ?cq @
      concat (map (\<lambda>r. case wcb (writes s r) of None \<Rightarrow> [] | Some c \<Rightarrow> [(c, h, [int r, UV_ECANCELED], [])]) ?wq)"
  proof -
    have "r \<notin> set ?wq" if "r \<in> set ?cq" for r using write_invD(1) [OF assms(1)] that by auto
    then show ?thesis unfolding done_calls_def by (simp add: f(4) s1(2,3) cong: map_cong option.case_cong)
  qed
  have r3: "stream_rest (streams s3 h) = stream_rest (?x\<lparr>connect_req := None\<rparr>)"
    using s3(7) f(5) s1(2) by (simp add: calls_frame_def)
  have x3: "connect_req (streams s3 h) = None" "shutdown_req (streams s3 h) = shutdown_req ?x" "stream_reqs s3 = stream_reqs s"
    using stream_restD(1,2) [OF r3] s3(7) f(7) s1(4) by (simp_all add: calls_frame_def)
  have a3: "unat (active_reqs s3) = unat (active_reqs s1) - length (?cq @ ?wq)"
  proof -
    have "length (?cq @ ?wq) \<le> unat (active_reqs s1)" using np s1(6) by simp
    then show ?thesis unfolding s3(6) f(9)
      by (metis le_unat_uoi unat_sub word_le_nat_alt) 
  qed
  have "opt_num (shutdown_req ?x) \<le> unat (active_reqs s3)" using np a3 s1(6) by simp
  then obtain s4 where s4: "(case shutdown_req ?x of None \<Rightarrow> Some s3 | Some r \<Rightarrow> do { s \<leftarrow> cancel_req E h r s3;
      Some (upd_stream h (\<lambda>x. x\<lparr>shutdown_req := None\<rparr>) s) }) = Some s4"
    "streams s4 = (streams s3)(h := (streams s3 h)\<lparr>shutdown_req := None\<rparr>)"
    "active_reqs s4 = active_reqs s3 - of_nat (opt_num (shutdown_req ?x))"
    "io_trace s4 = io_trace s3 @ cancel_calls h s3 (shutdown_req ?x)"
    using cancel_opt_ok [OF calm, of "shutdown_req ?x" s3 "\<lambda>x. x\<lparr>shutdown_req := None\<rparr>" h] assms(6) x3
    by (cases "streams s3 h") auto
  have z: "write_queue_size (streams s4 h) = 0"
    using write_invD(6) [OF s3(2)] s3(3,4) by (simp add: s4(2) unsent_size_def)
  have go: "uv__stream_destroy E h s = Some s4"
    unfolding uv__stream_destroy_def
    using assms(2) s1(1) s3(1) s4(1) x3(2) z by (simp add: stream_down_def s2_def)
  have tr: "io_trace s4 = io_trace s @ destroy_calls h s"
    using s4(4) s3(5) f(10) s1(7) dc x3(3) by (simp add: destroy_calls_def cancel_calls_def cong: option.case_cong)
  have p4: "pending_reqs (streams s4 h) = 0" using s3(3,4) x3(1) by (simp add: pending_reqs_def s4(2))
  have "active_reqs s4 = active_reqs s - of_nat (pending_reqs ?x)"
    unfolding s4(3) s3(6) f(9) s1(5) pending_reqs_num by (simp add: algebra_simps)
  then show ?thesis using go tr p4 z by blast
qed


text \<open>A client that stops the loop in every callback, and a closed stream with a connect and a write request.\<close>

definition stop_env :: "stream_loop stream_env" where
  "stop_env = \<lparr>str_kernel = slow_kernel, str_acb = (\<lambda>c h args bs s. Some (s\<lparr>stop_flag := True\<rparr>)), str_alloc = (\<lambda>c h n s. Some (4, s))\<rparr>"

lemma stop_env_calm: "calm_client (str_acb stop_env)"
  by (simp add: calm_client_def stop_env_def untouched_def)

definition closed_stream :: stream_loop where
  "closed_stream =
     (let s = set_flag UV_HANDLE_CLOSED 2 (open_stream UV_TCP 2 3);
          s = upd_stream 2 (\<lambda>x. x\<lparr>connect_req := Some 4\<rparr>) (new_req 4 2 (Some 7) s)
      in write_append 5 2 [[1, 2]] (req_init 5 2 None (Some 8) s))"

lemma closed_stream_eqs:
  "streams closed_stream 2 = no_stream\<lparr>connect_req := Some 4, write_queue := [5], write_queue_size := 2\<rparr>"
  "writes closed_stream 5 = no_write\<lparr>wcb := Some 8, whandle := 2, wbufs := Some [[1, 2]], wnbufs := 1\<rparr>"
  "active_reqs closed_stream = 2" "sreq_cb (stream_reqs closed_stream 4) = Some 7"
  by (simp_all add: closed_stream_def Let_def write_append_def req_init_def new_req_def uv__req_register_def open_stream_eqs
      no_stream_def no_write_def uv__count_bufs_def set_flag_def upd_handle_def)

lemma closed_stream_ok: "write_inv 2 closed_stream" "stream_down 2 closed_stream" "pending 5 closed_stream = [1, 2]"
proof -
  show p: "pending 5 closed_stream = [1, 2]" by (simp add: pending_def closed_stream_eqs no_write_def)
  show "write_inv 2 closed_stream"
    by (simp add: write_inv_def waiting_ok_def unsent_size_def closed_stream_eqs p no_stream_def no_write_def)
  show "stream_down 2 closed_stream"
    by (simp add: stream_down_def closed_stream_def Let_def write_append_def req_init_def new_req_def uv__req_register_def open_stream_eqs
        set_flag_def upd_handle_def has_flag_def UV_HANDLE_CLOSED_def bit.conj_disj_distrib2)
qed


text \<open>
  The callback of a connect or a shutdown request that is still open may not be null, although both are allowed to be elsewhere: the
  function calls it without asking.
\<close>

lemma destroy_null_callback:
  "stream_down h s \<Longrightarrow> connect_req (streams s h) = Some r \<Longrightarrow> sreq_cb (stream_reqs s r) = None \<Longrightarrow> uv__stream_destroy E h s = None"
  by (auto simp: uv__stream_destroy_def stream_down_def cancel_req_def uv__req_unregister_def)

text \<open>
  C30. The loop that takes sent bytes off the array of buffers, with its index and its cut buffer, does what dropping them from the
  front of the flat sequence of bytes does: it says the request is finished exactly when none are left, and otherwise leaves the rest.
\<close>

theorem write_advance_flat:
  assumes "waiting_ok h (writes s r)" and "n \<le> length (pending r s)" and "write_inv h s" and "r \<in> set (write_queue (streams s h))"
  shows "\<exists>s'. write_advance h r n s = Some (drop n (pending r s) = [], s') \<and>
    (if drop n (pending r s) = [] then werror (writes s' r) = 0 \<and> r \<in> set (write_completed_queue (streams s' h))
     else pending r s' = drop n (pending r s) \<and> r \<in> set (write_queue (streams s' h)))"
proof -
  obtain bufs where b: "wbufs (writes s r) = Some bufs" "length bufs = wnbufs (writes s r)" "wwrite_index (writes s r) < wnbufs (writes s r)"
    "whandle (writes s r) = h" "werror (writes s r) = 0"
    using assms(1) by (auto simp: waiting_ok_def)
  have le: "length (pending r s) \<le> unsent_size h s"
    using member_le_sum_list [of "length (pending r s)" "map (\<lambda>r. length (pending r s)) (queued h s)"] assms(4)
    by (auto simp: unsent_size_def)
  obtain bufs' i where a: "length bufs' = wnbufs (writes s r)"
    "if n = length (pending r s) then write_advance h r n s = Some (True, uv__write_req_finish r (taken h r n bufs' i s))
     else write_advance h r n s = Some (False, taken h r n bufs' i s) \<and> i < wnbufs (writes s r) \<and>
       concat (drop i bufs') = drop n (pending r s)"
    using write_advance_takes [OF b(1-3) assms(2) write_invD(6) [OF assms(3)] le write_invD(5) [OF assms(3)]] by blast
  show ?thesis
  proof (cases "n = length (pending r s)")
    case True
    then show ?thesis using a b(4,5) by (simp add: uv__write_req_finish_def Let_def uv__io_feed_def)
  next
    case False
    then have "drop n (pending r s) \<noteq> []" using assms(2) by simp
    moreover have "pending r (taken h r n bufs' i s) = drop n (pending r s)" using a(2) False by (simp add: pending_def)
    ultimately show ?thesis using a(2) False assms(4) by (intro exI [of _ "taken h r n bufs' i s"]) simp
  qed
qed

theorem write_advance_flat_witness:
  "\<exists>s'. write_advance 2 5 1 closed_stream = Some (False, s') \<and> pending 5 s' = [2]"
proof -
  have "waiting_ok 2 (writes closed_stream 5)" by (simp add: waiting_ok_def closed_stream_eqs no_write_def)
  from write_advance_flat [OF this _ closed_stream_ok(1), of 1] show ?thesis
    by (auto simp: closed_stream_ok(3) closed_stream_eqs no_stream_def)
qed

end
