(* ===== verification/StreamIo.thy ===== *)
theory StreamIo
  imports StreamWrite
begin

text \<open>
  Reading, accepting and closing streams (\<^verbatim>\<open>3rd/libuv/src/unix/stream.c\<close>).

  \<open>pending_fds\<close> is the queue of descriptors a stream has accepted and not handed on: the accepted one, and behind it those that came
  with messages. Receiving appends to it, \<^verbatim>\<open>uv_accept\<close> takes its head, closing the stream closes all of it. \<open>reads_of\<close> are the
  reading calls on a descriptor; \<^verbatim>\<open>uv__read\<close> makes at most 32 of them and hands on exactly the bytes they return.
\<close>

subsection \<open>Watchers of streams\<close>

text \<open>A watcher that may be stopped, open or not: what it watches is in the table.\<close>

definition watcher_ok :: "wid \<Rightarrow> 'a io_loop_scheme \<Rightarrow> bool" where
  "watcher_ok w s \<longleftrightarrow> io_inv s \<and>
     (let fd = iofd (io_watchers s w); inside = (0 \<le> fd \<and> nat fd < length (watchers s)) in
      - 1 \<le> fd \<and> (inside \<longrightarrow> watchers s ! nat fd \<in> {None, Some w}) \<and>
      (\<not> (inside \<and> watchers s ! nat fd = Some w) \<longrightarrow> pevents (io_watchers s w) = 0))"

lemma io_stop_watcher:
  fixes s :: "'a stream_loop_scheme"
  assumes "watcher_ok w s" and "ev AND NOT IO_EVENTS = 0" and "ev \<noteq> 0"
  shows "\<exists>s'. uv__io_stop w ev s = Some s' \<and> watcher_ok w s' \<and> pevents (io_watchers s' w) = pevents (io_watchers s w) AND NOT ev \<and>
    length (watchers s') = length (watchers s)"
proof -
  let ?fd = "iofd (io_watchers s w)"
  have i: "io_inv s" "- 1 \<le> ?fd" using assms(1) by (auto simp: watcher_ok_def Let_def)
  show ?thesis
  proof (cases "?fd = - 1 \<or> length (watchers s) \<le> nat ?fd")
    case True
    then have "pevents (io_watchers s w) = 0" "uv__io_stop w ev s = Some s"
      using assms i by (auto simp: watcher_ok_def uv__io_stop_def Let_def)
    then show ?thesis using assms(1) by simp
  next
    case False
    then have ins: "0 \<le> ?fd" "nat ?fd < length (watchers s)" using i(2) by auto
    have slot: "watchers s ! nat ?fd = None \<and> pevents (io_watchers s w) = 0 \<or> watchers s ! nat ?fd = Some w"
      using assms(1) ins by (auto simp: watcher_ok_def Let_def)
    obtain s' where s': "uv__io_stop w ev s = Some s'" "io_inv s'"
      using uv__io_stop_inv [OF i(1) assms(2,3), of w] i(2) slot by auto
    have f: "iofd (io_watchers s' w) = ?fd" using io_stop_frames(4) [OF s'(1)] .
    let ?s1 = "upd_io w (\<lambda>x. x\<lparr>pevents := pevents x AND NOT ev\<rparr>) s"
    have "pevents (io_watchers s' w) = pevents (io_watchers s w) AND NOT ev \<and> length (watchers s') = length (watchers s) \<and>
        (watchers s' ! nat ?fd = Some w \<or> watchers s' ! nat ?fd = None \<and> pevents (io_watchers s' w) = 0)"
    proof (cases "pevents (io_watchers s w) AND NOT ev = 0")
      case p: True
      show ?thesis
      proof (cases "watchers s ! nat ?fd")
        case None
        then have "s' = ?s1\<lparr>watcher_queue := remove1 w (watcher_queue ?s1)\<rparr>"
          using s'(1) assms(2,3) ins p by (simp add: uv__io_stop_def fd_watcher_def Let_def split: if_split_asm)
        then show ?thesis using None p by simp
      next
        case (Some v)
        then have "watchers s' = (watchers s)[nat ?fd := None] \<and> pevents (io_watchers s' w) = 0"
          using s'(1) assms(2,3) ins p slot by (simp add: uv__io_stop_def fd_watcher_def Let_def split: if_split_asm) auto
        then show ?thesis using p ins by simp
      qed
    next
      case np: False
      then have "s' = io_queue_watcher w ?s1"
        using s'(1) assms(2,3) ins by (simp add: uv__io_stop_def Let_def split: if_split_asm)
      moreover have "watchers s ! nat ?fd = Some w" using slot np by auto
      ultimately show ?thesis by simp
    qed
    then show ?thesis using s' ins by (intro exI [of _ s']) (auto simp: watcher_ok_def Let_def f)
  qed
qed

lemma stream_io_watcher: "stream_io h s \<Longrightarrow> nat (iofd (io_watchers s (WHandle h))) < length (watchers s) \<Longrightarrow> watcher_ok (WHandle h) s"
  by (auto simp: stream_io_def watcher_ok_def Let_def)

subsection \<open>Closing\<close>

definition pending_fds :: "hid \<Rightarrow> 'a stream_loop_scheme \<Rightarrow> int list" where
  "pending_fds h s =
     (if accepted_fd (streams s h) = - 1 then []
      else accepted_fd (streams s h) # (case queued_fds (streams s h) of None \<Rightarrow> [] | Some (qsize, fds) \<Rightarrow> fds))"

definition fds_ok :: "hid \<Rightarrow> 'a stream_loop_scheme \<Rightarrow> bool" where
  "fds_ok h s \<longleftrightarrow> (\<forall>qsize fds. queued_fds (streams s h) = Some (qsize, fds) \<longrightarrow>
     accepted_fd (streams s h) \<noteq> - 1 \<and> fds \<noteq> [] \<and> length fds \<le> qsize)"

text \<open>Closing a descriptor that is not one of the standard ones.\<close>

lemma lift_close: "fd > 2 \<Longrightarrow> \<exists>rc w. lift_os (uv__close K fd) s = Some (rc, s\<lparr>os := w\<rparr>) \<and> live_fds w = live_fds (os s) - {fd}"
  using close_returns [of fd K "os s"] close_fds [of K fd "os s"] by (auto simp: lift_os_def)

lemma close_all_ok:
  "\<forall>fd\<in>set fds. fd > 2 \<Longrightarrow> \<exists>w. close_all K fds s = Some (s\<lparr>os := w\<rparr>) \<and> live_fds w = live_fds (os s) - set fds"
proof (induction fds arbitrary: s)
  case Nil
  then show ?case by (intro exI [of _ "os s"]) simp
next
  case (Cons fd fds)
  obtain rc w1 where s1: "lift_os (uv__close K fd) s = Some (rc, s\<lparr>os := w1\<rparr>)" "live_fds w1 = live_fds (os s) - {fd}"
    using lift_close [of fd K s] Cons.prems by auto
  obtain w where "close_all K fds (s\<lparr>os := w1\<rparr>) = Some (s\<lparr>os := w\<rparr>)" "live_fds w = live_fds w1 - set fds"
    using Cons.IH [of "s\<lparr>os := w1\<rparr>"] Cons.prems by auto
  then show ?case using s1 by auto
qed

lemma watcher_ok_cong:
  assumes "watcher_ok w s" and "watchers s' = watchers s" and "io_watchers s' = io_watchers s" and "watcher_queue s' = watcher_queue s"
    and "nfds s' = nfds s"
  shows "watcher_ok w s'"
proof -
  have "io_inv s'" using assms unfolding watcher_ok_def by (auto intro: io_inv_cong)
  then show ?thesis using assms(1) by (simp add: watcher_ok_def assms(2,3))
qed

lemma io_close_ok:
  fixes s :: "'a stream_loop_scheme"
  assumes "watcher_ok w s" and "watchers s \<noteq> []"
  shows "\<exists>s'. uv__io_close K w s = Some s' \<and> watcher_ok w s' \<and> pevents (io_watchers s' w) AND IO_EVENTS = 0 \<and>
    same_streams s s' \<and> handles s' = handles s \<and> live_fds (os s') = live_fds (os s) \<and>
    iofd (io_watchers s' v) = iofd (io_watchers s v)"
proof -
  have io: "IO_EVENTS AND NOT IO_EVENTS = 0" "IO_EVENTS \<noteq> 0"
    by (simp_all add: IO_EVENTS_def POLLIN_def POLLOUT_def POLLRDHUP_def POLLPRI_def)
  obtain s1 where s1: "uv__io_stop w IO_EVENTS s = Some s1" "watcher_ok w s1"
    "pevents (io_watchers s1 w) = pevents (io_watchers s w) AND NOT IO_EVENTS" "length (watchers s1) = length (watchers s)"
    using io_stop_watcher [OF assms(1) io] by blast
  note f = io_stop_frames [OF s1(1)]
  define s2 where "s2 = s1\<lparr>pending_queue := remove1 w (pending_queue s1), pending_local := remove1 w (pending_local s1),
    poll_events := map_option (map (\<lambda>(e, d). (e, if d = iofd (io_watchers s1 w) then - 1 else d))) (poll_events s1)\<rparr>"
  have s2: "watchers s2 = watchers s1" "io_watchers s2 = io_watchers s1" "watcher_queue s2 = watcher_queue s1" "nfds s2 = nfds s1"
    "handles s2 = handles s1" "os s2 = os s1" "same_streams s1 s2"
    by (simp_all add: s2_def same_streams_def)
  have w2: "watcher_ok w s2" using watcher_ok_cong [OF s1(2) s2(1-4)] .
  let ?c = "SysEpollCtl (backend_fd s2) ''DEL'' (iofd (io_watchers s1 w)) 0"
  define s3 where "s3 = (if backend_fd s2 \<ge> 0 then snd (sysl K ?c s2) else s2)"
  have go: "uv__io_close K w s = Some s3"
  proof -
    have "watchers s1 \<noteq> []" using s1(4) assms(2) by (metis length_0_conv)
    then show ?thesis using s1(1) by (simp add: uv__io_close_def uv__platform_invalidate_fd_def s3_def s2_def Let_def)
  qed
  have s3: "watchers s3 = watchers s2" "io_watchers s3 = io_watchers s2" "watcher_queue s3 = watcher_queue s2" "nfds s3 = nfds s2"
    "handles s3 = handles s2" "same_streams s2 s3"
    by (simp_all add: s3_def sysl_def split: prod.split)
  have "live_fds (os s3) = live_fds (os s2)"
    using sysl_result(3) [of K ?c s2 "fst (sysl K ?c s2)" "snd (sysl K ?c s2)"]
    by (simp add: s3_def fd_effect_def new_fds_def)
  moreover have "same_streams s s3" using f(1) s2(7) s3(6) same_streams_trans by blast
  moreover have "(pevents (io_watchers s w) AND NOT IO_EVENTS) AND IO_EVENTS = 0" by (simp add: and.assoc)
  ultimately show ?thesis
    using go watcher_ok_cong [OF w2 s3(1-4)] s1(3) s2 s3 f(2-4)
    by (intro exI [of _ s3]) simp
qed

definition closable :: "hid \<Rightarrow> 'a stream_loop_scheme \<Rightarrow> bool" where
  "closable h s \<longleftrightarrow> watcher_ok (WHandle h) s \<and> watchers s \<noteq> [] \<and> fds_ok h s \<and> (\<forall>fd\<in>set (pending_fds h s). fd > 2)"

lemma in_out_events: "POLLIN OR POLLOUT = (POLLIN OR POLLOUT) AND IO_EVENTS" "POLLIN = POLLIN AND IO_EVENTS" "POLLOUT = POLLOUT AND IO_EVENTS"
  by (simp_all add: IO_EVENTS_def POLLIN_def POLLOUT_def POLLRDHUP_def POLLPRI_def)

lemma no_events: "p AND IO_EVENTS = 0 \<Longrightarrow> p AND (POLLIN OR POLLOUT) = 0 \<and> p AND POLLIN = 0 \<and> p AND POLLOUT = 0" for p :: u32
proof -
  assume z: "p AND IO_EVENTS = 0"
  have "p AND q = 0" if "q = q AND IO_EVENTS" for q :: u32
  proof -
    have "p AND q = (p AND IO_EVENTS) AND q" by (subst that) (simp only: ac_simps)
    then show ?thesis by (simp add: z)
  qed
  then show ?thesis using in_out_events by blast
qed

lemma pending_fds_cong: "streams s' = streams s \<Longrightarrow> pending_fds h s' = pending_fds h s"
  by (simp add: pending_fds_def)

text \<open>Stopping a stream that watches nothing any more.\<close>

lemma read_stop_ok:
  fixes s :: "'a stream_loop_scheme"
  assumes "watcher_ok (WHandle h) s" and "pevents (io_watchers s (WHandle h)) AND IO_EVENTS = 0"
  shows "\<exists>rc s'. uv_read_stop h s = Some (rc, s') \<and> watcher_ok (WHandle h) s' \<and> pevents (io_watchers s' (WHandle h)) AND IO_EVENTS = 0 \<and>
    live_fds (os s') = live_fds (os s) \<and> uv__stream_fd h s' = uv__stream_fd h s \<and> pending_fds h s' = pending_fds h s \<and>
    accepted_fd (streams s' h) = accepted_fd (streams s h) \<and> queued_fds (streams s' h) = queued_fds (streams s h)"
proof (cases "has_flag UV_HANDLE_READING h s")
  case False
  then show ?thesis using assms by (intro exI [of _ 0] exI [of _ s]) (simp add: uv_read_stop_def)
next
  case True
  let ?c = "clear_flag UV_HANDLE_READING h s"
  have c: "watcher_ok (WHandle h) ?c" by (rule watcher_ok_cong [OF assms(1)]) (simp_all add: clear_flag_def upd_handle_def)
  obtain s1 where s1: "uv__io_stop (WHandle h) POLLIN ?c = Some s1" "watcher_ok (WHandle h) s1"
    "pevents (io_watchers s1 (WHandle h)) = pevents (io_watchers ?c (WHandle h)) AND NOT POLLIN"
    using io_stop_watcher [OF c poll_masks(1,3)] by blast
  note f = io_stop_frames [OF s1(1)]
  have p: "pevents (io_watchers s1 (WHandle h)) AND IO_EVENTS = 0"
    using assms(2) unfolding s1(3) clear_flag_def by (simp add: upd_handle_def) (metis and.assoc and.commute and_zero_eq)
  let ?s2 = "uv__handle_stop h s1"
  have w2: "watcher_ok (WHandle h) ?s2"
    by (rule watcher_ok_cong [OF s1(2)])
      (simp_all add: uv__handle_stop_def clear_flag_def uv__active_handle_rm_def upd_handle_def Let_def)
  have "uv_read_stop h s = Some (0, upd_stream h (\<lambda>x. x\<lparr>read_cb := None, alloc_cb := None\<rparr>) ?s2)"
    using True s1(1) no_events [OF p] by (simp add: uv_read_stop_def stop_reading_def)
  moreover have "watcher_ok (WHandle h) (upd_stream h (\<lambda>x. x\<lparr>read_cb := None, alloc_cb := None\<rparr>) ?s2)"
    by (rule watcher_ok_cong [OF w2]) simp_all
  moreover have "streams ?s2 = streams s" "io_watchers ?s2 = io_watchers s1" "os ?s2 = os s"
    using handle_stop_frames [where h = h and s = s1] f(1,2) by (simp_all add: same_streams_def clear_flag_def upd_handle_def)
  ultimately show ?thesis using p f(4)
    by (intro exI [of _ 0] exI [of _ "upd_stream h (\<lambda>x. x\<lparr>read_cb := None, alloc_cb := None\<rparr>) ?s2"])
      (simp add: uv__stream_fd_def pending_fds_def clear_flag_def upd_handle_def)
qed

text \<open>The descriptors a stream owns: its own, unless it is one of the standard streams, and the accepted ones.\<close>

definition owned_fds :: "hid \<Rightarrow> 'a stream_loop_scheme \<Rightarrow> int set" where
  "owned_fds h s = (if uv__stream_fd h s > 2 then {uv__stream_fd h s} else {}) \<union> set (pending_fds h s)"

lemma handle_stop_inactive: "\<not> uv__is_active h (uv__handle_stop h s)"
  by (simp add: uv__is_active_def uv__handle_stop_def clear_flag_def uv__active_handle_rm_def flag_simps Let_def)

text \<open>The three steps of the function that close descriptors.\<close>

lemma close_own_fd:
  "\<exists>w. (if uv__stream_fd h s \<noteq> - 1
        then do {
          s \<leftarrow> (if uv__stream_fd h s > 2 then map_option snd (lift_os (uv__close K (uv__stream_fd h s)) s) else Some s);
          Some (set_stream_fd h (- 1) s)
        } else Some s) = Some (set_stream_fd h (- 1) (s\<lparr>os := w\<rparr>)) \<and>
     live_fds w = live_fds (os s) - (if uv__stream_fd h s > 2 then {uv__stream_fd h s} else {})"
proof (cases "uv__stream_fd h s > 2")
  case True
  then show ?thesis using lift_close [of "uv__stream_fd h s" K s] by auto
next
  case False
  have "set_stream_fd h (- 1) s = s" if "uv__stream_fd h s = - 1"
  proof -
    have "(io_watchers s (WHandle h))\<lparr>iofd := - 1\<rparr> = io_watchers s (WHandle h)"
      using that by (cases "io_watchers s (WHandle h)") (simp add: uv__stream_fd_def)
    then show ?thesis unfolding set_stream_fd_def upd_io_def by (simp only: fun_upd_triv) (cases s; simp)
  qed
  then show ?thesis using False by (intro exI [of _ "os s"]) auto
qed

lemma close_accepted_fd:
  assumes "accepted_fd (streams s h) = - 1 \<or> accepted_fd (streams s h) > 2"
  shows "\<exists>w. (if accepted_fd (streams s h) \<noteq> - 1
        then do {
          (_, s) \<leftarrow> lift_os (uv__close K (accepted_fd (streams s h))) s;
          Some (upd_stream h (\<lambda>x. x\<lparr>accepted_fd := - 1\<rparr>) s)
        } else Some s) = Some (upd_stream h (\<lambda>x. x\<lparr>accepted_fd := - 1\<rparr>) (s\<lparr>os := w\<rparr>)) \<and>
     live_fds w = live_fds (os s) - (if accepted_fd (streams s h) = - 1 then {} else {accepted_fd (streams s h)})"
proof (cases "accepted_fd (streams s h) = - 1")
  case True
  then have "(streams s h)\<lparr>accepted_fd := - 1\<rparr> = streams s h" by (cases "streams s h") simp
  then have "upd_stream h (\<lambda>x. x\<lparr>accepted_fd := - 1\<rparr>) s = s" unfolding upd_stream_def by (simp only: fun_upd_triv) (cases s; simp)
  then show ?thesis using True by (intro exI [of _ "os s"]) simp
next
  case False
  then show ?thesis using assms lift_close [of "accepted_fd (streams s h)" K s] by auto
qed

lemma close_queued_fds:
  assumes "\<forall>n fds. queued_fds (streams s h) = Some (n, fds) \<longrightarrow> (\<forall>fd\<in>set fds. fd > 2)"
  shows "\<exists>s'. (case queued_fds (streams s h) of
             None \<Rightarrow> Some s
           | Some (_, fds) \<Rightarrow> do { s \<leftarrow> close_all K fds s; Some (upd_stream h (\<lambda>x. x\<lparr>queued_fds := None\<rparr>) s) }) = Some s' \<and>
     live_fds (os s') = live_fds (os s) - (case queued_fds (streams s h) of None \<Rightarrow> {} | Some (n, fds) \<Rightarrow> set fds) \<and>
     accepted_fd (streams s' h) = accepted_fd (streams s h) \<and> handles s' = handles s \<and> io_watchers s' = io_watchers s"
proof (cases "queued_fds (streams s h)")
  case (Some p)
  obtain n fds where "p = (n, fds)" by (cases p)
  then show ?thesis using assms close_all_ok [of fds K s] Some by auto
qed simp

text \<open>The part before the descriptors are closed.\<close>

lemma close_quiet:
  fixes s :: "'a stream_loop_scheme"
  assumes "watcher_ok (WHandle h) s" and "watchers s \<noteq> []"
  shows "\<exists>s1 rc s2. uv__io_close K (WHandle h) s = Some s1 \<and> uv_read_stop h s1 = Some (rc, s2) \<and>
    (let s3 = uv__handle_stop h s2 in pevents (io_watchers s3 (WHandle h)) AND IO_EVENTS = 0 \<and> live_fds (os s3) = live_fds (os s) \<and>
       \<not> uv__is_active h s3 \<and> accepted_fd (streams s3 h) = accepted_fd (streams s h) \<and>
       queued_fds (streams s3 h) = queued_fds (streams s h) \<and> uv__stream_fd h s3 = uv__stream_fd h s)"
proof -
  obtain s1 where s1: "uv__io_close K (WHandle h) s = Some s1" "watcher_ok (WHandle h) s1" "pevents (io_watchers s1 (WHandle h)) AND IO_EVENTS = 0"
    "same_streams s s1" "live_fds (os s1) = live_fds (os s)" "uv__stream_fd h s1 = uv__stream_fd h s"
    using io_close_ok [OF assms] unfolding uv__stream_fd_def by metis
  obtain rc s2 where s2: "uv_read_stop h s1 = Some (rc, s2)" "pevents (io_watchers s2 (WHandle h)) AND IO_EVENTS = 0"
    "live_fds (os s2) = live_fds (os s1)" "uv__stream_fd h s2 = uv__stream_fd h s1"
    "accepted_fd (streams s2 h) = accepted_fd (streams s1 h)" "queued_fds (streams s2 h) = queued_fds (streams s1 h)"
    using read_stop_ok [OF s1(2,3)] by blast
  have "streams (uv__handle_stop h s2) = streams s2" "io_watchers (uv__handle_stop h s2) = io_watchers s2" "os (uv__handle_stop h s2) = os s2"
    using handle_stop_frames [where h = h and s = s2] by (simp_all add: same_streams_def)
  then show ?thesis using s1 s2 handle_stop_inactive [of h s2]
    by (intro exI [of _ s1] exI [of _ rc] exI [of _ s2]) (simp add: same_streams_def uv__stream_fd_def)
qed

lemma stream_close_ok:
  assumes "closable h s"
  shows "\<exists>s'. uv__stream_close K h s = Some s' \<and> live_fds (os s') = live_fds (os s) - owned_fds h s \<and>
    uv__stream_fd h s' = - 1 \<and> pending_fds h s' = [] \<and> pevents (io_watchers s' (WHandle h)) AND (POLLIN OR POLLOUT) = 0 \<and>
    \<not> uv__is_active h s'"
proof -
  have a: "watcher_ok (WHandle h) s" "watchers s \<noteq> []" "fds_ok h s" "\<forall>fd\<in>set (pending_fds h s). fd > 2"
    using assms by (auto simp: closable_def)
  obtain s1 rc s2 s3 where s12: "uv__io_close K (WHandle h) s = Some s1" "uv_read_stop h s1 = Some (rc, s2)"
    and s3_def: "s3 = uv__handle_stop h s2"
    and s3: "pevents (io_watchers s3 (WHandle h)) AND IO_EVENTS = 0" "live_fds (os s3) = live_fds (os s)" "\<not> uv__is_active h s3"
    and q3: "accepted_fd (streams s3 h) = accepted_fd (streams s h)" "queued_fds (streams s3 h) = queued_fds (streams s h)"
      "uv__stream_fd h s3 = uv__stream_fd h s"
    using close_quiet [OF a(1,2)] unfolding Let_def by blast
  note own = close_own_fd [of h s3 K]
  then obtain w4 where w4: "live_fds w4 = live_fds (os s3) - (if uv__stream_fd h s > 2 then {uv__stream_fd h s} else {})"
    and go4: "(if uv__stream_fd h s3 \<noteq> - 1
        then do { s \<leftarrow> (if uv__stream_fd h s3 > 2 then map_option snd (lift_os (uv__close K (uv__stream_fd h s3)) s3) else Some s3);
                  Some (set_stream_fd h (- 1) s) } else Some s3) = Some (set_stream_fd h (- 1) (s3\<lparr>os := w4\<rparr>))"
    unfolding q3 by blast
  define s4 where "s4 = set_stream_fd h (- 1) (s3\<lparr>os := w4\<rparr>)"
  have s4: "streams s4 = streams s3" "os s4 = w4" "handles s4 = handles s3" "uv__stream_fd h s4 = - 1"
    "pevents (io_watchers s4 (WHandle h)) = pevents (io_watchers s3 (WHandle h))"
    by (simp_all add: s4_def set_stream_fd_def upd_io_def uv__stream_fd_def)
  have "accepted_fd (streams s4 h) = - 1 \<or> accepted_fd (streams s4 h) > 2" using a(4) q3(1) s4(1) by (auto simp: pending_fds_def split: if_splits)
  from close_accepted_fd [OF this, of K] obtain w5 where w5: "live_fds w5 = live_fds w4 - (if accepted_fd (streams s h) = - 1 then {} else {accepted_fd (streams s h)})"
    and go5: "(if accepted_fd (streams s4 h) \<noteq> - 1
        then do { (_, s) \<leftarrow> lift_os (uv__close K (accepted_fd (streams s4 h))) s4; Some (upd_stream h (\<lambda>x. x\<lparr>accepted_fd := - 1\<rparr>) s) }
        else Some s4) = Some (upd_stream h (\<lambda>x. x\<lparr>accepted_fd := - 1\<rparr>) (s4\<lparr>os := w5\<rparr>))"
    using s4(1,2) q3(1) by metis
  define s5 where "s5 = upd_stream h (\<lambda>x. x\<lparr>accepted_fd := - 1\<rparr>) (s4\<lparr>os := w5\<rparr>)"
  have s5: "queued_fds (streams s5 h) = queued_fds (streams s h)" "os s5 = w5" "handles s5 = handles s4" "io_watchers s5 = io_watchers s4"
    "accepted_fd (streams s5 h) = - 1"
    using q3 s4(1) by (simp_all add: s5_def)
  have "\<forall>n fds. queued_fds (streams s5 h) = Some (n, fds) \<longrightarrow> (\<forall>fd\<in>set fds. fd > 2)"
    using a(3,4) s5(1) by (auto simp: pending_fds_def fds_ok_def)
  from close_queued_fds [OF this, of K] obtain s6 where s6: "(case queued_fds (streams s5 h) of None \<Rightarrow> Some s5
           | Some (_, fds) \<Rightarrow> do { s \<leftarrow> close_all K fds s5; Some (upd_stream h (\<lambda>x. x\<lparr>queued_fds := None\<rparr>) s) }) = Some s6"
    "live_fds (os s6) = live_fds w5 - (case queued_fds (streams s h) of None \<Rightarrow> {} | Some (n, fds) \<Rightarrow> set fds)"
    "accepted_fd (streams s6 h) = - 1" "handles s6 = handles s5" "io_watchers s6 = io_watchers s5"
    using s5(1,2,5) by metis
  have set: "set (pending_fds h s) = (if accepted_fd (streams s h) = - 1 then {} else {accepted_fd (streams s h)}) \<union>
      (case queued_fds (streams s h) of None \<Rightarrow> {} | Some (n, fds) \<Rightarrow> set fds)"
    using a(3) by (auto simp: pending_fds_def fds_ok_def split: option.splits)
  have ev: "pevents (io_watchers s6 (WHandle h)) AND (POLLIN OR POLLOUT) = 0"
    using no_events [OF s3(1)] s6(5) s5(4) s4(5) by simp
  have "uv__stream_close K h s = Some s6"
    unfolding uv__stream_close_def using s12 go4 go5 s6(1) ev by (simp add: s3_def [symmetric] s4_def [symmetric] s5_def [symmetric])
  moreover have "live_fds (os s6) = live_fds (os s) - owned_fds h s"
    unfolding s6(2) w5 w4 s3(2) owned_fds_def set by (simp only: Un_assoc Diff_Un Diff_Int2 set_diff_eq) blast
  moreover have "uv__stream_fd h s6 = - 1" using s6(5) s5(4) s4(4) by (simp add: uv__stream_fd_def)
  moreover have "\<not> uv__is_active h s6" using s3(3) s6(4) s5(3) s4(3) by (simp add: uv__is_active_def has_flag_def)
  ultimately show ?thesis using s6(3) ev by (intro exI [of _ s6]) (simp add: pending_fds_def)
qed

text \<open>
  C11. Closing a stream closes every descriptor it owns, its own and all accepted ones that nobody took over, and no other; nothing
  of it is left that the loop could watch or count.
\<close>

theorem stream_close_no_leak:
  assumes "closable h s"
  shows "\<exists>s'. uv__stream_close K h s = Some s' \<and> live_fds (os s') = live_fds (os s) - owned_fds h s \<and>
    uv__stream_fd h s' = - 1 \<and> pending_fds h s' = [] \<and> pevents (io_watchers s' (WHandle h)) AND (POLLIN OR POLLOUT) = 0 \<and>
    \<not> uv__is_active h s'"
  using stream_close_ok [OF assms] .

text \<open>A pipe on descriptor 3 that got three descriptors, 5 belongs to someone else.\<close>

definition dup_result :: "int \<Rightarrow> syscall \<times> sysret" where
  "dup_result fd = (SysDup 0, \<lparr>ret = fd, errno = EAGAIN, rdata = [], revents = [], rfds = [], rtime = (0, 0)\<rparr>)"

definition pipe_with_fds :: "bool \<Rightarrow> stream_loop" where
  "pipe_with_fds full =
     upd_stream 2 (\<lambda>x. x\<lparr>accepted_fd := (if full then 7 else - 1), queued_fds := (if full then Some (8, [8, 9]) else None)\<rparr>)
       ((open_stream UV_NAMED_PIPE 2 3)\<lparr>watchers := replicate 4 None, os := fresh_osw\<lparr>sys_trace := map dup_result [3, 5, 7, 8, 9]\<rparr>\<rparr>)"

lemma pipe_with_fds_eqs:
  "streams (pipe_with_fds full) 2 = no_stream\<lparr>accepted_fd := (if full then 7 else - 1), queued_fds := (if full then Some (8, [8, 9]) else None)\<rparr>"
  "uv__stream_fd 2 (pipe_with_fds full) = 3" "watchers (pipe_with_fds full) = replicate 4 None"
  "live_fds (os (pipe_with_fds full)) = {3, 5, 7, 8, 9}"
  "io_watchers (pipe_with_fds full) = io_watchers (open_stream UV_NAMED_PIPE 2 3)" "watcher_queue (pipe_with_fds full) = []"
  "nfds (pipe_with_fds full) = 0"
proof -
  have "uv__stream_fd 2 (open_stream UV_NAMED_PIPE 2 3) = 3" by (simp add: open_stream_eqs)
  then show "uv__stream_fd 2 (pipe_with_fds full) = 3" by (simp add: pipe_with_fds_def uv__stream_fd_def)
  show "live_fds (os (pipe_with_fds full)) = {3, 5, 7, 8, 9}"
    by (auto simp: pipe_with_fds_def live_fds_def dup_result_def fd_effect_def new_fds_def)
qed (simp_all add: pipe_with_fds_def open_stream_eqs)

lemma pipe_with_fds_closable: "closable 2 (pipe_with_fds full)" "stream_io 2 (pipe_with_fds full)"
proof -
  have "registered (pipe_with_fds full) = {}" by (auto simp: registered_def pipe_with_fds_eqs nth_replicate)
  then have i: "io_inv (pipe_with_fds full)"
    by (auto simp: io_inv_def pipe_with_fds_eqs open_stream_eqs nth_replicate)
  show "closable 2 (pipe_with_fds full)"
    using i by (auto simp: closable_def watcher_ok_def fds_ok_def pending_fds_def pipe_with_fds_eqs open_stream_eqs no_stream_def Let_def nth_Cons')
  show "stream_io 2 (pipe_with_fds full)"
    using i by (auto simp: stream_io_def pipe_with_fds_eqs open_stream_eqs Let_def nth_Cons')
qed

theorem stream_close_no_leak_witness:
  "\<forall>K. \<exists>s'. uv__stream_close K 2 (pipe_with_fds True) = Some s' \<and> live_fds (os s') = {5} \<and> pending_fds 2 s' = []"
proof
  fix K
  have o: "owned_fds 2 (pipe_with_fds True) = {3, 7, 8, 9}"
    by (auto simp: owned_fds_def pending_fds_def pipe_with_fds_eqs no_stream_def)
  from stream_close_no_leak [OF pipe_with_fds_closable(1), of K True]
  show "\<exists>s'. uv__stream_close K 2 (pipe_with_fds True) = Some s' \<and> live_fds (os s') = {5} \<and> pending_fds 2 s' = []"
    unfolding o pipe_with_fds_eqs by auto
qed

subsection \<open>Accepting\<close>

text \<open>Receiving descriptors appends them to the queue.\<close>

lemma queue_fd_ok:
  fixes s :: "'a stream_loop_scheme"
  assumes "alloc_ok K" and "fds_ok h s" and "accepted_fd (streams s h) \<noteq> - 1"
  shows "\<exists>s'. uv__stream_queue_fd K h fd s = (0, s') \<and> fds_ok h s' \<and> pending_fds h s' = pending_fds h s @ [fd] \<and>
    accepted_fd (streams s' h) \<noteq> - 1 \<and> handles s' = handles s \<and> io_watchers s' = io_watchers s \<and> stream_io g s' = stream_io g s \<and>
    (\<forall>x. x \<noteq> h \<longrightarrow> streams s' x = streams s x)"
proof -
  have a: "ret m \<noteq> 0 \<and> streams s1 = streams s \<and> handles s1 = handles s \<and> io_watchers s1 = io_watchers s \<and> stream_io g s1 = stream_io g s"
    if "sysl K (SysAlloc n) s = (m, s1)" for n m s1
  proof -
    have "m = K (sys_trace (os s)) (SysAlloc n)" using that by (auto simp: sysl_def sys_def Let_def)
    then have "ret m \<noteq> 0" using assms(1) by (simp only: alloc_ok_def not_False_eq_True)
    then show ?thesis using sysl_stream [OF that] by (simp add: same_streams_def stream_io_def)
  qed
  have io: "stream_io g (upd_stream h f t) = stream_io g t" for f and t :: "'a stream_loop_scheme" by (simp add: stream_io_def)
  show ?thesis
  proof (cases "queued_fds (streams s h)")
    case None
    obtain m s1 where s1: "sysl K (SysAlloc 40) s = (m, s1)" by (cases "sysl K (SysAlloc 40) s")
    then show ?thesis using a [OF s1] None assms(3) by (simp add: uv__stream_queue_fd_def fds_ok_def pending_fds_def io)
  next
    case (Some p)
    obtain n fds where p: "p = (n, fds)" by (cases p)
    have n: "length fds \<le> n" using assms(2) Some p by (simp add: fds_ok_def)
    show ?thesis
    proof (cases "n = length fds")
      case True
      obtain m s1 where s1: "sysl K (SysAlloc ((n + 7) * 4 + 12)) s = (m, s1)" by (cases "sysl K (SysAlloc ((n + 7) * 4 + 12)) s")
      then show ?thesis using a [OF s1] Some p True assms(3) by (simp add: uv__stream_queue_fd_def fds_ok_def pending_fds_def io)
    next
      case False
      then show ?thesis using Some p n assms(3) by (simp add: uv__stream_queue_fd_def fds_ok_def pending_fds_def io)
    qed
  qed
qed

lemma recv_cmsg_ok:
  fixes s :: "'a stream_loop_scheme"
  assumes "alloc_ok K"
  shows "fds_ok h s \<Longrightarrow> - 1 \<notin> set fds \<Longrightarrow>
    \<exists>s'. uv__stream_recv_cmsg K h fds s = Some (0, s') \<and> fds_ok h s' \<and> pending_fds h s' = pending_fds h s @ fds \<and>
      handles s' = handles s \<and> io_watchers s' = io_watchers s \<and> stream_io g s' = stream_io g s \<and> (\<forall>x. x \<noteq> h \<longrightarrow> streams s' x = streams s x)"
proof (induction fds arbitrary: s)
  case (Cons fd fds)
  show ?case
  proof (cases "accepted_fd (streams s h) = - 1")
    case True
    let ?s = "upd_stream h (\<lambda>x. x\<lparr>accepted_fd := fd\<rparr>) s"
    have q: "queued_fds (streams s h) = None" using True Cons.prems(1) by (cases "queued_fds (streams s h)") (auto simp: fds_ok_def)
    have "fds_ok h ?s" "pending_fds h ?s = [fd]" "pending_fds h s = []" "stream_io g ?s = stream_io g s"
      using True q Cons.prems(2) by (simp_all add: fds_ok_def pending_fds_def stream_io_def)
    then show ?thesis using Cons.IH [of ?s] Cons.prems(2) True by auto
  next
    case False
    obtain s1 where s1: "uv__stream_queue_fd K h fd s = (0, s1)" "fds_ok h s1" "pending_fds h s1 = pending_fds h s @ [fd]"
      "handles s1 = handles s" "io_watchers s1 = io_watchers s" "stream_io g s1 = stream_io g s" "\<forall>x. x \<noteq> h \<longrightarrow> streams s1 x = streams s x"
      using queue_fd_ok [OF assms Cons.prems(1) False] by blast
    then show ?thesis using Cons.IH [of s1] Cons.prems(2) False by auto
  qed
qed simp

text \<open>A client handle that \<^verbatim>\<open>uv_accept\<close> can open: initialised, without a descriptor and without socket options to set.\<close>

definition fresh_client :: "hid \<Rightarrow> 'a stream_loop_scheme \<Rightarrow> bool" where
  "fresh_client c s \<longleftrightarrow> htype (handles s c) \<in> {UV_TCP, UV_NAMED_PIPE} \<and> uv__stream_fd c s = - 1 \<and>
     \<not> has_flag UV_HANDLE_TCP_NODELAY c s \<and> \<not> has_flag UV_HANDLE_TCP_KEEPALIVE c s"

lemma set_fd_io_inv:
  assumes "io_inv s" and "uv__stream_fd c s = - 1"
  shows "io_inv (set_stream_fd c fd s)"
proof -
  note i = io_invD [OF assms(1)]
  have "WHandle c \<noteq> w" if "n < length (watchers s)" "watchers s ! n = Some w" for n w
    using i(3) [OF that] assms(2) by (auto simp: uv__stream_fd_def)
  moreover have "WHandle c \<notin> set (watcher_queue s)" "ioevents (io_watchers s (WHandle c)) = 0"
    using i(5) [of "WHandle c"] assms(2) by (auto simp: uv__stream_fd_def)
  ultimately show ?thesis
    using assms(1) unfolding io_inv_def set_stream_fd_def by (auto simp: registered_def upd_io_def)
qed

lemma flag_after:
  "has_flag f c (set_flag g c s) \<longleftrightarrow> has_flag f c s \<or> f AND g \<noteq> 0"
  "d \<noteq> c \<Longrightarrow> has_flag f d (set_flag g c s) = has_flag f d s"
proof -
  have "(x OR g) AND f = (x AND f) OR (f AND g)" for x :: u32 by (rule bit_word_eqI) (auto simp: bit_simps)
  moreover have "p OR q = 0 \<longleftrightarrow> p = 0 \<and> q = 0" for p q :: u32 by (rule or_eq_0_iff)
  ultimately show "has_flag f c (set_flag g c s) \<longleftrightarrow> has_flag f c s \<or> f AND g \<noteq> 0"
    by (simp add: has_flag_def set_flag_def upd_handle_def)
  show "d \<noteq> c \<Longrightarrow> has_flag f d (set_flag g c s) = has_flag f d s"
    by (simp add: has_flag_def set_flag_def upd_handle_def)
qed

lemma stream_open_ok:
  assumes "fresh_client c s" and "fd \<ge> 0"
  shows "uv__stream_open K c fd (UV_HANDLE_READABLE OR UV_HANDLE_WRITABLE) s =
    Some (0, set_stream_fd c fd (set_flag (UV_HANDLE_READABLE OR UV_HANDLE_WRITABLE) c s))"
proof -
  let ?s = "set_flag (UV_HANDLE_READABLE OR UV_HANDLE_WRITABLE) c s"
  have "\<not> has_flag UV_HANDLE_TCP_NODELAY c ?s" "\<not> has_flag UV_HANDLE_TCP_KEEPALIVE c ?s"
    using assms(1) unfolding flag_after fresh_client_def
    by (simp_all add: UV_HANDLE_TCP_NODELAY_def UV_HANDLE_TCP_KEEPALIVE_def UV_HANDLE_READABLE_def UV_HANDLE_WRITABLE_def)
  then show ?thesis using assms by (simp add: uv__stream_open_def fresh_client_def Let_def)
qed

text \<open>What \<^verbatim>\<open>uv_accept\<close> leaves of the client before it turns to the server.\<close>

definition opened :: "hid \<Rightarrow> int \<Rightarrow> 'a stream_loop_scheme \<Rightarrow> 'a stream_loop_scheme" where
  "opened c fd s =
     set_flag UV_HANDLE_BOUND c (set_stream_fd c fd (set_flag (UV_HANDLE_READABLE OR UV_HANDLE_WRITABLE) c s))"

lemma opened_simps:
  "streams (opened c fd s) = streams s" "os (opened c fd s) = os s" "uv__stream_fd c (opened c fd s) = fd"
  "htype (handles (opened c fd s) d) = htype (handles s d)" "watchers (opened c fd s) = watchers s"
  "d \<noteq> c \<Longrightarrow> io_watchers (opened c fd s) (WHandle d) = io_watchers s (WHandle d)"
  "d \<noteq> c \<Longrightarrow> handles (opened c fd s) d = handles s d"
  by (simp_all add: opened_def set_flag_def upd_handle_def set_stream_fd_def upd_io_def uv__stream_fd_def)

lemma opened_flags:
  fixes s :: "'a stream_loop_scheme"
  shows "has_flag f c (opened c fd s) \<longleftrightarrow> has_flag f c s \<or> f AND (UV_HANDLE_READABLE OR UV_HANDLE_WRITABLE) \<noteq> 0 \<or> f AND UV_HANDLE_BOUND \<noteq> 0"
proof -
  have "has_flag f c (set_stream_fd c fd t) = has_flag f c t" for t :: "'a stream_loop_scheme"
    by (simp add: has_flag_def set_stream_fd_def upd_io_def)
  then show ?thesis by (auto simp: opened_def flag_after)
qed

lemma opened_io:
  assumes "stream_io h s" and "c \<noteq> h" and "uv__stream_fd c s = - 1"
  shows "stream_io h (opened c fd s)"
proof -
  have "io_inv (set_stream_fd c fd s)" using assms by (auto simp: stream_io_def intro: set_fd_io_inv)
  then have "io_inv (opened c fd s)"
    by (rule io_inv_cong) (simp_all add: opened_def set_flag_def upd_handle_def set_stream_fd_def upd_io_def)
  then show ?thesis
    using assms(1,2) by (simp add: stream_io_def opened_simps)
qed

lemma io_start_in:
  fixes s :: "'a stream_loop_scheme"
  assumes "stream_io h s" and "alloc_ok K"
  shows "\<exists>s'. uv__io_start K (WHandle h) POLLIN s = Some s' \<and> stream_io h s' \<and> streams s' = streams s \<and> handles s' = handles s \<and>
    live_fds (os s') = live_fds (os s) \<and> (\<forall>c. uv__stream_fd c s' = uv__stream_fd c s)"
proof -
  obtain s' where s': "uv__io_start K (WHandle h) POLLIN s = Some s'" "stream_io h s'"
    using io_start_stream [OF assms poll_masks(1,3)] by blast
  note f = io_start_frames [OF s'(1)]
  have "streams s' = streams s" using f(1) by (simp add: same_streams_def)
  moreover have "uv__stream_fd c s' = uv__stream_fd c s" for c using f(4) by (simp add: uv__stream_fd_def)
  ultimately show ?thesis using s' f(3,5) by blast
qed

text \<open>One call: the client gets the descriptor that waits longest.\<close>

lemma accept_one:
  fixes s :: "'a stream_loop_scheme"
  assumes "alloc_ok K" and "stream_io srv s" and "fds_ok srv s" and "pending_fds srv s = fd # fds" and "- 1 \<notin> set fds" and "fd \<ge> 0"
    and "fresh_client c s" and "c \<noteq> srv"
  shows "\<exists>s'. uv_accept K u srv c s = Some (0, s') \<and> stream_io srv s' \<and> fds_ok srv s' \<and> pending_fds srv s' = fds \<and>
    live_fds (os s') = live_fds (os s) \<and> uv__stream_fd c s' = fd \<and>
    has_flag UV_HANDLE_READABLE c s' \<and> has_flag UV_HANDLE_WRITABLE c s' \<and> has_flag UV_HANDLE_BOUND c s' \<and>
    (\<forall>d. d \<noteq> c \<longrightarrow> handles s' d = handles s d \<and> uv__stream_fd d s' = uv__stream_fd d s)"
proof -
  let ?o = "opened c fd s"
  have fd: "accepted_fd (streams s srv) = fd" "fd \<noteq> - 1" "fds = (case queued_fds (streams s srv) of None \<Rightarrow> [] | Some (n, q) \<Rightarrow> q)"
    using assms(4) by (simp_all add: pending_fds_def split: if_splits)
  have t: "htype (handles s c) = UV_TCP \<or> htype (handles s c) = UV_NAMED_PIPE" "uv__stream_fd c s = - 1"
    using assms(7) by (auto simp: fresh_client_def)
  have go: "uv_accept K u srv c s = map_option (Pair 0) (accept_next K srv 0 ?o)"
    using t fd stream_open_ok [OF assms(7,6)] unfolding uv_accept_def opened_def
    by (auto simp: map_option_case split: option.splits)
  have io: "stream_io srv ?o" using opened_io [OF assms(2,8) t(2)] .
  have fl: "has_flag UV_HANDLE_READABLE c ?o" "has_flag UV_HANDLE_WRITABLE c ?o" "has_flag UV_HANDLE_BOUND c ?o"
    by (simp_all add: opened_flags UV_HANDLE_READABLE_def UV_HANDLE_WRITABLE_def UV_HANDLE_BOUND_def)
  have oth: "\<forall>d. d \<noteq> c \<longrightarrow> handles ?o d = handles s d \<and> uv__stream_fd d ?o = uv__stream_fd d s"
    by (simp add: opened_simps uv__stream_fd_def)
  show ?thesis
  proof (cases "queued_fds (streams s srv)")
    case None
    let ?s = "upd_stream srv (\<lambda>x. x\<lparr>accepted_fd := - 1\<rparr>) ?o"
    have "stream_io srv ?s" using io by (simp add: stream_io_def)
    then obtain s' where s': "uv__io_start K (WHandle srv) POLLIN ?s = Some s'" "stream_io srv s'" "streams s' = streams ?s" "handles s' = handles ?s"
      "live_fds (os s') = live_fds (os ?s)" "\<forall>c. uv__stream_fd c s' = uv__stream_fd c ?s"
      using io_start_in [OF _ assms(1)] by blast
    have "has_flag f c s' = has_flag f c ?o" for f using s'(4) by (simp add: has_flag_def)
    then show ?thesis using go None s' fd(3) fl oth
      by (simp add: accept_next_def opened_simps fds_ok_def pending_fds_def uv__stream_fd_def [of _ ?s]) (simp add: uv__stream_fd_def opened_simps(3) [unfolded uv__stream_fd_def])
  next
    case (Some p)
    obtain n where p: "p = (n, fds)" using Some fd(3) by (cases p) simp
    have ne: "fds \<noteq> []" "length fds \<le> n" using assms(3) Some p by (auto simp: fds_ok_def)
    obtain x q where q: "fds = x # q" using ne(1) by (cases fds) auto
    let ?s = "upd_stream srv (\<lambda>y. y\<lparr>accepted_fd := x, queued_fds := (if q = [] then None else Some (n, q))\<rparr>) ?o"
    have "accept_next K srv 0 ?o = Some ?s" using Some p q by (simp add: accept_next_def opened_simps)
    moreover have "stream_io srv ?s" using io by (simp add: stream_io_def)
    moreover have "fds_ok srv ?s" "pending_fds srv ?s = fds" using ne q assms(5) by (auto simp: fds_ok_def pending_fds_def)
    moreover have "has_flag f c ?s = has_flag f c ?o" "uv__stream_fd d ?s = uv__stream_fd d ?o" for f d by (simp_all add: has_flag_def uv__stream_fd_def)
    ultimately show ?thesis using go fl oth by (simp add: opened_simps)
  qed
qed

fun accept_all ::
  "kernel \<Rightarrow> (hid \<Rightarrow> int \<Rightarrow> 'a stream_loop_scheme \<Rightarrow> (int \<times> 'a stream_loop_scheme) option) \<Rightarrow> hid \<Rightarrow> hid list \<Rightarrow>
    'a stream_loop_scheme \<Rightarrow> (int list \<times> 'a stream_loop_scheme) option" where
  "accept_all K u srv [] s = Some ([], s)"
| "accept_all K u srv (c # cs) s = do {
     (rc, s) \<leftarrow> uv_accept K u srv c s;
     (rcs, s) \<leftarrow> accept_all K u srv cs s;
     Some (rc # rcs, s)
   }"

lemma accept_all_ok:
  fixes s :: "'a stream_loop_scheme"
  assumes "alloc_ok K"
  shows "stream_io srv s \<Longrightarrow> fds_ok srv s \<Longrightarrow> \<forall>fd\<in>set (pending_fds srv s). fd \<ge> 0 \<Longrightarrow> length cs \<le> length (pending_fds srv s) \<Longrightarrow>
    distinct cs \<Longrightarrow> srv \<notin> set cs \<Longrightarrow> \<forall>c\<in>set cs. fresh_client c s \<Longrightarrow>
    \<exists>s'. accept_all K u srv cs s = Some (replicate (length cs) 0, s') \<and>
      map (\<lambda>c. uv__stream_fd c s') cs = take (length cs) (pending_fds srv s) \<and>
      pending_fds srv s' = drop (length cs) (pending_fds srv s) \<and> live_fds (os s') = live_fds (os s) \<and>
      (\<forall>c\<in>set cs. has_flag UV_HANDLE_READABLE c s' \<and> has_flag UV_HANDLE_WRITABLE c s' \<and> has_flag UV_HANDLE_BOUND c s') \<and>
      (\<forall>d. d \<notin> set cs \<longrightarrow> handles s' d = handles s d \<and> uv__stream_fd d s' = uv__stream_fd d s)"
proof (induction cs arbitrary: s)
  case (Cons c cs)
  obtain fd fds where p: "pending_fds srv s = fd # fds" using Cons.prems(4) by (cases "pending_fds srv s") auto
  have fr: "fresh_client c s" "c \<noteq> srv" "fd \<ge> 0" "- 1 \<notin> set fds" using Cons.prems(3,6,7) p by auto
  obtain s1 where s1: "uv_accept K u srv c s = Some (0, s1)" "stream_io srv s1" "fds_ok srv s1" "pending_fds srv s1 = fds"
    "live_fds (os s1) = live_fds (os s)" "uv__stream_fd c s1 = fd"
    "has_flag UV_HANDLE_READABLE c s1" "has_flag UV_HANDLE_WRITABLE c s1" "has_flag UV_HANDLE_BOUND c s1"
    "\<forall>d. d \<noteq> c \<longrightarrow> handles s1 d = handles s d \<and> uv__stream_fd d s1 = uv__stream_fd d s"
    using accept_one [OF assms Cons.prems(1,2) p fr(4,3,1,2)] by blast
  have "fresh_client d s1" if "d \<in> set cs" for d
  proof -
    have "d \<noteq> c" "fresh_client d s" using that Cons.prems(5,7) by auto
    then show ?thesis using s1(10) by (simp add: fresh_client_def has_flag_def)
  qed
  then obtain s' where s': "accept_all K u srv cs s1 = Some (replicate (length cs) 0, s')"
    "map (\<lambda>c. uv__stream_fd c s') cs = take (length cs) fds" "pending_fds srv s' = drop (length cs) fds" "live_fds (os s') = live_fds (os s1)"
    "\<forall>c\<in>set cs. has_flag UV_HANDLE_READABLE c s' \<and> has_flag UV_HANDLE_WRITABLE c s' \<and> has_flag UV_HANDLE_BOUND c s'"
    "\<forall>d. d \<notin> set cs \<longrightarrow> handles s' d = handles s1 d \<and> uv__stream_fd d s' = uv__stream_fd d s1"
    using Cons.IH [OF s1(2,3)] Cons.prems(3-6) s1(4) p by auto
  have c: "c \<notin> set cs" using Cons.prems(5) by simp
  then have "has_flag f c s' = has_flag f c s1" for f using s'(6) by (simp add: has_flag_def)
  then show ?case using s1 s' c p by (intro exI [of _ s']) auto
qed simp

text \<open>
  C13. Clients get the waiting descriptors in the order they arrived, each exactly one: accepting with a list of fresh clients
  hands the first descriptors out, the others go on waiting, none is closed or lost, and the clients can be read and written.
\<close>

theorem accept_in_order:
  fixes s :: "'a stream_loop_scheme"
  assumes "alloc_ok K" and "stream_io srv s" and "fds_ok srv s" and "\<forall>fd\<in>set (pending_fds srv s). fd \<ge> 0"
    and "length cs \<le> length (pending_fds srv s)" and "distinct cs" and "srv \<notin> set cs" and "\<forall>c\<in>set cs. fresh_client c s"
  shows "\<exists>s'. accept_all K u srv cs s = Some (replicate (length cs) 0, s') \<and>
    map (\<lambda>c. uv__stream_fd c s') cs = take (length cs) (pending_fds srv s) \<and>
    pending_fds srv s' = drop (length cs) (pending_fds srv s) \<and> live_fds (os s') = live_fds (os s) \<and>
    (\<forall>c\<in>set cs. has_flag UV_HANDLE_READABLE c s' \<and> has_flag UV_HANDLE_WRITABLE c s' \<and> has_flag UV_HANDLE_BOUND c s')"
  using accept_all_ok [OF assms] by blast

text \<open>Three descriptors wait on the pipe, two clients accept.\<close>

definition two_clients :: stream_loop where
  "two_clients = (let s = pipe_with_fds True in
     s\<lparr>handles := (handles s)(3 := (handles s 3)\<lparr>htype := UV_TCP, hflags := 0\<rparr>, 4 := (handles s 4)\<lparr>htype := UV_NAMED_PIPE, hflags := 0\<rparr>),
       io_watchers := (io_watchers s)(WHandle 3 := (io_watchers s (WHandle 3))\<lparr>iofd := - 1\<rparr>,
         WHandle 4 := (io_watchers s (WHandle 4))\<lparr>iofd := - 1\<rparr>)\<rparr>)"

lemma two_clients_ok:
  "stream_io 2 two_clients" "fds_ok 2 two_clients" "pending_fds 2 two_clients = [7, 8, 9]"
  "fresh_client 3 two_clients" "fresh_client 4 two_clients" "live_fds (os two_clients) = {3, 5, 7, 8, 9}"
proof -
  have i: "io_inv (pipe_with_fds True)" using pipe_with_fds_closable(2) [of True] by (simp add: stream_io_def)
  have n: "watchers (pipe_with_fds True) ! n = None" "replicate 4 None ! n = (None :: wid option)" if "n < 4" for n
    using that by (simp_all add: pipe_with_fds_eqs nth_replicate)
  have "\<not> (w \<in> set (watcher_queue two_clients) \<or> ioevents (io_watchers two_clients w) \<noteq> 0)" for w
  proof -
    have "\<not> (w \<in> set (watcher_queue (pipe_with_fds True)) \<or> ioevents (io_watchers (pipe_with_fds True) w) \<noteq> 0)"
    proof
      assume "w \<in> set (watcher_queue (pipe_with_fds True)) \<or> ioevents (io_watchers (pipe_with_fds True) w) \<noteq> 0"
      from io_invD(5) [OF i this] obtain fd where "fd < length (watchers (pipe_with_fds True))" "watchers (pipe_with_fds True) ! fd = Some w" by blast
      then show False using n(1) [of fd] by (simp add: pipe_with_fds_eqs(3))
    qed
    then show ?thesis by (auto simp: two_clients_def Let_def)
  qed
  moreover have "watchers two_clients = watchers (pipe_with_fds True)" "watcher_queue two_clients = []" "nfds two_clients = 0"
    by (simp_all add: two_clients_def Let_def pipe_with_fds_eqs)
  ultimately have "io_inv two_clients"
    using i n by (simp add: io_inv_def registered_def pipe_with_fds_eqs)
  moreover have "io_watchers two_clients (WHandle 2) = io_watchers (pipe_with_fds True) (WHandle 2)"
    by (simp add: two_clients_def Let_def)
  moreover have "watchers two_clients = watchers (pipe_with_fds True)" by (simp add: two_clients_def Let_def)
  ultimately show "stream_io 2 two_clients"
    using pipe_with_fds_closable(2) [of True] by (simp add: stream_io_def)
  show "fds_ok 2 two_clients" "pending_fds 2 two_clients = [7, 8, 9]" "live_fds (os two_clients) = {3, 5, 7, 8, 9}"
    using pipe_with_fds_eqs(1,4) [of True] by (simp_all add: two_clients_def Let_def fds_ok_def pending_fds_def no_stream_def)
  show "fresh_client 3 two_clients" "fresh_client 4 two_clients"
    by (simp_all add: fresh_client_def two_clients_def Let_def uv__stream_fd_def has_flag_def)
qed

theorem accept_in_order_witness:
  "\<forall>u. \<exists>s'. accept_all slow_kernel u 2 [4, 3] two_clients = Some ([0, 0], s') \<and> uv__stream_fd 4 s' = 7 \<and> uv__stream_fd 3 s' = 8 \<and>
     pending_fds 2 s' = [9] \<and> live_fds (os s') = {3, 5, 7, 8, 9}"
proof
  fix u
  have "alloc_ok slow_kernel" using slow_kernel_writes by (simp add: kernel_writes_def)
  from accept_in_order [OF this two_clients_ok(1,2), of "[4, 3]" u]
  show "\<exists>s'. accept_all slow_kernel u 2 [4, 3] two_clients = Some ([0, 0], s') \<and> uv__stream_fd 4 s' = 7 \<and> uv__stream_fd 3 s' = 8 \<and>
     pending_fds 2 s' = [9] \<and> live_fds (os s') = {3, 5, 7, 8, 9}"
    by (simp add: two_clients_ok del: accept_all.simps) auto
qed

subsection \<open>Reading\<close>

text \<open>The bytes that reading calls on a descriptor have returned, how many such calls there were, and the bytes callbacks of a stream got.\<close>

definition received_by :: "int \<Rightarrow> syscall \<times> sysret \<Rightarrow> u8 list" where
  "received_by fd x = (case fst x of SysRead d n \<Rightarrow> if d = fd then take (nat (ret (snd x))) (rdata (snd x)) else [] | _ \<Rightarrow> [])"

definition received :: "int \<Rightarrow> 'a io_loop_scheme \<Rightarrow> u8 list" where
  "received fd s = concat (map (received_by fd) (sys_trace (os s)))"

definition is_read :: "int \<Rightarrow> syscall \<times> sysret \<Rightarrow> bool" where
  "is_read fd x \<longleftrightarrow> (case fst x of SysRead d n \<Rightarrow> d = fd | _ \<Rightarrow> False)"

definition reads_of :: "int \<Rightarrow> 'a io_loop_scheme \<Rightarrow> nat" where
  "reads_of fd s = length (filter (is_read fd) (sys_trace (os s)))"

text \<open>\<open>quiet\<close>: the loop has done something that neither reads from the stream's descriptor nor calls back.\<close>

definition quiet :: "hid \<Rightarrow> 'a stream_loop_scheme \<Rightarrow> 'a stream_loop_scheme \<Rightarrow> bool" where
  "quiet h s s' \<longleftrightarrow> stream_io h s' \<and> streams s' = streams s \<and> uv__stream_fd h s' = uv__stream_fd h s \<and>
     (\<forall>fd. received fd s' = received fd s \<and> reads_of fd s' = reads_of fd s)"

lemma quiet_trans: "quiet h s s' \<Longrightarrow> quiet h s' s'' \<Longrightarrow> quiet h s s''"
  by (simp add: quiet_def)

lemma quiet_same:
  assumes "stream_io h s" and "io_watchers s' = io_watchers s" and "watchers s' = watchers s" and "io_inv s'" and "os s' = os s"
    and "streams s' = streams s"
  shows "quiet h s s'"
  using stream_io_cong [OF assms(1,4,3,2)] assms(2,5,6) by (simp add: quiet_def uv__stream_fd_def received_def reads_of_def)

lemma quiet_flags: "stream_io h s \<Longrightarrow> quiet h s (set_flag f h s)" "stream_io h s \<Longrightarrow> quiet h s (clear_flag f h s)"
  by (rule quiet_same; simp add: set_flag_def clear_flag_def upd_handle_def; auto simp: stream_io_def intro: io_inv_cong)+

lemma quiet_untouched: "stream_io h s \<Longrightarrow> untouched s s' \<Longrightarrow> quiet h s s'"
  by (rule quiet_same; simp add: untouched_def; auto simp: stream_io_def intro: io_inv_cong)

lemma alloc_only:
  assumes "uv__io_start K w ev s = Some s'"
  shows "received fd s' = received fd s" "reads_of fd s' = reads_of fd s"
proof -
  let ?s = "upd_io w (\<lambda>x. x\<lparr>pevents := pevents x OR ev\<rparr>) s"
  obtain s1 where s1: "maybe_resize K (word_of_int (iofd (io_watchers s w)) + 1) ?s = Some s1" "os s' = os s1"
    using assms by (cases "maybe_resize K (word_of_int (iofd (io_watchers s w)) + 1) ?s")
      (auto simp: uv__io_start_def io_enter_def io_queue_watcher_def Let_def split: if_splits)
  have "\<exists>xs. sys_trace (os s1) = sys_trace (os s) @ xs \<and> (\<forall>x\<in>set xs. \<exists>n. fst x = SysAlloc n)"
    using s1(1) by (auto simp: maybe_resize_def sysl_def sys_def Let_def upd_io_def split: if_splits prod.splits)
  then obtain xs where xs: "sys_trace (os s1) = sys_trace (os s) @ xs" "\<forall>x\<in>set xs. \<exists>n. fst x = SysAlloc n" by blast
  have "received_by fd x = []" "\<not> is_read fd x" if "x \<in> set xs" for x
    using xs(2) that by (auto simp: received_by_def is_read_def)
  then have "concat (map (received_by fd) xs) = []" "filter (is_read fd) xs = []" by (auto simp: filter_empty_conv)
  then show "received fd s' = received fd s" "reads_of fd s' = reads_of fd s"
    using s1(2) xs(1) by (simp_all add: received_def reads_of_def)
qed

lemma quiet_start:
  assumes "stream_io h s" and "alloc_ok K"
  shows "\<exists>s'. uv__io_start K (WHandle h) POLLIN s = Some s' \<and> quiet h s s' \<and> io_trace s' = io_trace s"
proof -
  obtain s' where s': "uv__io_start K (WHandle h) POLLIN s = Some s'" "stream_io h s'"
    using io_start_stream [OF assms poll_masks(1,3)] by blast
  then show ?thesis using io_start_frames(1,4) [OF s'(1)] alloc_only [OF s'(1)]
    by (auto simp: quiet_def same_streams_def uv__stream_fd_def)
qed

lemma quiet_stop_reading:
  assumes "stream_io h s"
  shows "\<exists>s'. stop_reading h s = Some s' \<and> quiet h s s' \<and> io_trace s' = io_trace s"
proof -
  obtain s1 where s1: "uv__io_stop (WHandle h) POLLIN s = Some s1" "stream_io h s1"
    using io_stop_stream [OF assms poll_masks(1,3)] by blast
  note f = io_stop_frames [OF s1(1)]
  have q1: "quiet h s s1" using s1(2) f(1,2,4) by (simp add: quiet_def same_streams_def uv__stream_fd_def received_def reads_of_def)
  note g = handle_stop_frames [where h = h and s = s1]
  have "io_inv (uv__handle_stop h s1)" using g(5) s1(2) by (simp add: stream_io_def)
  then have "quiet h s1 (uv__handle_stop h s1)" using quiet_same [OF s1(2) g(2,3) _ g(4)] g(1) by (simp add: same_streams_def)
  then show ?thesis using s1(1) q1 f(1) g(1) quiet_trans [OF q1]
    by (auto simp: stop_reading_def same_streams_def)
qed

lemma quiet_call:
  assumes "stream_io h s" and "calm_client (str_acb E)" and "read_cb (streams s h) = Some c"
  shows "\<exists>s'. call_read E h n d s = Some s' \<and> quiet h s s' \<and> io_trace s' = io_trace s @ [(c, h, [n], d)]"
proof -
  let ?s = "s\<lparr>io_trace := io_trace s @ [(c, h, [n], d)]\<rparr>"
  obtain s' where s': "invoke_args (str_acb E) c h [n] d s = Some s'" "untouched ?s s'" using calm_call [OF assms(2)] by blast
  have "io_inv s" using assms(1) by (simp add: stream_io_def)
  then have "io_inv s'" by (rule io_inv_cong) (use s'(2) in \<open>simp_all add: untouched_def\<close>)
  then have "quiet h s s'" by (rule quiet_same [OF assms(1), rotated 2]) (use s'(2) in \<open>simp_all add: untouched_def\<close>)
  then show ?thesis using s' assms(3) by (simp add: call_read_def untouched_def)
qed

text \<open>An allocator that gives a buffer, or none, and does nothing else.\<close>

definition calm_alloc :: "'a stream_loop_scheme alloc_client \<Rightarrow> bool" where
  "calm_alloc f \<longleftrightarrow> (\<forall>c h n s. \<exists>len s'. f c h n s = Some (len, s') \<and> untouched s s')"

definition calm_env :: "'a stream_loop_scheme stream_env \<Rightarrow> bool" where
  "calm_env E \<longleftrightarrow> calm_client (str_acb E) \<and> calm_alloc (str_alloc E) \<and> prompt (str_kernel E) \<and> alloc_ok (str_kernel E)"

lemma quiet_read:
  fixes s :: "'a stream_loop_scheme"
  assumes "stream_io h s" and "sysl K (SysRead (uv__stream_fd h s) len) s = (r, s')"
  shows "stream_io h s'" "streams s' = streams s" "uv__stream_fd h s' = uv__stream_fd h s" "io_trace s' = io_trace s"
    "received (uv__stream_fd h s) s' = received (uv__stream_fd h s) s @ take (nat (ret r)) (rdata r)"
    "reads_of (uv__stream_fd h s) s' = reads_of (uv__stream_fd h s) s + 1"
proof -
  note f = sysl_stream [OF assms(2)]
  show "stream_io h s'" "streams s' = streams s" "uv__stream_fd h s' = uv__stream_fd h s" "io_trace s' = io_trace s"
    using f assms(1) by (simp_all add: same_streams_def uv__stream_fd_def)
  have "sys_trace (os s') = sys_trace (os s) @ [(SysRead (uv__stream_fd h s) len, r)]"
    using assms(2) by (auto simp: sysl_def sys_def Let_def)
  then show "received (uv__stream_fd h s) s' = received (uv__stream_fd h s) s @ take (nat (ret r)) (rdata r)"
    "reads_of (uv__stream_fd h s) s' = reads_of (uv__stream_fd h s) s + 1"
    by (simp_all add: received_def reads_of_def received_by_def is_read_def)
qed

lemma read_failed_ok:
  assumes "stream_io h s" and "calm_env E" and "read_cb (streams s h) = Some c"
  shows "\<exists>s' n. read_failed E h e s = Some s' \<and> quiet h s s' \<and> io_trace s' = io_trace s @ [(c, h, [n], [])]"
proof (cases "e = EAGAIN")
  case True
  have "\<exists>s1. (if has_flag UV_HANDLE_READING h s then uv__io_start (str_kernel E) (WHandle h) POLLIN s else Some s) = Some s1 \<and>
      quiet h s s1 \<and> io_trace s1 = io_trace s"
    using quiet_start [OF assms(1), of "str_kernel E"] assms(1,2) by (auto simp: calm_env_def quiet_def)
  then obtain s1 where s1: "(if has_flag UV_HANDLE_READING h s then uv__io_start (str_kernel E) (WHandle h) POLLIN s else Some s) = Some s1"
    "quiet h s s1" "io_trace s1 = io_trace s" by blast
  have "stream_io h s1" "read_cb (streams s1 h) = Some c" using s1(2) assms(3) by (simp_all add: quiet_def)
  then obtain s2 where "call_read E h 0 [] s1 = Some s2" "quiet h s1 s2" "io_trace s2 = io_trace s1 @ [(c, h, [0], [])]"
    using quiet_call assms(2) unfolding calm_env_def by blast
  then show ?thesis using True s1 quiet_trans by (auto simp: read_failed_def)
next
  case False
  obtain s1 where s1: "call_read E h (- e) [] s = Some s1" "quiet h s s1" "io_trace s1 = io_trace s @ [(c, h, [- e], [])]"
    using quiet_call [OF assms(1) _ assms(3)] assms(2) unfolding calm_env_def by blast
  have i: "stream_io h s1" using s1(2) by (simp add: quiet_def)
  have q: "quiet h s1 (clear_flag UV_HANDLE_READING h s1)" using quiet_flags(2) [OF i] .
  then obtain s2 where "stop_reading h (clear_flag UV_HANDLE_READING h s1) = Some s2" "quiet h (clear_flag UV_HANDLE_READING h s1) s2"
    "io_trace s2 = io_trace (clear_flag UV_HANDLE_READING h s1)"
    using quiet_stop_reading [of h "clear_flag UV_HANDLE_READING h s1"] by (auto simp: quiet_def)
  then show ?thesis using False s1 quiet_trans [OF s1(2) quiet_trans [OF q]]
    by (auto simp: read_failed_def clear_flag_def upd_handle_def)
qed

lemma stream_eof_ok:
  assumes "stream_io h s" and "calm_env E" and "read_cb (streams s h) = Some c"
  shows "\<exists>s'. uv__stream_eof E h s = Some s' \<and> quiet h s s' \<and> io_trace s' = io_trace s @ [(c, h, [UV_EOF], [])]"
proof -
  have q: "quiet h s (set_flag UV_HANDLE_READ_EOF h s)" using quiet_flags(1) [OF assms(1)] .
  then obtain s1 where s1: "stop_reading h (set_flag UV_HANDLE_READ_EOF h s) = Some s1" "quiet h (set_flag UV_HANDLE_READ_EOF h s) s1"
    "io_trace s1 = io_trace (set_flag UV_HANDLE_READ_EOF h s)"
    using quiet_stop_reading [of h "set_flag UV_HANDLE_READ_EOF h s"] by (auto simp: quiet_def)
  have q1: "quiet h s s1" using quiet_trans [OF q s1(2)] .
  then have "stream_io h s1" "read_cb (streams s1 h) = Some c" using assms(3) by (simp_all add: quiet_def)
  then obtain s2 where s2: "call_read E h UV_EOF [] s1 = Some s2" "quiet h s1 s2" "io_trace s2 = io_trace s1 @ [(c, h, [UV_EOF], [])]"
    using quiet_call assms(2) unfolding calm_env_def by blast
  have "stream_io h s2" using s2(2) by (simp add: quiet_def)
  then have "quiet h s2 (clear_flag UV_HANDLE_READING h s2)" by (rule quiet_flags(2))
  then have "quiet h s (clear_flag UV_HANDLE_READING h s2)" using quiet_trans [OF quiet_trans [OF q1 s2(2)]] by blast
  then show ?thesis using s1 s2 by (simp add: uv__stream_eof_def clear_flag_def set_flag_def upd_handle_def)
qed

text \<open>One round: one callback, at most one reading call, and the callback gets what the call returned.\<close>

lemma read_round_ok:
  assumes "stream_io h s" and "calm_env E" and "read_cb (streams s h) = Some c" and "alloc_cb (streams s h) \<noteq> None"
  shows "\<exists>go s' n d. read_round E False h s = Some (go, s') \<and> stream_io h s' \<and> streams s' = streams s \<and> uv__stream_fd h s' = uv__stream_fd h s \<and>
    io_trace s' = io_trace s @ [(c, h, [n], d)] \<and> received (uv__stream_fd h s) s' = received (uv__stream_fd h s) s @ d \<and>
    reads_of (uv__stream_fd h s) s' \<le> reads_of (uv__stream_fd h s) s + 1"
proof -
  let ?fd = "uv__stream_fd h s"
  let ?K = "str_kernel E"
  have env: "calm_client (str_acb E)" "prompt ?K" using assms(2) by (simp_all add: calm_env_def)
  obtain a where a: "alloc_cb (streams s h) = Some a" using assms(4) by blast
  obtain len s1 where s1: "str_alloc E a h 65536 s = Some (len, s1)" "untouched s s1"
    using assms(2) unfolding calm_env_def calm_alloc_def by blast
  have q1: "quiet h s s1" "io_trace s1 = io_trace s" using quiet_untouched [OF assms(1) s1(2)] s1(2) by (simp_all add: untouched_def)
  have i1: "stream_io h s1" "read_cb (streams s1 h) = Some c" "uv__stream_fd h s1 = ?fd" using q1(1) assms(3) by (simp_all add: quiet_def)
  show ?thesis
  proof (cases "len = 0")
    case True
    obtain s2 where "call_read E h UV_ENOBUFS [] s1 = Some s2" "quiet h s1 s2" "io_trace s2 = io_trace s1 @ [(c, h, [UV_ENOBUFS], [])]"
      using quiet_call [OF i1(1) env(1) i1(2)] by blast
    then show ?thesis using True a s1(1) q1
      by (intro exI [of _ False] exI [of _ s2] exI [of _ UV_ENOBUFS] exI [of _ "[]"]) (simp add: read_round_def quiet_def)
  next
    case False
    obtain r s2 where s2: "sysl ?K (SysRead (uv__stream_fd h s1) len) s1 = (r, s2)" by (cases "sysl ?K (SysRead (uv__stream_fd h s1) len) s1")
    note f = quiet_read [OF i1(1) s2]
    have rc: "read_cb (streams s2 h) = Some c" using f(2) i1(2) by simp
    have fd: "?fd \<ge> 0" using stream_ioD(2) [OF assms(1)] by (simp add: uv__stream_fd_def)
    have "read_some ?K False ?fd len = retry ?K (SysRead ?fd len)" by (simp add: read_some_def fun_eq_iff)
    then have rd: "lift_os (read_some ?K False ?fd len) s1 = Some (r, s2)" using s2 i1(3) by (simp add: lift_retry [OF env(2)])
    have go: "read_round E False h s =
      (if ret r < 0 then do { s \<leftarrow> read_failed E h (errno r) s2; Some (False, s) }
       else if ret r = 0 then do { s \<leftarrow> uv__stream_eof E h s2; Some (False, s) }
       else do { s \<leftarrow> call_read E h (ret r) (take (nat (ret r)) (rdata r)) s2;
                 if ret r < int len then Some (False, set_flag UV_HANDLE_READ_PARTIAL h s) else Some (True, s) })"
      using False a s1(1) rd i1(3) fd by (simp add: read_round_def)
    have base: "received ?fd s2 = received ?fd s @ take (nat (ret r)) (rdata r)" "reads_of ?fd s2 = reads_of ?fd s + 1"
      "streams s2 = streams s" "uv__stream_fd h s2 = ?fd" "io_trace s2 = io_trace s"
      using f q1 i1(3) by (simp_all add: quiet_def)
    have fin: ?thesis
      if "read_round E False h s = Some (g, s3)" "quiet h s2 s3" "io_trace s3 = io_trace s2 @ [(c, h, [n], take (nat (ret r)) (rdata r))]" for g s3 n
      using that base by (intro exI [of _ g] exI [of _ s3] exI [of _ n] exI [of _ "take (nat (ret r)) (rdata r)"]) (simp add: quiet_def)
    consider "ret r < 0" | "ret r = 0" | "ret r > 0" by linarith
    then show ?thesis
    proof cases
      case 1
      obtain s3 n where s3: "read_failed E h (errno r) s2 = Some s3" "quiet h s2 s3" "io_trace s3 = io_trace s2 @ [(c, h, [n], [])]"
        using read_failed_ok [OF f(1) assms(2) rc] by blast
      show ?thesis by (rule fin [of False s3 n]) (use go s3 1 in simp_all)
    next
      case 2
      obtain s3 where s3: "uv__stream_eof E h s2 = Some s3" "quiet h s2 s3" "io_trace s3 = io_trace s2 @ [(c, h, [UV_EOF], [])]"
        using stream_eof_ok [OF f(1) assms(2) rc] by blast
      show ?thesis by (rule fin [of False s3 UV_EOF]) (use go s3 2 in simp_all)
    next
      case 3
      obtain s3 where s3: "call_read E h (ret r) (take (nat (ret r)) (rdata r)) s2 = Some s3" "quiet h s2 s3"
        "io_trace s3 = io_trace s2 @ [(c, h, [ret r], take (nat (ret r)) (rdata r))]"
        using quiet_call [OF f(1) env(1) rc] by blast
      show ?thesis
      proof (cases "ret r < int len")
        case True
        have "quiet h s2 (set_flag UV_HANDLE_READ_PARTIAL h s3)"
          using quiet_trans [OF s3(2) quiet_flags(1)] s3(2) by (simp add: quiet_def)
        moreover have "io_trace (set_flag UV_HANDLE_READ_PARTIAL h s3) = io_trace s3" by (simp add: set_flag_def upd_handle_def)
        ultimately show ?thesis using fin [of False "set_flag UV_HANDLE_READ_PARTIAL h s3" "ret r"] go s3(1,3) 3 True by simp
      next
        case False
        then show ?thesis using fin [of True s3 "ret r"] go s3 3 by simp
      qed
    qed
  qed
qed

text \<open>The bytes that calls of a stream's callbacks were given.\<close>

definition call_data :: "cb \<times> hid \<times> int list \<times> u8 list \<Rightarrow> u8 list" where
  "call_data x = snd (snd (snd x))"

definition call_of :: "cb \<Rightarrow> hid \<Rightarrow> cb \<times> hid \<times> int list \<times> u8 list \<Rightarrow> bool" where
  "call_of c h x \<longleftrightarrow> fst x = c \<and> fst (snd x) = h"

lemma read_rounds_ok:
  assumes "calm_env E"
  shows "stream_io h s \<Longrightarrow> alloc_cb (streams s h) \<noteq> None \<Longrightarrow> read_cb (streams s h) = Some c \<Longrightarrow>
    \<exists>s' calls. read_rounds E False h n s = Some s' \<and> stream_io h s' \<and> streams s' = streams s \<and> uv__stream_fd h s' = uv__stream_fd h s \<and>
      io_trace s' = io_trace s @ calls \<and> length calls \<le> n \<and> (\<forall>x\<in>set calls. call_of c h x) \<and>
      received (uv__stream_fd h s) s' = received (uv__stream_fd h s) s @ concat (map call_data calls) \<and>
      reads_of (uv__stream_fd h s) s' \<le> reads_of (uv__stream_fd h s) s + length calls"
proof (induction n arbitrary: s)
  case 0
  then show ?case by simp
next
  case (Suc n)
  show ?case
  proof (cases "has_flag UV_HANDLE_READING h s")
    case False
    then show ?thesis using Suc.prems(1) by simp
  next
    case True
    obtain go s1 k d where s1: "read_round E False h s = Some (go, s1)" "stream_io h s1" "streams s1 = streams s"
      "uv__stream_fd h s1 = uv__stream_fd h s" "io_trace s1 = io_trace s @ [(c, h, [k], d)]"
      "received (uv__stream_fd h s) s1 = received (uv__stream_fd h s) s @ d"
      "reads_of (uv__stream_fd h s) s1 \<le> reads_of (uv__stream_fd h s) s + 1"
      using read_round_ok [OF Suc.prems(1) assms Suc.prems(3,2)] by blast
    show ?thesis
    proof (cases go)
      case False
      then show ?thesis using s1 True Suc.prems(3)
        by (intro exI [of _ s1] exI [of _ "[(c, h, [k], d)]"]) (simp add: call_of_def call_data_def)
    next
      case True
      obtain s' calls where s': "read_rounds E False h n s1 = Some s'" "stream_io h s'" "streams s' = streams s1"
        "uv__stream_fd h s' = uv__stream_fd h s1" "io_trace s' = io_trace s1 @ calls" "length calls \<le> n" "\<forall>x\<in>set calls. call_of c h x"
        "received (uv__stream_fd h s1) s' = received (uv__stream_fd h s1) s1 @ concat (map call_data calls)"
        "reads_of (uv__stream_fd h s1) s' \<le> reads_of (uv__stream_fd h s1) s1 + length calls"
        using Suc.IH [OF s1(2)] Suc.prems(2,3) s1(3) by auto
      have "read_rounds E False h (Suc n) s = Some s'" using s1(1) s'(1) True \<open>has_flag UV_HANDLE_READING h s\<close> Suc.prems(3) by simp
      moreover have "call_data (c, h, [k], d) = d" "call_of c h (c, h, [k], d)" by (simp_all add: call_data_def call_of_def)
      ultimately show ?thesis using s' s1 by (intro exI [of _ s'] exI [of _ "(c, h, [k], d) # calls"]) simp
    qed
  qed
qed


text \<open>A peer that has sent three bytes, and a stream that reads at most four at a time.\<close>

definition short_kernel :: kernel where
  "short_kernel tr c = \<lparr>ret = 3, errno = EAGAIN, rdata = [1, 2, 3], revents = [], rfds = [], rtime = (0, 0)\<rparr>"

definition short_env :: "stream_loop stream_env" where
  "short_env = \<lparr>str_kernel = short_kernel, str_acb = (\<lambda>c h args bs s. Some s), str_alloc = (\<lambda>c h n s. Some (4, s))\<rparr>"

definition reading_stream :: stream_loop where
  "reading_stream = set_flag UV_HANDLE_READING 2
     (upd_stream 2 (\<lambda>x. x\<lparr>read_cb := Some 6, alloc_cb := Some 7\<rparr>) (open_stream UV_TCP 2 3))"

lemma short_env_calm: "calm_env short_env"
  by (auto simp: calm_env_def short_env_def calm_client_def calm_alloc_def untouched_def prompt_def alloc_ok_def short_kernel_def
      EAGAIN_def EINTR_def)

lemma reading_stream_ok:
  "stream_io 2 reading_stream" "\<not> is_ipc 2 reading_stream" "uv__stream_fd 2 reading_stream = 3" "io_trace reading_stream = []"
  "received 3 reading_stream = []" "read_cb (streams reading_stream 2) = Some 6" "alloc_cb (streams reading_stream 2) = Some 7"
proof -
  have "stream_io 2 (open_stream UV_TCP 2 3)"
    by (simp add: stream_io_def io_inv_def registered_def open_stream_eqs)
  then have "stream_io 2 (upd_stream 2 (\<lambda>x. x\<lparr>read_cb := Some 6, alloc_cb := Some 7\<rparr>) (open_stream UV_TCP 2 3))"
    by (simp add: stream_io_def)
  then have q: "quiet 2 (upd_stream 2 (\<lambda>x. x\<lparr>read_cb := Some 6, alloc_cb := Some 7\<rparr>) (open_stream UV_TCP 2 3)) reading_stream"
    unfolding reading_stream_def by (rule quiet_flags(1))
  then show "stream_io 2 reading_stream" "uv__stream_fd 2 reading_stream = 3" "received 3 reading_stream = []"
    "read_cb (streams reading_stream 2) = Some 6" "alloc_cb (streams reading_stream 2) = Some 7"
    using open_stream_eqs(4) [of 2 UV_TCP 3] by (simp_all add: quiet_def uv__stream_fd_def received_def open_stream_eqs)
  show "\<not> is_ipc 2 reading_stream" "io_trace reading_stream = []"
    by (simp_all add: is_ipc_def reading_stream_def set_flag_def upd_handle_def open_stream_eqs)
      (simp add: open_stream_def poll_loop.extend_def uv__handle_init_def set_flag_def set_stream_fd_def upd_io_def upd_handle_def Let_def
        fresh_loop_defs)
qed


end
