(* ===== verification/UvTcp.thy ===== *)
theory UvTcp
  imports StreamIo
begin

text \<open>
  TCP sockets and pipes on streams: \<^verbatim>\<open>3rd/libuv/src/unix/tcp.c\<close>, \<^verbatim>\<open>3rd/libuv/src/unix/pipe.c\<close> and the functions of
  \<^verbatim>\<open>uv-common.c\<close> that check the arguments of the former. An address is the bytes of the structure, its family the first two,
  its port the next two. The parts for z/OS, OpenBSD, Cygwin and macOS are left out.
\<close>

subsection \<open>Addresses\<close>

definition AF_UNSPEC :: int where "AF_UNSPEC = 0"
definition AF_UNIX :: int where "AF_UNIX = 1"
definition AF_INET :: int where "AF_INET = 2"
definition AF_INET6 :: int where "AF_INET6 = 10"

definition UV_ENOENT :: int where "UV_ENOENT = - 2"
definition UV_EACCES :: int where "UV_EACCES = - 13"
definition UV_EALREADY :: int where "UV_EALREADY = - 114"

definition ECONNREFUSED :: int where "ECONNREFUSED = 111"
definition EADDRINUSE :: int where "EADDRINUSE = 98"
definition EAFNOSUPPORT :: int where "EAFNOSUPPORT = 97"

definition sa_family :: "u8 list \<Rightarrow> int" where
  "sa_family addr = uint (addr ! 0) + 256 * uint (addr ! 1)"

definition sa_port_zero :: "u8 list \<Rightarrow> bool" where
  "sa_port_zero addr \<longleftrightarrow> addr ! 2 = 0 \<and> addr ! 3 = 0"

text \<open>The length of an address of the families that TCP and UDP know.\<close>

definition addr_size :: "u8 list \<Rightarrow> nat option" where
  "addr_size addr =
     (if sa_family addr = AF_INET then Some 16 else if sa_family addr = AF_INET6 then Some 28 else None)"

text \<open>A call on the socket of a stream, the negated \<^verbatim>\<open>errno\<close> if it fails.\<close>

definition sock_call :: "kernel \<Rightarrow> syscall \<Rightarrow> 'a io_loop_scheme \<Rightarrow> int \<times> 'a io_loop_scheme" where
  "sock_call K c s = (let (r, s) = sysl K c s in (if ret r \<noteq> 0 then - errno r else 0, s))"

subsection \<open>TCP\<close>

definition new_socket :: "kernel \<Rightarrow> hid \<Rightarrow> int \<Rightarrow> u32 \<Rightarrow> 'a stream_loop_scheme \<Rightarrow> (int \<times> 'a stream_loop_scheme) option" where
  "new_socket K h domain flags s = do {
     (sockfd, s) \<leftarrow> lift_os (uv__socket K domain 1 0) s;
     if sockfd < 0 then Some (sockfd, s)
     else do {
       (err, s) \<leftarrow> uv__stream_open K h sockfd flags s;
       if err \<noteq> 0 then do { (_, s) \<leftarrow> lift_os (uv__close K sockfd) s; Some (err, s) }
       else if flags AND UV_HANDLE_BOUND \<noteq> 0
       then (let (r, s) = sysl K (SysGetsockname (uv__stream_fd h s)) s in
         if ret r \<noteq> 0 then do { (_, s) \<leftarrow> lift_os (uv__close K sockfd) s; Some (- errno r, s) }
         else (let (b, s) = sysl K (SysBind (uv__stream_fd h s) (rdata r)) s in
           if ret b \<noteq> 0 then do { (_, s) \<leftarrow> lift_os (uv__close K sockfd) s; Some (- errno b, s) }
           else Some (0, s)))
       else Some (0, s)
     }
   }"

definition maybe_new_socket :: "kernel \<Rightarrow> hid \<Rightarrow> int \<Rightarrow> u32 \<Rightarrow> 'a stream_loop_scheme \<Rightarrow> (int \<times> 'a stream_loop_scheme) option" where
  "maybe_new_socket K h domain flags s =
     (if domain = AF_UNSPEC then Some (0, set_flag flags h s)
      else if uv__stream_fd h s \<noteq> - 1
      then (if flags AND UV_HANDLE_BOUND \<noteq> 0 \<and> \<not> has_flag UV_HANDLE_BOUND h s
            then (let (r, s) = sysl K (SysGetsockname (uv__stream_fd h s)) s; f = sa_family (rdata r) in
              if ret r \<noteq> 0 then Some (- errno r, s)
              else if (f = AF_INET6 \<or> f = AF_INET) \<and> \<not> sa_port_zero (rdata r) then Some (0, set_flag flags h s)
              else (let (b, s) = sysl K (SysBind (uv__stream_fd h s) (rdata r)) s in
                if ret b \<noteq> 0 then Some (- errno b, s) else Some (0, set_flag flags h s)))
            else Some (0, set_flag flags h s))
      else new_socket K h domain flags s)"

definition uv_tcp_init_ex :: "kernel \<Rightarrow> hid \<Rightarrow> u32 \<Rightarrow> 'a stream_loop_scheme \<Rightarrow> (int \<times> 'a stream_loop_scheme) option" where
  "uv_tcp_init_ex K h flags s =
     (let domain = uint (flags AND 0xFF) in
      if domain \<noteq> AF_INET \<and> domain \<noteq> AF_INET6 \<and> domain \<noteq> AF_UNSPEC then Some (UV_EINVAL, s)
      else if flags AND NOT 0xFF \<noteq> 0 then Some (UV_EINVAL, s)
      else do {
        s \<leftarrow> uv__stream_init K h UV_TCP s;
        if domain \<noteq> AF_UNSPEC
        then do {
          (err, s) \<leftarrow> maybe_new_socket K h domain 0 s;
          Some (if err \<noteq> 0 then (err, s\<lparr>handle_queue := remove1 h (handle_queue s)\<rparr>) else (0, s))
        }
        else Some (0, s)
      })"

definition uv_tcp_init :: "kernel \<Rightarrow> hid \<Rightarrow> 'a stream_loop_scheme \<Rightarrow> (int \<times> 'a stream_loop_scheme) option" where
  "uv_tcp_init K h s = uv_tcp_init_ex K h (word_of_int AF_UNSPEC) s"

text \<open>
  \<^verbatim>\<open>uv__tcp_bind\<close>. An address that is in use is not an error here: it is reported by the next operation, from
  \<^verbatim>\<open>delayed_error\<close>. \<^verbatim>\<open>UV_TCP_IPV6ONLY\<close> is the only flag.
\<close>

definition set_v6only :: "kernel \<Rightarrow> hid \<Rightarrow> u8 list \<Rightarrow> bool \<Rightarrow> 'a stream_loop_scheme \<Rightarrow> int \<times> 'a stream_loop_scheme" where
  "set_v6only K h addr ipv6only s =
     (if sa_family addr = AF_INET6
      then (let (r, s) = sysl K (SysSetsockopt (uv__stream_fd h s) 41 26 (int_bytes (of_bool ipv6only))) s
            in (if ret r = - 1 then - errno r else 0, s))
      else (0, s))"

definition bind_socket :: "kernel \<Rightarrow> hid \<Rightarrow> u8 list \<Rightarrow> 'a stream_loop_scheme \<Rightarrow> int \<times> 'a stream_loop_scheme" where
  "bind_socket K h addr s =
     (let (b, s) = sysl K (SysBind (uv__stream_fd h s) addr) s; e = (if ret b = 0 then 0 else errno b) in
      if ret b \<noteq> 0 \<and> e \<noteq> EADDRINUSE
      then (if e = EAFNOSUPPORT then UV_EINVAL else - e, s)
      else (let s = upd_stream h (\<lambda>x. x\<lparr>delayed_error := - e\<rparr>) s;
                s = set_flag UV_HANDLE_BOUND h s
            in (0, if sa_family addr = AF_INET6 then set_flag UV_HANDLE_IPV6 h s else s)))"

definition uv__tcp_bind :: "kernel \<Rightarrow> hid \<Rightarrow> u8 list \<Rightarrow> bool \<Rightarrow> 'a stream_loop_scheme \<Rightarrow> (int \<times> 'a stream_loop_scheme) option" where
  "uv__tcp_bind K h addr ipv6only s =
     (if ipv6only \<and> sa_family addr \<noteq> AF_INET6 then Some (UV_EINVAL, s)
      else do {
        (err, s) \<leftarrow> maybe_new_socket K h (sa_family addr) 0 s;
        if err \<noteq> 0 then Some (err, s)
        else (let (err, s) = sock_call K (SysSetsockopt (uv__stream_fd h s) 1 2 (int_bytes 1)) s in
          if err \<noteq> 0 then Some (err, s)
          else (let (err, s) = set_v6only K h addr ipv6only s in
            if err \<noteq> 0 then Some (err, s) else Some (bind_socket K h addr s)))
      })"

text \<open>The call of connect(2), repeated while it is interrupted, and what it leaves: \<open>Inl\<close> an error to return, \<open>Inr\<close> one to delay.\<close>

definition connect_result :: "sysret \<Rightarrow> int + int" where
  "connect_result r =
     (if ret r = - 1 \<and> errno r \<noteq> 0
      then (if errno r = EINPROGRESS then Inr 0
            else if errno r = ECONNREFUSED then Inr (- errno r) else Inl (- errno r))
      else Inr 0)"

definition uv__tcp_connect ::
  "kernel \<Rightarrow> rid \<Rightarrow> hid \<Rightarrow> u8 list \<Rightarrow> cb option \<Rightarrow> 'a stream_loop_scheme \<Rightarrow> (int \<times> 'a stream_loop_scheme) option" where
  "uv__tcp_connect K r h addr c s =
     (if htype (handles s h) \<noteq> UV_TCP then None
      else if connect_req (streams s h) \<noteq> None then Some (UV_EALREADY, s)
      else do {
        (err, s) \<leftarrow> maybe_new_socket K h (sa_family addr) (UV_HANDLE_READABLE OR UV_HANDLE_WRITABLE) s;
        if err \<noteq> 0 then Some (err, s)
        else do {
          let s = upd_stream h (\<lambda>x. x\<lparr>delayed_error := 0\<rparr>) s;
          (n, s) \<leftarrow> lift_os (retry K (SysConnect (uv__stream_fd h s) addr)) s;
          case connect_result n of
            Inl e \<Rightarrow> Some (e, s)
          | Inr e \<Rightarrow> do {
              let s = upd_stream h (\<lambda>x. x\<lparr>delayed_error := e\<rparr>) s;
              let s = new_req r h c s;
              let s = upd_stream h (\<lambda>x. x\<lparr>connect_req := Some r\<rparr>) s;
              s \<leftarrow> uv__io_start K (WHandle h) POLLOUT s;
              Some (0, if delayed_error (streams s h) \<noteq> 0 then uv__io_feed (WHandle h) s else s)
            }
        }
      })"

definition uv_tcp_open :: "kernel \<Rightarrow> hid \<Rightarrow> int \<Rightarrow> 'a stream_loop_scheme \<Rightarrow> (int \<times> 'a stream_loop_scheme) option" where
  "uv_tcp_open K h sock s =
     (if uv__fd_exists sock s then Some (UV_EEXIST, s)
      else do {
        (err, s) \<leftarrow> lift_os (uv__nonblock K sock True) s;
        if err \<noteq> 0 then Some (err, s)
        else uv__stream_open K h sock (UV_HANDLE_READABLE OR UV_HANDLE_WRITABLE) s
      })"

text \<open>The names of a socket: what is stored in the client's buffer of the given length, and the length of the name.\<close>

definition tcp_name ::
  "(int \<Rightarrow> syscall) \<Rightarrow> kernel \<Rightarrow> hid \<Rightarrow> nat \<Rightarrow> 'a stream_loop_scheme \<Rightarrow> (int \<times> u8 list \<times> nat) \<times> 'a stream_loop_scheme" where
  "tcp_name call K h namelen s =
     (if delayed_error (streams s h) \<noteq> 0 then ((delayed_error (streams s h), [], namelen), s)
      else if uv__stream_fd h s < 0 then ((UV_EINVAL, [], namelen), s)
      else (let (r, s) = sysl K (call (uv__stream_fd h s)) s in
        if ret r \<noteq> 0 then ((- errno r, [], namelen), s)
        else ((0, take namelen (rdata r), length (rdata r)), s)))"

definition uv_tcp_getsockname :: "kernel \<Rightarrow> hid \<Rightarrow> nat \<Rightarrow> 'a stream_loop_scheme \<Rightarrow> (int \<times> u8 list \<times> nat) \<times> 'a stream_loop_scheme" where
  "uv_tcp_getsockname = tcp_name SysGetsockname"

definition uv_tcp_getpeername :: "kernel \<Rightarrow> hid \<Rightarrow> nat \<Rightarrow> 'a stream_loop_scheme \<Rightarrow> (int \<times> u8 list \<times> nat) \<times> 'a stream_loop_scheme" where
  "uv_tcp_getpeername = tcp_name SysGetpeername"

text \<open>
  \<^verbatim>\<open>uv_tcp_listen\<close>. The environment variable \<^verbatim>\<open>UV_TCP_SINGLE_ACCEPT\<close> is read once; the call stands for
  \<^verbatim>\<open>getenv\<close> and \<^verbatim>\<open>atoi\<close>, its result is not 0 if the variable is set to a number that is not 0.
\<close>

definition read_single_accept :: "kernel \<Rightarrow> 'a stream_loop_scheme \<Rightarrow> 'a stream_loop_scheme" where
  "read_single_accept K s =
     (case single_accept s of
        Some _ \<Rightarrow> s
      | None \<Rightarrow> (let (r, s) = sysl K (SysCall ''getenv UV_TCP_SINGLE_ACCEPT'' [] []) s in s\<lparr>single_accept := Some (ret r \<noteq> 0)\<rparr>))"

definition uv_tcp_listen :: "kernel \<Rightarrow> hid \<Rightarrow> int \<Rightarrow> cb option \<Rightarrow> 'a stream_loop_scheme \<Rightarrow> (int \<times> 'a stream_loop_scheme) option" where
  "uv_tcp_listen K h backlog c s =
     (if delayed_error (streams s h) \<noteq> 0 then Some (delayed_error (streams s h), s)
      else do {
        let s = read_single_accept K s;
        let s = (if single_accept s = Some True then set_flag UV_HANDLE_TCP_SINGLE_ACCEPT h s else s);
        (err, s) \<leftarrow> maybe_new_socket K h AF_INET 0 s;
        if err \<noteq> 0 then Some (err, s)
        else (let (err, s) = sock_call K (SysListen (uv__stream_fd h s) backlog) s in
          if err \<noteq> 0 then Some (err, s)
          else do {
            let s = upd_stream h (\<lambda>x. x\<lparr>connection_cb := c\<rparr>) s;
            let s = set_flag UV_HANDLE_BOUND h s;
            let s = upd_io (WHandle h) (\<lambda>w. w\<lparr>io_cb := UV__SERVER_IO\<rparr>) s;
            s \<leftarrow> uv__io_start K (WHandle h) POLLIN s;
            Some (0, s)
          })
      })"

definition set_or_clear :: "bool \<Rightarrow> u32 \<Rightarrow> hid \<Rightarrow> 'a stream_loop_scheme \<Rightarrow> 'a stream_loop_scheme" where
  "set_or_clear on f h s = (if on then set_flag f h s else clear_flag f h s)"

definition uv_tcp_nodelay :: "kernel \<Rightarrow> hid \<Rightarrow> bool \<Rightarrow> 'a stream_loop_scheme \<Rightarrow> int \<times> 'a stream_loop_scheme" where
  "uv_tcp_nodelay K h on s =
     (let (err, s) = (if uv__stream_fd h s \<noteq> - 1 then uv__tcp_nodelay K (uv__stream_fd h s) on s else (0, s)) in
      if err \<noteq> 0 then (err, s) else (0, set_or_clear on UV_HANDLE_TCP_NODELAY h s))"

definition uv_tcp_keepalive :: "kernel \<Rightarrow> hid \<Rightarrow> bool \<Rightarrow> u32 \<Rightarrow> 'a stream_loop_scheme \<Rightarrow> int \<times> 'a stream_loop_scheme" where
  "uv_tcp_keepalive K h on delay s =
     (let (err, s) = (if uv__stream_fd h s \<noteq> - 1 then uv__tcp_keepalive K (uv__stream_fd h s) on delay s else (0, s)) in
      if err \<noteq> 0 then (err, s) else (0, set_or_clear on UV_HANDLE_TCP_KEEPALIVE h s))"

definition uv_tcp_simultaneous_accepts :: "hid \<Rightarrow> bool \<Rightarrow> 'a stream_loop_scheme \<Rightarrow> int \<times> 'a stream_loop_scheme" where
  "uv_tcp_simultaneous_accepts h enable s = (0, set_or_clear (\<not> enable) UV_HANDLE_TCP_SINGLE_ACCEPT h s)"

definition uv__tcp_close :: "kernel \<Rightarrow> hid \<Rightarrow> 'a stream_loop_scheme \<Rightarrow> 'a stream_loop_scheme option" where
  "uv__tcp_close K h s = uv__stream_close K h s"

definition uv_tcp_bind :: "kernel \<Rightarrow> hid \<Rightarrow> u8 list \<Rightarrow> bool \<Rightarrow> 'a stream_loop_scheme \<Rightarrow> (int \<times> 'a stream_loop_scheme) option" where
  "uv_tcp_bind K h addr ipv6only s =
     (if htype (handles s h) \<noteq> UV_TCP then Some (UV_EINVAL, s)
      else case addr_size addr of
        None \<Rightarrow> Some (UV_EINVAL, s)
      | Some n \<Rightarrow> uv__tcp_bind K h (take n addr) ipv6only s)"

definition uv_tcp_connect ::
  "kernel \<Rightarrow> rid \<Rightarrow> hid \<Rightarrow> u8 list \<Rightarrow> cb option \<Rightarrow> 'a stream_loop_scheme \<Rightarrow> (int \<times> 'a stream_loop_scheme) option" where
  "uv_tcp_connect K r h addr c s =
     (if htype (handles s h) \<noteq> UV_TCP then Some (UV_EINVAL, s)
      else case addr_size addr of
        None \<Rightarrow> Some (UV_EINVAL, s)
      | Some n \<Rightarrow> uv__tcp_connect K r h (take n addr) c s)"

end
