(* ===== verification/UvPipe.thy ===== *)
theory UvPipe
  imports UvTcp
begin

text \<open>
  Pipes, \<^verbatim>\<open>3rd/libuv/src/unix/pipe.c\<close>, and \<^verbatim>\<open>uv_listen\<close> of \<^verbatim>\<open>stream.c\<close>. A name is the bytes of a C string without its
  end. The calls on files (unlink, stat, chmod) go to the kernel by name; the mode that stat reports is the four bytes of its data.
\<close>

definition uv_pipe_init :: "kernel \<Rightarrow> hid \<Rightarrow> bool \<Rightarrow> 'a stream_loop_scheme \<Rightarrow> (int \<times> 'a stream_loop_scheme) option" where
  "uv_pipe_init K h with_fds s = do {
     s \<leftarrow> uv__stream_init K h UV_NAMED_PIPE s;
     Some (0, upd_stream h (\<lambda>x. x\<lparr>shutdown_req := None, connect_req := None, pipe_fname := None, ipc := with_fds\<rparr>) s)
   }"

text \<open>The address of a file name: it is cut to the 107 bytes that fit into \<^verbatim>\<open>sun_path\<close>.\<close>

definition unix_addr :: "u8 list \<Rightarrow> u8 list" where
  "unix_addr name = [1, 0] @ take 107 name @ replicate (108 - length (take 107 name)) 0"

definition uv_pipe_bind :: "kernel \<Rightarrow> hid \<Rightarrow> u8 list \<Rightarrow> 'a stream_loop_scheme \<Rightarrow> (int \<times> 'a stream_loop_scheme) option" where
  "uv_pipe_bind K h name s =
     (if uv__stream_fd h s \<ge> 0 then Some (UV_EINVAL, s)
      else (let (m, s) = sysl K (SysAlloc (length name + 1)) s in
        if ret m = 0 then Some (UV_ENOMEM, s)
        else do {
          (sockfd, s) \<leftarrow> lift_os (uv__socket K AF_UNIX 1 0) s;
          if sockfd < 0 then Some (sockfd, s)
          else (let (b, s) = sysl K (SysBind sockfd (unix_addr name)) s in
            if ret b \<noteq> 0
            then do {
              (_, s) \<leftarrow> lift_os (uv__close K sockfd) s;
              Some (if - errno b = UV_ENOENT then UV_EACCES else - errno b, s)
            }
            else (let s = set_flag UV_HANDLE_BOUND h s;
                      s = upd_stream h (\<lambda>x. x\<lparr>pipe_fname := Some name\<rparr>) s
                  in Some (0, set_stream_fd h sockfd s)))
        }))"

definition uv_pipe_listen :: "kernel \<Rightarrow> hid \<Rightarrow> int \<Rightarrow> cb option \<Rightarrow> 'a stream_loop_scheme \<Rightarrow> (int \<times> 'a stream_loop_scheme) option" where
  "uv_pipe_listen K h backlog c s =
     (if uv__stream_fd h s = - 1 then Some (UV_EINVAL, s)
      else (let (err, s) = sock_call K (SysListen (uv__stream_fd h s) backlog) s in
        if err \<noteq> 0 then Some (err, s)
        else do {
          let s = upd_stream h (\<lambda>x. x\<lparr>connection_cb := c\<rparr>) s;
          let s = upd_io (WHandle h) (\<lambda>w. w\<lparr>io_cb := UV__SERVER_IO\<rparr>) s;
          s \<leftarrow> uv__io_start K (WHandle h) POLLIN s;
          Some (0, s)
        }))"

definition uv__pipe_close :: "kernel \<Rightarrow> hid \<Rightarrow> 'a stream_loop_scheme \<Rightarrow> 'a stream_loop_scheme option" where
  "uv__pipe_close K h s =
     (let s = (case pipe_fname (streams s h) of
                 None \<Rightarrow> s
               | Some name \<Rightarrow> upd_stream h (\<lambda>x. x\<lparr>pipe_fname := None\<rparr>) (snd (sysl K (SysCall ''unlink'' [] name) s)))
      in uv__stream_close K h s)"

definition uv_pipe_open :: "kernel \<Rightarrow> hid \<Rightarrow> int \<Rightarrow> 'a stream_loop_scheme \<Rightarrow> (int \<times> 'a stream_loop_scheme) option" where
  "uv_pipe_open K h fd s =
     (if uv__fd_exists fd s then Some (UV_EEXIST, s)
      else do {
        (err, s) \<leftarrow> lift_os (uv__nonblock K fd True) s;
        if err \<noteq> 0 then Some (err, s)
        else uv__stream_open K h fd (UV_HANDLE_READABLE OR UV_HANDLE_WRITABLE) s
      })"

text \<open>\<^verbatim>\<open>uv_pipe_connect\<close>: the part before the label \<^verbatim>\<open>out\<close>, and the request that is made whatever came of it.\<close>

definition connect_pipe :: "kernel \<Rightarrow> hid \<Rightarrow> bool \<Rightarrow> u8 list \<Rightarrow> 'a stream_loop_scheme \<Rightarrow> (int \<times> 'a stream_loop_scheme) option" where
  "connect_pipe K h new_sock name s = do {
     (n, s) \<leftarrow> lift_os (retry K (SysConnect (uv__stream_fd h s) (unix_addr name))) s;
     if ret n = - 1 \<and> errno n \<noteq> EINPROGRESS then Some (- errno n, s)
     else do {
       (err, s) \<leftarrow> (if new_sock
                     then uv__stream_open K h (uv__stream_fd h s) (UV_HANDLE_READABLE OR UV_HANDLE_WRITABLE) s
                     else Some (0, s));
       s \<leftarrow> (if err = 0 then uv__io_start K (WHandle h) (POLLIN OR POLLOUT) s else Some s);
       Some (err, s)
     }
   }"

definition pipe_connect :: "kernel \<Rightarrow> hid \<Rightarrow> u8 list \<Rightarrow> 'a stream_loop_scheme \<Rightarrow> (int \<times> 'a stream_loop_scheme) option" where
  "pipe_connect K h name s =
     (if uv__stream_fd h s = - 1
      then do {
        (err, s) \<leftarrow> lift_os (uv__socket K AF_UNIX 1 0) s;
        if err < 0 then Some (err, s) else connect_pipe K h True name (set_stream_fd h err s)
      }
      else connect_pipe K h False name s)"

definition uv_pipe_connect ::
  "kernel \<Rightarrow> rid \<Rightarrow> hid \<Rightarrow> u8 list \<Rightarrow> cb option \<Rightarrow> 'a stream_loop_scheme \<Rightarrow> 'a stream_loop_scheme option" where
  "uv_pipe_connect K r h name c s = do {
     (err, s) \<leftarrow> pipe_connect K h name s;
     let s = upd_stream h (\<lambda>x. x\<lparr>delayed_error := err, connect_req := Some r\<rparr>) s;
     let s = new_req r h c s;
     Some (if err \<noteq> 0 then uv__io_feed (WHandle h) s else s)
   }"

text \<open>
  \<^verbatim>\<open>uv__pipe_getsockpeername\<close>: the error, the bytes stored in the client's buffer of \<open>buflen\<close> bytes and the value stored
  in \<^verbatim>\<open>size\<close>. A name that starts with a null byte is abstract, its length is what the kernel says. A name that fills
  \<^verbatim>\<open>sun_path\<close> without an end is read past the structure (\<open>None\<close>).
\<close>

definition uv__pipe_getsockpeername ::
  "(int \<Rightarrow> syscall) \<Rightarrow> kernel \<Rightarrow> hid \<Rightarrow> nat \<Rightarrow> 'a stream_loop_scheme \<Rightarrow> ((int \<times> u8 list \<times> nat) \<times> 'a stream_loop_scheme) option" where
  "uv__pipe_getsockpeername func K h buflen s =
     (let (r, s) = sysl K (func (uv__stream_fd h s)) s;
          path = take 108 (drop 2 (rdata r) @ replicate 108 0) in
      if ret r < 0 then Some ((- errno r, [], 0), s)
      else if path ! 0 \<noteq> 0 \<and> 0 \<notin> set path then None
      else (let addrlen = (if path ! 0 = 0 then unat (of_nat (length (rdata r)) - 2 :: u32) else length (takeWhile (\<lambda>b. b \<noteq> 0) path)) in
        if addrlen \<ge> buflen then Some ((UV_ENOBUFS, [], addrlen + 1), s)
        else Some ((0, take addrlen path @ (if path ! 0 \<noteq> 0 then [0] else []), addrlen), s)))"

definition uv_pipe_getsockname :: "kernel \<Rightarrow> hid \<Rightarrow> nat \<Rightarrow> 'a stream_loop_scheme \<Rightarrow> ((int \<times> u8 list \<times> nat) \<times> 'a stream_loop_scheme) option" where
  "uv_pipe_getsockname = uv__pipe_getsockpeername SysGetsockname"

definition uv_pipe_getpeername :: "kernel \<Rightarrow> hid \<Rightarrow> nat \<Rightarrow> 'a stream_loop_scheme \<Rightarrow> ((int \<times> u8 list \<times> nat) \<times> 'a stream_loop_scheme) option" where
  "uv_pipe_getpeername = uv__pipe_getsockpeername SysGetpeername"

definition uv_pipe_pending_count :: "hid \<Rightarrow> 'a stream_loop_scheme \<Rightarrow> nat" where
  "uv_pipe_pending_count h s =
     (if \<not> ipc (streams s h) then 0
      else if accepted_fd (streams s h) = - 1 then 0
      else case queued_fds (streams s h) of None \<Rightarrow> 1 | Some (qsize, fds) \<Rightarrow> length fds + 1)"

definition uv_pipe_pending_type :: "kernel \<Rightarrow> hid \<Rightarrow> 'a stream_loop_scheme \<Rightarrow> uv_handle_type \<times> 'a stream_loop_scheme" where
  "uv_pipe_pending_type K h s =
     (if \<not> ipc (streams s h) then (UV_UNKNOWN_HANDLE, s)
      else if accepted_fd (streams s h) = - 1 then (UV_UNKNOWN_HANDLE, s)
      else uv__handle_type K (accepted_fd (streams s h)) s)"

definition pipe_mode :: "u32 \<Rightarrow> u32" where
  "pipe_mode mode = (if mode AND UV_READABLE \<noteq> 0 then 0x124 else 0) OR (if mode AND UV_WRITABLE \<noteq> 0 then 0x92 else 0)"

definition uv_pipe_chmod :: "kernel \<Rightarrow> hid \<Rightarrow> u32 \<Rightarrow> 'a stream_loop_scheme \<Rightarrow> (int \<times> 'a stream_loop_scheme) option" where
  "uv_pipe_chmod K h mode s =
     (if uv__stream_fd h s = - 1 then Some (UV_EBADF, s)
      else if mode \<noteq> UV_READABLE \<and> mode \<noteq> UV_WRITABLE \<and> mode \<noteq> UV_WRITABLE OR UV_READABLE then Some (UV_EINVAL, s)
      else do {
        ((r, _, len), s) \<leftarrow> uv_pipe_getsockname K h 0 s;
        if r \<noteq> UV_ENOBUFS then Some (r, s)
        else (let (m, s) = sysl K (SysAlloc len) s in
          if ret m = 0 then Some (UV_ENOMEM, s)
          else do {
            ((r, buf, _), s) \<leftarrow> uv_pipe_getsockname K h len s;
            if r \<noteq> 0 then Some (r, s)
            else (let name = takeWhile (\<lambda>b. b \<noteq> 0) buf; (st, s) = sysl K (SysCall ''stat'' [] name) s;
                      st_mode = (word_of_int (horner_sum uint 256 (rdata st)) :: u32); desired = pipe_mode mode in
              if ret st = - 1 then Some (- errno st, s)
              else if st_mode AND desired = desired then Some (0, s)
              else (let (c, s) = sysl K (SysCall ''chmod'' [uint (st_mode OR desired)] name) s
                    in Some (if ret c \<noteq> - 1 then 0 else - errno c, s)))
          })
      })"

definition uv_listen :: "kernel \<Rightarrow> hid \<Rightarrow> int \<Rightarrow> cb option \<Rightarrow> 'a stream_loop_scheme \<Rightarrow> (int \<times> 'a stream_loop_scheme) option" where
  "uv_listen K h backlog c s = do {
     (err, s) \<leftarrow> (if htype (handles s h) = UV_TCP then uv_tcp_listen K h backlog c s
                   else if htype (handles s h) = UV_NAMED_PIPE then uv_pipe_listen K h backlog c s
                   else Some (UV_EINVAL, s));
     Some (err, if err = 0 then uv__handle_start h s else s)
   }"

end
