(* ===== verification/SockFds.thy ===== *)
theory SockFds
  imports UvPipe
begin

text \<open>
  Sockets and pipes leak no descriptors (\<^verbatim>\<open>tcp.c\<close>, \<^verbatim>\<open>pipe.c\<close>). \<open>sock_inv\<close> is the invariant of a stream handle that is not yet
  connected to anything: its descriptor is its own and open, its watcher is in the table of that descriptor or nowhere.
  Every operation keeps it (\<open>kept\<close>), on all of its paths, and closing the handle closes what it owns.
\<close>

subsection \<open>The descriptor of a TCP handle\<close>

text \<open>
  What holds of a TCP handle from its initialisation to its end: it has no descriptor, or one of its own that is open, and the table of
  watchers has no descriptor that is not open. \<open>others\<close> are the open descriptors that are not the handle's.
\<close>

definition table_live :: "'a io_loop_scheme \<Rightarrow> bool" where
  "table_live s \<longleftrightarrow> (\<forall>n\<in>registered s. int n \<in> live_fds (os s))"

definition fd_owned :: "int \<Rightarrow> 'a io_loop_scheme \<Rightarrow> bool" where
  "fd_owned fd s \<longleftrightarrow> fd = - 1 \<or> fd > 2 \<and> fd < 2 ^ 31 - 3 \<and> fd \<in> live_fds (os s)"

definition sock_inv :: "hid \<Rightarrow> 'a stream_loop_scheme \<Rightarrow> bool" where
  "sock_inv h s \<longleftrightarrow> watcher_ok (WHandle h) s \<and> table_live s \<and> watchers s \<noteq> [] \<and> stream_kind (htype (handles s h)) \<and>
     accepted_fd (streams s h) = - 1 \<and> queued_fds (streams s h) = None \<and> fd_owned (uv__stream_fd h s) s \<and> - 1 \<notin> live_fds (os s)"

definition others :: "hid \<Rightarrow> 'a stream_loop_scheme \<Rightarrow> int set" where
  "others h s = live_fds (os s) - {uv__stream_fd h s}"

definition same_sock :: "hid \<Rightarrow> 'a stream_loop_scheme \<Rightarrow> 'a stream_loop_scheme \<Rightarrow> bool" where
  "same_sock h s s' \<longleftrightarrow>
     (\<forall>w. iofd (io_watchers s' w) = iofd (io_watchers s w) \<and> pevents (io_watchers s' w) = pevents (io_watchers s w) \<and>
        ioevents (io_watchers s' w) = ioevents (io_watchers s w)) \<and>
     watchers s' = watchers s \<and> watcher_queue s' = watcher_queue s \<and> nfds s' = nfds s \<and> live_fds (os s') = live_fds (os s) \<and>
     htype (handles s' h) = htype (handles s h) \<and> accepted_fd (streams s' h) = accepted_fd (streams s h) \<and>
     queued_fds (streams s' h) = queued_fds (streams s h)"

lemma same_sock_trans: "same_sock h s s' \<Longrightarrow> same_sock h s' s'' \<Longrightarrow> same_sock h s s''"
  by (simp add: same_sock_def)

lemma same_sock_simps [simp]:
  "same_sock h s (set_flag f g s)" "same_sock h s (clear_flag f g s)" "same_sock h s (set_or_clear on f g s)"
  "same_sock h s (new_req r g c s)" "same_sock h s (uv__io_feed w s)"
  "(\<And>x. accepted_fd (u x) = accepted_fd x \<and> queued_fds (u x) = queued_fds x) \<Longrightarrow> same_sock h s (upd_stream g u s)"
  "same_sock h s (upd_io w (\<lambda>x. x\<lparr>io_cb := k\<rparr>) s)" "same_sock h s s" "same_sock h s (s\<lparr>single_accept := b\<rparr>)"
  by (auto simp: same_sock_def set_flag_def clear_flag_def set_or_clear_def upd_handle_def new_req_def uv__req_register_def uv__io_feed_def
      upd_io_def Let_def)

text \<open>A step that leaves the handle as it is may be left out.\<close>

lemma same_sock_peel: "same_sock h t t' \<Longrightarrow> same_sock h s t' = same_sock h s t"
  by (simp add: same_sock_def)

lemmas same_sock_peels = same_sock_simps(1-7,9) [THEN same_sock_peel]

lemma same_sock_sysl: "fd_effect c r (live_fds (os s)) = live_fds (os s) \<Longrightarrow> sysl K c s = (r, s') \<Longrightarrow> same_sock h s s'"
  using sysl_result(3) [of K c s r s'] by (auto simp: same_sock_def sysl_def split: prod.splits)

lemma same_sockD:
  fixes s :: "'a stream_loop_scheme"
  assumes "same_sock h s s'"
  shows "sock_inv h s' = sock_inv h s" "others h s' = others h s" "uv__stream_fd h s' = uv__stream_fd h s" "fd_owned fd s' = fd_owned fd s"
proof -
  have e: "iofd (io_watchers s' w) = iofd (io_watchers s w)" "pevents (io_watchers s' w) = pevents (io_watchers s w)"
    "ioevents (io_watchers s' w) = ioevents (io_watchers s w)" "watchers s' = watchers s" "watcher_queue s' = watcher_queue s" "nfds s' = nfds s"
    "live_fds (os s') = live_fds (os s)" "htype (handles s' h) = htype (handles s h)" "accepted_fd (streams s' h) = accepted_fd (streams s h)"
    "queued_fds (streams s' h) = queued_fds (streams s h)" for w
    using assms by (simp_all add: same_sock_def)
  have r: "registered s' = registered s" unfolding registered_def e ..
  have "io_inv s' = io_inv s" unfolding io_inv_def r e ..
  then have "watcher_ok w s' = watcher_ok w s" for w unfolding watcher_ok_def e by simp
  moreover have t: "table_live s' = table_live s" unfolding table_live_def r e ..
  moreover show f: "uv__stream_fd h s' = uv__stream_fd h s" unfolding uv__stream_fd_def e ..
  moreover show o: "fd_owned fd s' = fd_owned fd s" for fd unfolding fd_owned_def e ..
  ultimately show "sock_inv h s' = sock_inv h s" unfolding sock_inv_def e by simp
  show "others h s' = others h s" unfolding others_def f e ..
qed

text \<open>The kernel: descriptors are fresh and small, calls are not interrupted and memory does not run out.\<close>

definition small_fds :: "kernel \<Rightarrow> bool" where
  "small_fds K \<longleftrightarrow> (\<forall>tr c. opens c \<longrightarrow> ret (K tr c) < 2 ^ 31 - 3)"

definition net_kernel :: "kernel \<Rightarrow> bool" where
  "net_kernel K \<longleftrightarrow> kernel_ok K \<and> prompt K \<and> alloc_ok K \<and> small_fds K"

lemma ioctl_returns:
  assumes "prompt K"
  shows "\<exists>e w'. uv__nonblock_ioctl K fd on w = Some (e, w')" "\<exists>e w'. uv__cloexec_ioctl K fd on w = Some (e, w')"
  by (auto simp: uv__nonblock_ioctl_def uv__cloexec_ioctl_def retry_prompt [OF assms] split: prod.splits)

lemma socket_returns:
  assumes "net_kernel K"
  shows "\<exists>fd w'. uv__socket K domain typ protocol w = Some (fd, w') \<and> fd_result w fd w' \<and> fd < 2 ^ 31 - 3"
proof -
  have K: "kernel_ok K" "prompt K" "small_fds K" using assms by (simp_all add: net_kernel_def)
  have small: "ret r < 2 ^ 31 - 3" if "sys K (SysSocket a b c) w = (r, w1)" for a b c w r w1
  proof -
    have "r = K (sys_trace w) (SysSocket a b c)" using that by (auto simp: sys_def Let_def)
    then show ?thesis using K(3) by (simp add: small_fds_def)
  qed
  have e: "- errno r < 2 ^ 31 - 3" if "sys K c w = (r, w1)" for c w r w1 using sys_kernel_ok(1) [OF K(1) that] by simp
  obtain r1 w1 where s1: "sys K (SysSocket domain (or typ SOCK_FLAGS) protocol) w = (r1, w1)" by fastforce
  obtain r2 w2 where s2: "sys K (SysSocket domain typ protocol) w1 = (r2, w2)" by fastforce
  have "\<exists>fd w'. uv__socket K domain typ protocol w = Some (fd, w') \<and> fd < 2 ^ 31 - 3"
  proof (cases "ret r1 = - 1 \<and> errno r1 = EINVAL \<and> ret r2 \<noteq> - 1")
    case False
    then show ?thesis using s1 s2 small [OF s1] e [OF s1] e [OF s2] by (auto simp: uv__socket_def Let_def)
  next
    case True
    have f: "ret r2 > 2" using sys_kernel_ok(2) [OF K(1) s2] True by simp
    obtain e1 w3 where 3: "uv__nonblock_ioctl K (ret r2) True w2 = Some (e1, w3)" using ioctl_returns(1) [OF K(2)] by blast
    obtain e2 w4 where 4: "(if e1 = 0 then uv__cloexec_ioctl K (ret r2) True w3 else Some (e1, w3)) = Some (e2, w4)"
      using ioctl_returns(2) [OF K(2), of "ret r2" True w3] by (cases "e1 = 0") auto
    have le: "e1 \<le> 0" "e2 \<le> 0" using ioctl_fds [OF K(1)] 3 4 by (auto split: if_splits)
    obtain e3 w5 where 5: "uv__close K (ret r2) w4 = Some (e3, w5)" using close_returns [OF f] by blast
    have "uv__socket K domain typ protocol w = Some (if e2 \<noteq> 0 then (e2, w5) else (ret r2, w4))"
      using s1 s2 True 3 4 5 by (simp add: uv__socket_def Let_def)
    then show ?thesis using le small [OF s2] by auto
  qed
  then show ?thesis using socket_fds [OF K(1)] by blast
qed

text \<open>\<open>kept\<close>: an operation returns, the invariant holds again, and no descriptor but the handle's own has come or gone.\<close>

definition kept :: "hid \<Rightarrow> 'a stream_loop_scheme \<Rightarrow> (int \<times> 'a stream_loop_scheme) option \<Rightarrow> bool" where
  "kept h s r \<longleftrightarrow> (\<exists>rc s'. r = Some (rc, s') \<and> sock_inv h s' \<and> others h s' = others h s)"

lemma kept_same: "sock_inv h s \<Longrightarrow> same_sock h s s' \<Longrightarrow> kept h s (Some (rc, s'))"
  by (auto simp: kept_def same_sockD)

lemma kept_then: "sock_inv h s1 \<Longrightarrow> others h s1 = others h s \<Longrightarrow> same_sock h s1 s' \<Longrightarrow> kept h s (Some (rc, s'))"
  by (auto simp: kept_def same_sockD)

lemma kept_from: "kept h s1 r \<Longrightarrow> others h s1 = others h s \<Longrightarrow> kept h s r"
  by (auto simp: kept_def)

lemma set_fd_own:
  fixes s :: "'a stream_loop_scheme"
  assumes "sock_inv h s" and "uv__stream_fd h s = - 1" and "fd_result (os s0) fd (os s)" and "fd \<ge> 0" and "fd < 2 ^ 31 - 3"
    and "table_live s0" and "watchers s = watchers s0"
  shows "sock_inv h (set_stream_fd h fd s)" "others h (set_stream_fd h fd s) = live_fds (os s0)"
proof -
  have fd: "fd > 2" "fd \<notin> live_fds (os s0)" "live_fds (os s) = insert fd (live_fds (os s0))"
    using assms(3,4) by (auto simp: fd_result_def)
  have free: "nat fd < length (watchers s) \<Longrightarrow> watchers s ! nat fd = None"
  proof (rule ccontr)
    assume "nat fd < length (watchers s)" "watchers s ! nat fd \<noteq> None"
    then have "nat fd \<in> registered s0" using assms(7) by (simp add: registered_def)
    then have "int (nat fd) \<in> live_fds (os s0)" using assms(6) unfolding table_live_def by blast
    then show False using fd by simp
  qed
  have w: "watcher_ok (WHandle h) s" "table_live s" "watchers s \<noteq> []" using assms(1) by (simp_all add: sock_inv_def)
  have p: "pevents (io_watchers s (WHandle h)) = 0"
    using w(1) assms(2) by (auto simp: watcher_ok_def uv__stream_fd_def)
  have i: "io_inv (set_stream_fd h fd s)" using set_fd_io_inv [OF _ assms(2)] w(1) by (simp add: watcher_ok_def)
  have e: "watchers (set_stream_fd h fd s) = watchers s" "os (set_stream_fd h fd s) = os s" "uv__stream_fd h (set_stream_fd h fd s) = fd"
    "iofd (io_watchers (set_stream_fd h fd s) (WHandle h)) = fd" "pevents (io_watchers (set_stream_fd h fd s) (WHandle h)) = 0"
    "handles (set_stream_fd h fd s) = handles s" "streams (set_stream_fd h fd s) = streams s"
    using p by (simp_all add: set_stream_fd_def upd_io_def uv__stream_fd_def)
  have "watcher_ok (WHandle h) (set_stream_fd h fd s)"
    using i free fd(1) unfolding watcher_ok_def e Let_def by simp
  moreover have "table_live (set_stream_fd h fd s)" using w(2) unfolding table_live_def registered_def e .
  ultimately show "sock_inv h (set_stream_fd h fd s)"
    using assms(1,5) fd e by (simp add: sock_inv_def fd_owned_def)
  show "others h (set_stream_fd h fd s) = live_fds (os s0)" using fd e by (auto simp: others_def)
qed

lemma sockopt_same: "uv__tcp_nodelay K fd on s = (e, s') \<Longrightarrow> same_sock h s s'" "uv__tcp_keepalive K fd on d s = (e, s') \<Longrightarrow> same_sock h s s'"
proof -
  have ne: "fd_effect (SysSetsockopt fd a b v) r F = F" for fd a b v r F by (simp add: fd_effect_def new_fds_def)
  show "uv__tcp_nodelay K fd on s = (e, s') \<Longrightarrow> same_sock h s s'"
    by (auto simp: uv__tcp_nodelay_def Let_def split: prod.splits dest: same_sock_sysl [OF ne])
  show "uv__tcp_keepalive K fd on d s = (e, s') \<Longrightarrow> same_sock h s s'"
    by (auto simp: uv__tcp_keepalive_def Let_def split: prod.splits if_splits dest!: same_sock_sysl [OF ne, where h = h] intro: same_sock_trans)
qed

text \<open>Opening a stream sets its descriptor, or changes nothing but flags.\<close>

lemma stream_open_cases:
  fixes s :: "'a stream_loop_scheme"
  assumes "uv__stream_fd h s = - 1" and "fd \<ge> 0"
  shows "\<exists>err s'. same_sock h s s' \<and> (uv__stream_open K h fd flags s = Some (0, set_stream_fd h fd s') \<or>
     err \<noteq> 0 \<and> uv__stream_open K h fd flags s = Some (err, s'))"
proof -
  let ?s = "set_flag flags h s"
  define p1 where "p1 = (if htype (handles ?s h) = UV_TCP \<and> has_flag UV_HANDLE_TCP_NODELAY h ?s then uv__tcp_nodelay K fd True ?s else (0, ?s))"
  obtain e1 s1 where 1: "p1 = (e1, s1)" by (cases p1)
  define p2 where "p2 = (if htype (handles ?s h) = UV_TCP \<and> has_flag UV_HANDLE_TCP_KEEPALIVE h s1 then uv__tcp_keepalive K fd True 60 s1 else (0, s1))"
  obtain e2 s2 where 2: "p2 = (e2, s2)" by (cases p2)
  have "same_sock h ?s s1" using 1 sockopt_same(1) by (auto simp: p1_def split: if_splits)
  then have f1: "same_sock h s s1" using same_sock_trans [OF same_sock_simps(1)] by blast
  have "same_sock h s1 s2" using 2 sockopt_same(2) by (auto simp: p2_def split: if_splits)
  then have f2: "same_sock h s s2" using f1 same_sock_trans by blast
  have "uv__stream_open K h fd flags s =
      (if e1 \<noteq> 0 then Some (e1, s1) else if e2 \<noteq> 0 then Some (e2, s2) else Some (0, set_stream_fd h fd s2))"
    using assms 1 2 by (simp add: uv__stream_open_def p1_def [symmetric] p2_def [symmetric] Let_def)
  then show ?thesis using f1 f2 by (cases "e1 = 0"; cases "e2 = 0") auto
qed

lemma os_step:
  fixes s :: "'a stream_loop_scheme"
  assumes "sock_inv h s" and "uv__stream_fd h s = - 1" and "live_fds (os s) \<subseteq> live_fds w" and "- 1 \<notin> live_fds w"
  shows "sock_inv h (s\<lparr>os := w\<rparr>)" "uv__stream_fd h (s\<lparr>os := w\<rparr>) = - 1"
proof -
  have "watcher_ok (WHandle h) (s\<lparr>os := w\<rparr>)" by (rule watcher_ok_cong [of _ s]) (use assms(1) in \<open>simp_all add: sock_inv_def\<close>)
  moreover have "table_live (s\<lparr>os := w\<rparr>)" using assms(1,3) by (auto simp: sock_inv_def table_live_def registered_def)
  ultimately show "sock_inv h (s\<lparr>os := w\<rparr>)" "uv__stream_fd h (s\<lparr>os := w\<rparr>) = - 1"
    using assms(1,2,4) by (simp_all add: sock_inv_def uv__stream_fd_def fd_owned_def)
qed

lemma new_socket_kept:
  fixes s :: "'a stream_loop_scheme"
  assumes "net_kernel K" and "sock_inv h s" and "uv__stream_fd h s = - 1" and "flags AND UV_HANDLE_BOUND = 0"
  shows "\<exists>rc s'. new_socket K h domain flags s = Some (rc, s') \<and> sock_inv h s' \<and> others h s' = others h s \<and>
    (rc = 0 \<longrightarrow> uv__stream_fd h s' \<noteq> - 1)"
proof -
  obtain fd w where w: "uv__socket K domain 1 0 (os s) = Some (fd, w)" "fd_result (os s) fd w" "fd < 2 ^ 31 - 3"
    using socket_returns [OF assms(1)] by blast
  let ?s1 = "s\<lparr>os := w\<rparr>"
  have oth: "others h s = live_fds (os s)" using assms(2,3) by (auto simp: others_def sock_inv_def)
  have l: "lift_os (uv__socket K domain 1 0) s = Some (fd, ?s1)" using w(1) by (simp add: lift_os_def)
  show ?thesis
  proof (cases "fd < 0")
    case True
    then have "live_fds w = live_fds (os s)" using w(2) by (auto simp: fd_result_def)
    then have "same_sock h s ?s1" by (simp add: same_sock_def)
    then show ?thesis using l True assms(2) same_sockD [of h s ?s1] by (simp add: new_socket_def)
  next
    case False
    have fd: "fd > 2" "fd \<notin> live_fds (os s)" "live_fds w = insert fd (live_fds (os s))" using w(2) False by (auto simp: fd_result_def)
    have "live_fds (os s) \<subseteq> live_fds w" "- 1 \<notin> live_fds w" using fd(1,3) assms(2) by (auto simp: sock_inv_def)
    then have i1: "sock_inv h ?s1" "uv__stream_fd h ?s1 = - 1" using os_step [OF assms(2,3)] by blast+
    obtain err s2 where s2: "same_sock h ?s1 s2"
      "uv__stream_open K h fd flags ?s1 = Some (0, set_stream_fd h fd s2) \<or> err \<noteq> 0 \<and> uv__stream_open K h fd flags ?s1 = Some (err, s2)"
      using stream_open_cases [OF i1(2)] False by (metis linorder_not_less)
    note d = same_sockD [OF s2(1)]
    have lv: "live_fds (os s2) = live_fds w" using s2(1) by (simp add: same_sock_def)
    from s2(2) show ?thesis
    proof
      assume o: "uv__stream_open K h fd flags ?s1 = Some (0, set_stream_fd h fd s2)"
      have r: "fd_result (os s) fd (os s2)" using w(2) lv by (simp add: fd_result_def)
      have "watchers s2 = watchers s" using s2(1) by (simp add: same_sock_def)
      then have "sock_inv h (set_stream_fd h fd s2)" "others h (set_stream_fd h fd s2) = live_fds (os s)"
        using set_fd_own [of h s2 s fd, OF _ _ r] d i1 False w(3) assms(2) by (simp_all add: sock_inv_def)
      moreover have "new_socket K h domain flags s = Some (0, set_stream_fd h fd s2)" using l False o assms(4) by (simp add: new_socket_def)
      moreover have "uv__stream_fd h (set_stream_fd h fd s2) = fd" by (simp add: set_stream_fd_def upd_io_def uv__stream_fd_def)
      ultimately show ?thesis using fd(1) oth by auto
    next
      assume o: "err \<noteq> 0 \<and> uv__stream_open K h fd flags ?s1 = Some (err, s2)"
      obtain rc w3 where 3: "lift_os (uv__close K fd) s2 = Some (rc, s2\<lparr>os := w3\<rparr>)" "live_fds w3 = live_fds (os s2) - {fd}"
        using lift_close [OF fd(1)] by blast
      have "live_fds w3 = live_fds (os s)" using 3(2) lv fd by auto
      then have "same_sock h s (s2\<lparr>os := w3\<rparr>)" using s2(1) by (simp add: same_sock_def)
      moreover have "new_socket K h domain flags s = Some (err, s2\<lparr>os := w3\<rparr>)" using l False o 3(1) by (simp add: new_socket_def)
      ultimately show ?thesis using assms(2) o same_sockD [of h s "s2\<lparr>os := w3\<rparr>"] by auto
    qed
  qed
qed

lemma maybe_new_socket_kept:
  fixes s :: "'a stream_loop_scheme"
  assumes "net_kernel K" and "sock_inv h s" and "flags AND UV_HANDLE_BOUND = 0" and "domain \<noteq> AF_UNSPEC"
  shows "\<exists>rc s'. maybe_new_socket K h domain flags s = Some (rc, s') \<and> sock_inv h s' \<and> others h s' = others h s \<and>
    (rc = 0 \<longrightarrow> uv__stream_fd h s' \<noteq> - 1)"
proof (cases "uv__stream_fd h s = - 1")
  case True
  then show ?thesis using new_socket_kept [OF assms(1,2) True assms(3)] assms(4) by (simp add: maybe_new_socket_def)
next
  case False
  then have "maybe_new_socket K h domain flags s = Some (0, set_flag flags h s)"
    using assms(3,4) by (simp add: maybe_new_socket_def)
  then show ?thesis using same_sockD [OF same_sock_simps(1) [of h s flags h]] assms(2) False by simp
qed

lemma resize_registered: "maybe_resize K n s = Some s' \<Longrightarrow> registered s' = registered s \<and> length (watchers s) \<le> length (watchers s')"
  by (auto simp: maybe_resize_def registered_def nth_append sysl_def Let_def split: if_splits prod.splits)

lemma io_start_registered:
  fixes s :: "'a stream_loop_scheme"
  assumes "uv__io_start K w ev s = Some s'" and "iofd (io_watchers s w) \<ge> 0"
  shows "registered s' \<subseteq> insert (nat (iofd (io_watchers s w))) (registered s) \<and> length (watchers s) \<le> length (watchers s')"
proof -
  let ?s = "upd_io w (\<lambda>x. x\<lparr>pevents := pevents x OR ev\<rparr>) s"
  obtain s1 where s1: "maybe_resize K (word_of_int (iofd (io_watchers s w)) + 1) ?s = Some s1"
    "s' = (if ioevents (io_watchers s1 w) = pevents (io_watchers s1 w) then s1 else io_enter w s1)"
    using assms(1) by (cases "maybe_resize K (word_of_int (iofd (io_watchers s w)) + 1) ?s")
      (auto simp: uv__io_start_def Let_def split: if_splits)
  have r: "registered s1 = registered s" "length (watchers s) \<le> length (watchers s1)"
    using resize_registered [OF s1(1)] by (simp_all add: registered_def upd_io_def)
  have fd: "iofd (io_watchers s1 w) = iofd (io_watchers s w)" using maybe_resize_frames(4) [OF s1(1)] by (simp add: upd_io_def)
  have "registered (io_enter w s1) \<subseteq> insert (nat (iofd (io_watchers s w))) (registered s1)" "length (watchers (io_enter w s1)) = length (watchers s1)"
    using fd by (auto simp: io_enter_def io_queue_watcher_def registered_def nth_list_update Let_def split: if_splits)
  then show ?thesis using s1(2) r by auto
qed

lemma io_start_kept:
  fixes s :: "'a stream_loop_scheme"
  assumes "net_kernel K" and "sock_inv h s" and "uv__stream_fd h s \<noteq> - 1" and "ev AND NOT IO_EVENTS = 0" and "ev \<noteq> 0"
  shows "\<exists>s'. uv__io_start K (WHandle h) ev s = Some s' \<and> sock_inv h s' \<and> others h s' = others h s \<and> delayed_error (streams s' h) = delayed_error (streams s h)"
proof -
  have w: "watcher_ok (WHandle h) s" "table_live s" "watchers s \<noteq> []" "alloc_ok K" "fd_owned (uv__stream_fd h s) s"
    using assms(1,2) by (simp_all add: sock_inv_def net_kernel_def)
  have fd: "0 \<le> iofd (io_watchers s (WHandle h))" "iofd (io_watchers s (WHandle h)) < 2 ^ 31 - 3" "iofd (io_watchers s (WHandle h)) \<in> live_fds (os s)"
    using w(5) assms(3) by (auto simp: fd_owned_def uv__stream_fd_def)
  have si: "stream_io h s" using w(1) fd(1,2) by (auto simp: watcher_ok_def stream_io_def Let_def)
  then obtain s' where s': "uv__io_start K (WHandle h) ev s = Some s'" "stream_io h s'"
    using io_start_stream [OF _ w(4) assms(4,5)] by blast
  note f = io_start_frames [OF s'(1)]
  note r = io_start_registered [OF s'(1) fd(1)]
  have "nat (iofd (io_watchers s' (WHandle h))) < length (watchers s')"
    using uv__io_start_inv [OF stream_ioD(1-3) [OF si] stream_ioD(4) [OF si] s'(1)] f(4) by simp
  then have "watcher_ok (WHandle h) s'" using stream_io_watcher [OF s'(2)] by blast
  moreover have "table_live s'" using r w(2) fd(1,3) f(5) by (auto simp: table_live_def)
  moreover have "watchers s' \<noteq> []" using r w(3) by auto
  moreover have "uv__stream_fd h s' = uv__stream_fd h s" using f(4) by (simp add: uv__stream_fd_def)
  ultimately show ?thesis using s'(1) assms(2) f(1,3,5)
    by (auto simp: sock_inv_def others_def fd_owned_def same_streams_def)
qed

text \<open>One call of the kernel on the socket.\<close>

lemma sock_effect: "fd_effect (SysSetsockopt fd a b v) r F = F" "fd_effect (SysBind fd x) r F = F" "fd_effect (SysConnect fd x) r F = F"
  "fd_effect (SysListen fd n) r F = F" "fd_effect (SysCall nm is bs) r F = F" "fd_effect (SysGetsockname fd) r F = F"
  by (simp_all add: fd_effect_def new_fds_def)

lemma sock_call_same: "(\<And>r F. fd_effect c r F = F) \<Longrightarrow> sock_call K c s = (e, s') \<Longrightarrow> same_sock h s s'"
  by (auto simp: sock_call_def Let_def split: prod.splits dest: same_sock_sysl)

lemma bind_socket_same:
  assumes "bind_socket K h addr s = (e, s')"
  shows "same_sock h s s'"
proof -
  obtain b s1 where s1: "sysl K (SysBind (uv__stream_fd h s) addr) s = (b, s1)" by fastforce
  have "same_sock h s s1" using same_sock_sysl [OF sock_effect(2) s1] .
  then show ?thesis using assms s1 by (auto simp: bind_socket_def Let_def same_sock_peels split: if_splits)
qed

lemma bind_kept:
  fixes s :: "'a stream_loop_scheme"
  assumes "net_kernel K" and "sock_inv h s"
  shows "kept h s (uv_tcp_bind K h addr v6 s)"
proof (cases "htype (handles s h) = UV_TCP")
  case False
  then show ?thesis using assms(2) by (simp add: uv_tcp_bind_def kept_same)
next
  case t: True
  show ?thesis
  proof (cases "addr_size addr")
    case None
    then show ?thesis using t kept_same [OF assms(2) same_sock_simps(8)] by (simp add: uv_tcp_bind_def)
  next
    case (Some n)
    let ?a = "take n addr"
    have n: "n = 16 \<or> n = 28" and fam: "sa_family addr = AF_INET \<or> sa_family addr = AF_INET6"
      using Some by (auto simp: addr_size_def split: if_splits)
    have f: "sa_family ?a \<noteq> AF_UNSPEC"
    proof -
      have "sa_family ?a = sa_family addr" using n by (auto simp: sa_family_def)
      then show ?thesis using fam by (auto simp: AF_INET_def AF_INET6_def AF_UNSPEC_def)
    qed
  
    have "kept h s (uv__tcp_bind K h ?a v6 s)"
    proof (cases "v6 \<and> sa_family ?a \<noteq> AF_INET6")
      case True
      then show ?thesis using assms(2) by (simp add: uv__tcp_bind_def kept_same)
    next
      case False
      obtain rc s1 where s1: "maybe_new_socket K h (sa_family ?a) 0 s = Some (rc, s1)" "sock_inv h s1" "others h s1 = others h s"
        using maybe_new_socket_kept [OF assms _ f, of 0] by auto
      obtain e2 s2 where s2: "sock_call K (SysSetsockopt (uv__stream_fd h s1) 1 2 (int_bytes 1)) s1 = (e2, s2)" by fastforce
      obtain e3 s3 where s3: "set_v6only K h ?a v6 s2 = (e3, s3)" by fastforce
      obtain e4 s4 where s4: "bind_socket K h ?a s3 = (e4, s4)" by fastforce
      have f2: "same_sock h s1 s2" using sock_call_same [OF sock_effect(1) s2] .
      have "same_sock h s2 s3" using s3 same_sock_sysl [OF sock_effect(1)] by (auto simp: set_v6only_def Let_def split: if_splits prod.splits)
      then have f3: "same_sock h s1 s3" using same_sock_trans [OF f2] by blast
      have "same_sock h s1 s4" using same_sock_trans [OF f3 bind_socket_same [OF s4]] .
      then have "\<exists>rc' s'. uv__tcp_bind K h ?a v6 s = Some (rc', s') \<and> same_sock h s1 s'"
        using False s1(1) s2 s3 s4 f2 f3 by (cases "rc = 0"; cases "e2 = 0"; cases "e3 = 0") (auto simp: uv__tcp_bind_def)
      then show ?thesis using s1(2,3) kept_same kept_from by metis
    qed
    then show ?thesis using t Some by (simp add: uv_tcp_bind_def)
  qed
qed

lemma connect_kept:
  fixes s :: "'a stream_loop_scheme"
  assumes "net_kernel K" and "sock_inv h s"
  shows "kept h s (uv_tcp_connect K r h addr c s)"
proof (cases "htype (handles s h) = UV_TCP")
  case False
  then show ?thesis using assms(2) by (simp add: uv_tcp_connect_def kept_same)
next
  case t: True
  show ?thesis
  proof (cases "addr_size addr")
    case None
    then show ?thesis using t kept_same [OF assms(2) same_sock_simps(8)] by (simp add: uv_tcp_connect_def)
  next
    case (Some n)
    let ?a = "take n addr"
    have n: "n = 16 \<or> n = 28" and fam: "sa_family addr = AF_INET \<or> sa_family addr = AF_INET6"
      using Some by (auto simp: addr_size_def split: if_splits)
    have "sa_family ?a = sa_family addr" using n by (auto simp: sa_family_def)
    then have f: "sa_family ?a \<noteq> AF_UNSPEC" using fam by (auto simp: AF_INET_def AF_INET6_def AF_UNSPEC_def)
  
    have pr: "prompt K" using assms(1) by (simp add: net_kernel_def)
    have fl: "(UV_HANDLE_READABLE OR UV_HANDLE_WRITABLE) AND UV_HANDLE_BOUND = 0"
      by (simp add: UV_HANDLE_READABLE_def UV_HANDLE_WRITABLE_def UV_HANDLE_BOUND_def)
    have "kept h s (uv__tcp_connect K r h ?a c s)"
    proof (cases "connect_req (streams s h) = None")
      case False
      then show ?thesis using assms(2) t by (simp add: uv__tcp_connect_def kept_same)
    next
      case True
      obtain rc s1 where s1: "maybe_new_socket K h (sa_family ?a) (UV_HANDLE_READABLE OR UV_HANDLE_WRITABLE) s = Some (rc, s1)" "sock_inv h s1"
        "others h s1 = others h s" "rc = 0 \<longrightarrow> uv__stream_fd h s1 \<noteq> - 1"
        using maybe_new_socket_kept [OF assms fl f] by auto
      show ?thesis
      proof (cases "rc = 0")
        case False
        then show ?thesis using s1 t True by (auto simp: uv__tcp_connect_def kept_def)
      next
        case rc: True
        let ?s1 = "upd_stream h (\<lambda>x. x\<lparr>delayed_error := 0\<rparr>) s1"
        obtain m s2 where s2: "sysl K (SysConnect (uv__stream_fd h ?s1) ?a) ?s1 = (m, s2)" by fastforce
        have f1: "same_sock h s1 ?s1" by simp
        have f2: "same_sock h s1 s2" using same_sock_trans [OF f1 same_sock_sysl [OF sock_effect(3) s2]] .
        show ?thesis
        proof (cases "connect_result m")
          case (Inl e)
          have "uv__tcp_connect K r h ?a c s = Some (e, s2)"
            using s1(1) rc t True s2 Inl by (simp add: uv__tcp_connect_def lift_retry [OF pr])
          then show ?thesis using kept_same [OF s1(2) f2, of e] kept_from [OF _ s1(3)] by simp
        next
          case (Inr e)
          define s3 where "s3 = upd_stream h (\<lambda>x. x\<lparr>connect_req := Some r\<rparr>) (new_req r h c (upd_stream h (\<lambda>x. x\<lparr>delayed_error := e\<rparr>) s2))"
          have f3: "same_sock h s1 s3"
            using f2 unfolding s3_def by (simp add: same_sock_peels)
          have i3: "sock_inv h s3" "others h s3 = others h s1" "uv__stream_fd h s3 \<noteq> - 1" using same_sockD [OF f3] s1 rc by simp_all
          obtain s4 where s4: "uv__io_start K (WHandle h) POLLOUT s3 = Some s4" "sock_inv h s4" "others h s4 = others h s3"
            using io_start_kept [OF assms(1) i3(1,3) poll_masks(2,4)] by blast
          have "uv__tcp_connect K r h ?a c s = Some (0, if delayed_error (streams s4 h) \<noteq> 0 then uv__io_feed (WHandle h) s4 else s4)"
            using s1(1) rc t True s2 Inr s4(1) by (simp add: uv__tcp_connect_def lift_retry [OF pr] s3_def)
          moreover have "same_sock h s4 (if delayed_error (streams s4 h) \<noteq> 0 then uv__io_feed (WHandle h) s4 else s4)" by simp
          ultimately show ?thesis using kept_same [OF s4(2)] kept_from s4(3) i3(2) s1(3) by metis
        qed
      qed
    qed
    then show ?thesis using t Some by (simp add: uv_tcp_connect_def)
  qed
qed

lemma single_accept_same: "same_sock h s (read_single_accept K s)"
proof (cases "single_accept s")
  case None
  obtain m s1 where s1: "sysl K (SysCall ''getenv UV_TCP_SINGLE_ACCEPT'' [] []) s = (m, s1)" by fastforce
  show ?thesis using None s1 same_sock_trans [OF same_sock_sysl [OF sock_effect(5) s1] same_sock_simps(9)]
    by (simp add: read_single_accept_def)
qed (simp add: read_single_accept_def)

lemma listen_kept:
  fixes s :: "'a stream_loop_scheme"
  assumes "net_kernel K" and "sock_inv h s"
  shows "kept h s (uv_tcp_listen K h backlog c s)"
proof (cases "delayed_error (streams s h) = 0")
  case False
  then show ?thesis using assms(2) by (simp add: uv_tcp_listen_def kept_same)
next
  case True
  define s1 where "s1 = (let s = read_single_accept K s in if single_accept s = Some True then set_flag UV_HANDLE_TCP_SINGLE_ACCEPT h s else s)"
  have f1: "same_sock h s s1"
    using single_accept_same [of h s K] by (simp add: s1_def Let_def same_sock_peels)
  have i1: "sock_inv h s1" "others h s1 = others h s" using same_sockD [OF f1] assms(2) by simp_all
  obtain rc s2 where s2: "maybe_new_socket K h AF_INET 0 s1 = Some (rc, s2)" "sock_inv h s2" "others h s2 = others h s1"
    "rc = 0 \<longrightarrow> uv__stream_fd h s2 \<noteq> - 1"
    using maybe_new_socket_kept [OF assms(1) i1(1), of 0 AF_INET] by (auto simp: AF_INET_def AF_UNSPEC_def)
  obtain e s3 where s3: "sock_call K (SysListen (uv__stream_fd h s2) backlog) s2 = (e, s3)" by fastforce
  have f3: "same_sock h s2 s3" using sock_call_same [OF sock_effect(4) s3] .
  have go: "uv_tcp_listen K h backlog c s = (if rc \<noteq> 0 then Some (rc, s2) else if e \<noteq> 0 then Some (e, s3)
     else do { s \<leftarrow> uv__io_start K (WHandle h) POLLIN (upd_io (WHandle h) (\<lambda>w. w\<lparr>io_cb := UV__SERVER_IO\<rparr>)
          (set_flag UV_HANDLE_BOUND h (upd_stream h (\<lambda>x. x\<lparr>connection_cb := c\<rparr>) s3))); Some (0, s) })"
    using True s2(1) s3 by (simp add: uv_tcp_listen_def s1_def Let_def)
  show ?thesis
  proof (cases "rc \<noteq> 0 \<or> e \<noteq> 0")
    case True
    then show ?thesis using go s2 i1 kept_same [OF s2(2)] f3 same_sockD [OF f3] by (auto simp: kept_def)
  next
    case False
    let ?s4 = "upd_io (WHandle h) (\<lambda>w. w\<lparr>io_cb := UV__SERVER_IO\<rparr>) (set_flag UV_HANDLE_BOUND h (upd_stream h (\<lambda>x. x\<lparr>connection_cb := c\<rparr>) s3))"
    have f4: "same_sock h s2 ?s4"
      using f3 by (simp add: same_sock_peels)
    have "sock_inv h ?s4" "others h ?s4 = others h s2" "uv__stream_fd h ?s4 \<noteq> - 1" using same_sockD [OF f4] s2 False by simp_all
    then obtain s5 where "uv__io_start K (WHandle h) POLLIN ?s4 = Some s5" "sock_inv h s5" "others h s5 = others h ?s4"
      using io_start_kept [OF assms(1) _ _ poll_masks(1,3)] by blast
    then show ?thesis using go False i1(2) s2(3) \<open>others h ?s4 = others h s2\<close> by (auto simp: kept_def)
  qed
qed

text \<open>Pipes.\<close>

lemma set_same_fd: "uv__stream_fd h s = fd \<Longrightarrow> same_sock h s (set_stream_fd h fd s)"
  by (auto simp: same_sock_def set_stream_fd_def upd_io_def uv__stream_fd_def)

lemma pipe_effect: "fd_effect (SysAlloc n) r F = F" by (simp add: fd_effect_def new_fds_def)

text \<open>A socket that becomes the handle's own at once.\<close>

lemma own_socket:
  fixes s :: "'a stream_loop_scheme"
  assumes "net_kernel K" and "sock_inv h s" and "uv__stream_fd h s = - 1"
  shows "\<exists>fd w. lift_os (uv__socket K domain 1 0) s = Some (fd, s\<lparr>os := w\<rparr>) \<and>
    (fd < 0 \<and> same_sock h s (s\<lparr>os := w\<rparr>) \<or>
     fd > 2 \<and> live_fds w = insert fd (live_fds (os s)) \<and> fd \<notin> live_fds (os s) \<and>
     (\<forall>t. same_sock h (s\<lparr>os := w\<rparr>) t \<longrightarrow> sock_inv h (set_stream_fd h fd t) \<and> others h (set_stream_fd h fd t) = others h s))"
proof -
  obtain fd w where w: "uv__socket K domain 1 0 (os s) = Some (fd, w)" "fd_result (os s) fd w" "fd < 2 ^ 31 - 3"
    using socket_returns [OF assms(1)] by blast
  let ?s1 = "s\<lparr>os := w\<rparr>"
  have oth: "others h s = live_fds (os s)" using assms(2,3) by (auto simp: others_def sock_inv_def)
  have l: "lift_os (uv__socket K domain 1 0) s = Some (fd, ?s1)" using w(1) by (simp add: lift_os_def)
  show ?thesis
  proof (cases "fd < 0")
    case True
    then have "live_fds w = live_fds (os s)" using w(2) by (auto simp: fd_result_def)
    then have "same_sock h s ?s1" by (simp add: same_sock_def)
    then show ?thesis using l True by blast
  next
    case False
    have fd: "fd > 2" "fd \<notin> live_fds (os s)" "live_fds w = insert fd (live_fds (os s))" using w(2) False by (auto simp: fd_result_def)
    have "live_fds (os s) \<subseteq> live_fds w" "- 1 \<notin> live_fds w" using fd(1,3) assms(2) by (auto simp: sock_inv_def)
    then have i1: "sock_inv h ?s1" "uv__stream_fd h ?s1 = - 1" using os_step [OF assms(2,3)] by blast+
    have "sock_inv h (set_stream_fd h fd t) \<and> others h (set_stream_fd h fd t) = others h s" if t: "same_sock h ?s1 t" for t
    proof -
      note d = same_sockD [OF t]
      have lv: "live_fds (os t) = live_fds w" "watchers t = watchers s" using t by (simp_all add: same_sock_def)
      have "fd_result (os s) fd (os t)" using w(2) lv(1) by (simp add: fd_result_def)
      then show ?thesis using set_fd_own [of h t s fd] d i1 lv(2) False w(3) assms(2) oth by (simp add: sock_inv_def)
    qed
    then show ?thesis using l fd by blast
  qed
qed

lemma pipe_bind_kept:
  fixes s :: "'a stream_loop_scheme"
  assumes "net_kernel K" and "sock_inv h s"
  shows "kept h s (uv_pipe_bind K h name s)"
proof (cases "uv__stream_fd h s \<ge> 0")
  case True
  then show ?thesis using kept_same [OF assms(2)] by (simp add: uv_pipe_bind_def)
next
  case False
  obtain m s1 where s1: "sysl K (SysAlloc (length name + 1)) s = (m, s1)" by fastforce
  have f1: "same_sock h s s1" using same_sock_sysl [OF pipe_effect s1] .
  have i1: "sock_inv h s1" "uv__stream_fd h s1 = - 1" "others h s1 = others h s"
    using same_sockD [OF f1] assms(2) False by (auto simp: sock_inv_def fd_owned_def)
  obtain fd w where w: "lift_os (uv__socket K AF_UNIX 1 0) s1 = Some (fd, s1\<lparr>os := w\<rparr>)"
    "fd < 0 \<and> same_sock h s1 (s1\<lparr>os := w\<rparr>) \<or> fd > 2 \<and> live_fds w = insert fd (live_fds (os s1)) \<and> fd \<notin> live_fds (os s1) \<and>
     (\<forall>t. same_sock h (s1\<lparr>os := w\<rparr>) t \<longrightarrow> sock_inv h (set_stream_fd h fd t) \<and> others h (set_stream_fd h fd t) = others h s1)"
    using own_socket [OF assms(1) i1(1,2)] by blast
  obtain b s2 where s2: "sysl K (SysBind fd (unix_addr name)) (s1\<lparr>os := w\<rparr>) = (b, s2)" by fastforce
  have f2: "same_sock h (s1\<lparr>os := w\<rparr>) s2" using same_sock_sysl [OF sock_effect(2) s2] .
  have go: "uv_pipe_bind K h name s = (if ret m = 0 then Some (UV_ENOMEM, s1) else if fd < 0 then Some (fd, s1\<lparr>os := w\<rparr>)
      else if ret b \<noteq> 0 then do { (_, s) \<leftarrow> lift_os (uv__close K fd) s2; Some (if - errno b = UV_ENOENT then UV_EACCES else - errno b, s) }
      else Some (0, set_stream_fd h fd (upd_stream h (\<lambda>x. x\<lparr>pipe_fname := Some name\<rparr>) (set_flag UV_HANDLE_BOUND h s2))))"
    using False s1 w(1) s2 by (simp add: uv_pipe_bind_def)
  consider "ret m = 0" | "ret m \<noteq> 0" "fd < 0" | "ret m \<noteq> 0" "fd > 2" using w(2) by fastforce
  then show ?thesis
  proof cases
    case 1
    then show ?thesis using go kept_same [OF assms(2) f1] by simp
  next
    case 2
    then have "same_sock h s (s1\<lparr>os := w\<rparr>)" using w(2) same_sock_trans [OF f1] by auto
    then show ?thesis using go 2 kept_same [OF assms(2)] by simp
  next
    case 3
    then have own: "live_fds w = insert fd (live_fds (os s1))" "fd \<notin> live_fds (os s1)"
      "\<And>t. same_sock h (s1\<lparr>os := w\<rparr>) t \<Longrightarrow> sock_inv h (set_stream_fd h fd t) \<and> others h (set_stream_fd h fd t) = others h s1"
      using w(2) by auto
    show ?thesis
    proof (cases "ret b = 0")
      case True
      let ?t = "upd_stream h (\<lambda>x. x\<lparr>pipe_fname := Some name\<rparr>) (set_flag UV_HANDLE_BOUND h s2)"
      have "same_sock h (s1\<lparr>os := w\<rparr>) ?t" using f2 by (simp add: same_sock_peels)
      then show ?thesis using go True 3 own(3) i1(3) by (simp add: kept_def)
    next
      case False
      obtain rc w3 where 4: "lift_os (uv__close K fd) s2 = Some (rc, s2\<lparr>os := w3\<rparr>)" "live_fds w3 = live_fds (os s2) - {fd}"
        using lift_close [OF 3(2)] by blast
      have "live_fds (os s2) = live_fds w" using f2 by (simp add: same_sock_def)
      then have "live_fds w3 = live_fds (os s1)" using 4(2) own(1,2) by auto
      then have "same_sock h s1 (s2\<lparr>os := w3\<rparr>)" using f2 by (simp add: same_sock_def)
      then have "same_sock h s (s2\<lparr>os := w3\<rparr>)" using same_sock_trans [OF f1] by blast
      then show ?thesis using go False 3 4(1) kept_same [OF assms(2)] by simp
    qed
  qed
qed

lemma pipe_listen_kept:
  fixes s :: "'a stream_loop_scheme"
  assumes "net_kernel K" and "sock_inv h s"
  shows "kept h s (uv_pipe_listen K h backlog c s)"
proof (cases "uv__stream_fd h s = - 1")
  case True
  then show ?thesis using kept_same [OF assms(2)] by (simp add: uv_pipe_listen_def)
next
  case False
  obtain e s1 where s1: "sock_call K (SysListen (uv__stream_fd h s) backlog) s = (e, s1)" by fastforce
  have f1: "same_sock h s s1" using sock_call_same [OF sock_effect(4) s1] .
  let ?s2 = "upd_io (WHandle h) (\<lambda>w. w\<lparr>io_cb := UV__SERVER_IO\<rparr>) (upd_stream h (\<lambda>x. x\<lparr>connection_cb := c\<rparr>) s1)"
  have f2: "same_sock h s ?s2" using f1 by (simp add: same_sock_peels)
  have i2: "sock_inv h ?s2" "others h ?s2 = others h s" "uv__stream_fd h ?s2 \<noteq> - 1" using same_sockD [OF f2] assms(2) False by simp_all
  obtain s3 where "uv__io_start K (WHandle h) POLLIN ?s2 = Some s3" "sock_inv h s3" "others h s3 = others h ?s2"
    using io_start_kept [OF assms(1) i2(1,3) poll_masks(1,3)] by blast
  then show ?thesis using False s1 kept_same [OF assms(2) f1] i2(2) by (cases "e = 0") (auto simp: uv_pipe_listen_def kept_def)
qed

text \<open>The part of \<^verbatim>\<open>uv_pipe_connect\<close> before the request is made: after a failure too, the handle is fit for use.\<close>

lemma reopen_same:
  fixes s :: "'a stream_loop_scheme"
  assumes "uv__stream_fd h s \<ge> 0"
  shows "\<exists>err s'. uv__stream_open K h (uv__stream_fd h s) flags s = Some (err, s') \<and> same_sock h s s'"
proof -
  let ?fd = "uv__stream_fd h s"
  let ?s = "set_flag flags h s"
  define p1 where "p1 = (if htype (handles ?s h) = UV_TCP \<and> has_flag UV_HANDLE_TCP_NODELAY h ?s then uv__tcp_nodelay K ?fd True ?s else (0, ?s))"
  obtain e1 s1 where 1: "p1 = (e1, s1)" by (cases p1)
  define p2 where "p2 = (if htype (handles ?s h) = UV_TCP \<and> has_flag UV_HANDLE_TCP_KEEPALIVE h s1 then uv__tcp_keepalive K ?fd True 60 s1 else (0, s1))"
  obtain e2 s2 where 2: "p2 = (e2, s2)" by (cases p2)
  have "same_sock h ?s s1" using 1 sockopt_same(1) by (auto simp: p1_def split: if_splits)
  then have f1: "same_sock h s s1" using same_sock_trans [OF same_sock_simps(1)] by blast
  have "same_sock h s1 s2" using 2 sockopt_same(2) by (auto simp: p2_def split: if_splits)
  then have f2: "same_sock h s s2" using f1 same_sock_trans by blast
  have "same_sock h s2 (set_stream_fd h ?fd s2)" using set_same_fd same_sockD(3) [OF f2] by blast
  then have f3: "same_sock h s (set_stream_fd h ?fd s2)" using f2 same_sock_trans by blast
  have "uv__stream_open K h ?fd flags s =
      (if e1 \<noteq> 0 then Some (e1, s1) else if e2 \<noteq> 0 then Some (e2, s2) else Some (0, set_stream_fd h ?fd s2))"
    using assms 1 2 by (simp add: uv__stream_open_def p1_def [symmetric] p2_def [symmetric] Let_def)
  then show ?thesis using f1 f2 f3 by (cases "e1 = 0"; cases "e2 = 0") auto
qed

lemma connect_pipe_kept:
  fixes s :: "'a stream_loop_scheme"
  assumes "net_kernel K" and "sock_inv h s" and "uv__stream_fd h s \<noteq> - 1"
  shows "kept h s (connect_pipe K h new_sock name s)"
proof -
  have pr: "prompt K" using assms(1) by (simp add: net_kernel_def)
  obtain n s2 where s2: "sysl K (SysConnect (uv__stream_fd h s) (unix_addr name)) s = (n, s2)" by fastforce
  have f2: "same_sock h s s2" using same_sock_sysl [OF sock_effect(3) s2] .
  have "uv__stream_fd h s2 \<ge> 0" using same_sockD(3) [OF f2] assms(2,3) by (auto simp: sock_inv_def fd_owned_def)
  then obtain err s3 where s3: "(if new_sock then uv__stream_open K h (uv__stream_fd h s2) (UV_HANDLE_READABLE OR UV_HANDLE_WRITABLE) s2
      else Some (0, s2)) = Some (err, s3)" "same_sock h s2 s3"
    using reopen_same [of h s2 K "UV_HANDLE_READABLE OR UV_HANDLE_WRITABLE"] by (cases new_sock) auto
  have f3: "same_sock h s s3" using same_sock_trans [OF f2 s3(2)] .
  have i3: "sock_inv h s3" "others h s3 = others h s" "uv__stream_fd h s3 \<noteq> - 1" using same_sockD [OF f3] assms by simp_all
  obtain s4 where s4: "uv__io_start K (WHandle h) (POLLIN OR POLLOUT) s3 = Some s4" "sock_inv h s4" "others h s4 = others h s3"
    using io_start_kept [OF assms(1) i3(1,3) poll_masks(5,6)] by blast
  have "connect_pipe K h new_sock name s = (if ret n = - 1 \<and> errno n \<noteq> EINPROGRESS then Some (- errno n, s2)
      else Some (err, if err = 0 then s4 else s3))"
    using s2 s3(1) s4(1) by (simp add: connect_pipe_def lift_retry [OF pr])
  moreover have "kept h s (Some (err, if err = 0 then s4 else s3))" using s4 i3 by (simp add: kept_def)
  ultimately show ?thesis using kept_same [OF assms(2) f2] by simp
qed

lemma pipe_connect_part_kept:
  fixes s :: "'a stream_loop_scheme"
  assumes "net_kernel K" and "sock_inv h s"
  shows "kept h s (pipe_connect K h name s)"
proof (cases "uv__stream_fd h s = - 1")
  case False
  then show ?thesis using connect_pipe_kept [OF assms False] by (simp add: pipe_connect_def)
next
  case True
  obtain fd w where w: "lift_os (uv__socket K AF_UNIX 1 0) s = Some (fd, s\<lparr>os := w\<rparr>)"
    "fd < 0 \<and> same_sock h s (s\<lparr>os := w\<rparr>) \<or> fd > 2 \<and> live_fds w = insert fd (live_fds (os s)) \<and> fd \<notin> live_fds (os s) \<and>
     (\<forall>t. same_sock h (s\<lparr>os := w\<rparr>) t \<longrightarrow> sock_inv h (set_stream_fd h fd t) \<and> others h (set_stream_fd h fd t) = others h s)"
    using own_socket [OF assms True] by blast
  show ?thesis
  proof (cases "fd < 0")
    case neg: True
    then have "same_sock h s (s\<lparr>os := w\<rparr>)" using w(2) by auto
    then show ?thesis using w(1) neg True kept_same [OF assms(2)] by (simp add: pipe_connect_def)
  next
    case False
    let ?s1 = "set_stream_fd h fd (s\<lparr>os := w\<rparr>)"
    have fd: "fd > 2" "sock_inv h ?s1" "others h ?s1 = others h s" using w(2) False by auto
    have "uv__stream_fd h ?s1 \<noteq> - 1" using fd(1) by (simp add: uv__stream_fd_def set_stream_fd_def upd_io_def)
    then have "kept h ?s1 (connect_pipe K h True name ?s1)" using connect_pipe_kept [OF assms(1) fd(2)] by blast
    then show ?thesis using kept_from [OF _ fd(3)] w(1) False True by (simp add: pipe_connect_def)
  qed
qed

lemma pipe_connect_kept:
  fixes s :: "'a stream_loop_scheme"
  assumes "net_kernel K" and "sock_inv h s"
  shows "\<exists>s'. uv_pipe_connect K r h name c s = Some s' \<and> sock_inv h s' \<and> others h s' = others h s"
proof -
  obtain err s1 where s1: "pipe_connect K h name s = Some (err, s1)" "sock_inv h s1" "others h s1 = others h s"
    using pipe_connect_part_kept [OF assms] unfolding kept_def by blast
  let ?s2 = "new_req r h c (upd_stream h (\<lambda>x. x\<lparr>delayed_error := err, connect_req := Some r\<rparr>) s1)"
  have "same_sock h s1 (if err \<noteq> 0 then uv__io_feed (WHandle h) ?s2 else ?s2)" by (simp add: same_sock_peels)
  moreover have "uv_pipe_connect K r h name c s = Some (if err \<noteq> 0 then uv__io_feed (WHandle h) ?s2 else ?s2)"
    using s1(1) by (simp add: uv_pipe_connect_def)
  ultimately show ?thesis using kept_then [OF s1(2,3)] unfolding kept_def by blast
qed

text \<open>The calls of a client on a socket, and a sequence of them. \<^verbatim>\<open>uv_pipe_connect\<close> returns nothing.\<close>

datatype sock_op = Tcp_bind "u8 list" bool | Tcp_connect rid "u8 list" "cb option" | Tcp_nodelay bool | Tcp_keepalive bool u32 |
  Tcp_simultaneous_accepts bool | Pipe_bind "u8 list" | Pipe_connect rid "u8 list" "cb option" | Listen int "cb option"

fun sock_op_call :: "kernel \<Rightarrow> hid \<Rightarrow> sock_op \<Rightarrow> 'a stream_loop_scheme \<Rightarrow> (int \<times> 'a stream_loop_scheme) option" where
  "sock_op_call K h (Tcp_bind addr v6) s = uv_tcp_bind K h addr v6 s"
| "sock_op_call K h (Tcp_connect r addr c) s = uv_tcp_connect K r h addr c s"
| "sock_op_call K h (Tcp_nodelay on) s = Some (uv_tcp_nodelay K h on s)"
| "sock_op_call K h (Tcp_keepalive on delay) s = Some (uv_tcp_keepalive K h on delay s)"
| "sock_op_call K h (Tcp_simultaneous_accepts on) s = Some (uv_tcp_simultaneous_accepts h on s)"
| "sock_op_call K h (Pipe_bind name) s = uv_pipe_bind K h name s"
| "sock_op_call K h (Pipe_connect r name c) s = map_option (Pair 0) (uv_pipe_connect K r h name c s)"
| "sock_op_call K h (Listen backlog c) s = uv_listen K h backlog c s"

fun sock_calls :: "kernel \<Rightarrow> hid \<Rightarrow> sock_op list \<Rightarrow> 'a stream_loop_scheme \<Rightarrow> 'a stream_loop_scheme option" where
  "sock_calls K h [] s = Some s"
| "sock_calls K h (x # xs) s = do { (_, s) \<leftarrow> sock_op_call K h x s; sock_calls K h xs s }"

text \<open>The part of \<^verbatim>\<open>uv_close\<close> for sockets.\<close>

definition sock_close :: "kernel \<Rightarrow> hid \<Rightarrow> 'a stream_loop_scheme \<Rightarrow> 'a stream_loop_scheme option" where
  "sock_close K h s =
     (case htype (handles s h) of UV_NAMED_PIPE \<Rightarrow> uv__pipe_close K h s | UV_TCP \<Rightarrow> uv__tcp_close K h s | _ \<Rightarrow> uv__stream_close K h s)"

lemma listen_any_kept:
  fixes s :: "'a stream_loop_scheme"
  assumes "net_kernel K" and "sock_inv h s"
  shows "kept h s (uv_listen K h backlog c s)"
proof -
  have "kept h s (if htype (handles s h) = UV_TCP then uv_tcp_listen K h backlog c s
                   else if htype (handles s h) = UV_NAMED_PIPE then uv_pipe_listen K h backlog c s else Some (UV_EINVAL, s))"
    using listen_kept [OF assms] pipe_listen_kept [OF assms] kept_same [OF assms(2)] by simp
  then obtain rc s1 where s1: "(if htype (handles s h) = UV_TCP then uv_tcp_listen K h backlog c s
                   else if htype (handles s h) = UV_NAMED_PIPE then uv_pipe_listen K h backlog c s else Some (UV_EINVAL, s)) = Some (rc, s1)"
    "sock_inv h s1" "others h s1 = others h s" unfolding kept_def by blast
  have "same_sock h s1 (uv__handle_start h s1)"
    by (auto simp: uv__handle_start_def set_flag_def uv__active_handle_add_def same_sock_def upd_handle_def Let_def)
  then have "same_sock h s1 (if rc = 0 then uv__handle_start h s1 else s1)" by simp
  then have "kept h s (Some (rc, if rc = 0 then uv__handle_start h s1 else s1))" by (rule kept_then [OF s1(2,3)])
  moreover have "uv_listen K h backlog c s = Some (rc, if rc = 0 then uv__handle_start h s1 else s1)"
    unfolding uv_listen_def s1(1) by simp
  ultimately show ?thesis by simp
qed

lemma sock_op_kept:
  fixes s :: "'a stream_loop_scheme"
  assumes "net_kernel K" and "sock_inv h s"
  shows "kept h s (sock_op_call K h x s)"
proof (cases x)
  case (Tcp_nodelay on)
  obtain e s1 where s1: "(if uv__stream_fd h s \<noteq> - 1 then uv__tcp_nodelay K (uv__stream_fd h s) on s else (0, s)) = (e, s1)" by fastforce
  have "same_sock h s s1" using s1 sockopt_same(1) by (auto split: if_splits)
  then have "\<exists>rc s'. uv_tcp_nodelay K h on s = (rc, s') \<and> same_sock h s s'" unfolding uv_tcp_nodelay_def s1 by (simp add: same_sock_peels)
  then show ?thesis using Tcp_nodelay kept_same [OF assms(2)] by auto
next
  case (Tcp_keepalive on d)
  obtain e s1 where s1: "(if uv__stream_fd h s \<noteq> - 1 then uv__tcp_keepalive K (uv__stream_fd h s) on d s else (0, s)) = (e, s1)" by fastforce
  have "same_sock h s s1" using s1 sockopt_same(2) by (auto split: if_splits)
  then have "\<exists>rc s'. uv_tcp_keepalive K h on d s = (rc, s') \<and> same_sock h s s'" unfolding uv_tcp_keepalive_def s1 by (simp add: same_sock_peels)
  then show ?thesis using Tcp_keepalive kept_same [OF assms(2)] by auto
next
  case (Tcp_simultaneous_accepts on)
  then show ?thesis using kept_same [OF assms(2)] by (simp add: uv_tcp_simultaneous_accepts_def)
next
  case (Pipe_connect r name c)
  then show ?thesis using pipe_connect_kept [OF assms, of r name c] by (auto simp: kept_def)
qed (simp_all add: bind_kept [OF assms] connect_kept [OF assms] pipe_bind_kept [OF assms] listen_any_kept [OF assms])

lemma sock_calls_kept:
  fixes s :: "'a stream_loop_scheme"
  assumes "net_kernel K"
  shows "sock_inv h s \<Longrightarrow> \<exists>s'. sock_calls K h xs s = Some s' \<and> sock_inv h s' \<and> others h s' = others h s"
proof (induction xs arbitrary: s)
  case (Cons x xs)
  obtain rc s1 where s1: "sock_op_call K h x s = Some (rc, s1)" "sock_inv h s1" "others h s1 = others h s"
    using sock_op_kept [OF assms Cons.prems] unfolding kept_def by blast
  then show ?case using Cons.IH [OF s1(2)] by auto
qed simp

lemma sock_closable:
  assumes "sock_inv h s"
  shows "closable h s" "live_fds (os s) - owned_fds h s = others h s"
  using assms by (auto simp: sock_inv_def closable_def fds_ok_def pending_fds_def owned_fds_def others_def fd_owned_def)

lemma sock_close_ok:
  fixes s :: "'a stream_loop_scheme"
  assumes "sock_inv h s"
  shows "\<exists>s'. sock_close K h s = Some s' \<and> live_fds (os s') = others h s \<and> uv__stream_fd h s' = - 1 \<and> \<not> uv__is_active h s'"
proof -
  define s1 where "s1 = (case pipe_fname (streams s h) of None \<Rightarrow> s
     | Some name \<Rightarrow> upd_stream h (\<lambda>x. x\<lparr>pipe_fname := None\<rparr>) (snd (sysl K (SysCall ''unlink'' [] name) s)))"
  have "same_sock h s s1"
  proof (cases "pipe_fname (streams s h)")
    case (Some name)
    obtain m s0 where s0: "sysl K (SysCall ''unlink'' [] name) s = (m, s0)" by fastforce
    show ?thesis using same_sock_sysl [OF sock_effect(5) s0] Some s0 by (simp add: s1_def same_sock_peels)
  qed (simp add: s1_def)
  then have i: "sock_inv h s1" "others h s1 = others h s" using same_sockD assms by blast+
  have p: "\<exists>s'. uv__stream_close K h t = Some s' \<and> live_fds (os s') = others h t \<and> uv__stream_fd h s' = - 1 \<and> \<not> uv__is_active h s'"
    if "sock_inv h t" for t :: "'a stream_loop_scheme"
    using stream_close_ok [OF sock_closable(1) [OF that], of K] sock_closable(2) [OF that] by auto
  have "uv__pipe_close K h s = uv__stream_close K h s1" by (simp add: uv__pipe_close_def s1_def)
  then show ?thesis using p [OF assms] p [OF i(1)] i(2) by (simp add: sock_close_def uv__tcp_close_def split: uv_handle_type.split)
qed


text \<open>A new handle on the demonstration kernel: it is connected and set up, and closed.\<close>

definition new_tcp :: stream_loop where
  "new_tcp = (open_stream UV_TCP 2 (- 1))\<lparr>watchers := [None]\<rparr>"

lemma new_sock_inv: "sock_inv 2 new_tcp" "live_fds (os new_tcp) = {}"
proof -
  show "live_fds (os new_tcp) = {}" using open_stream_eqs(12) [of UV_TCP 2 "- 1"] by (simp add: new_tcp_def live_fds_def)
  moreover have r: "registered new_tcp = {}" by (auto simp: registered_def new_tcp_def nth_Cons')
  moreover have "io_inv new_tcp" unfolding io_inv_def r by (simp add: new_tcp_def open_stream_eqs)
  ultimately show "sock_inv 2 new_tcp"
    by (auto simp: sock_inv_def watcher_ok_def table_live_def new_tcp_def open_stream_eqs no_stream_def stream_kind_def
        fd_owned_def uv__stream_fd_def Let_def)
qed

definition one_fd_kernel :: kernel where
  "one_fd_kernel tr c = \<lparr>ret = (if opens c then (if 3 \<in> fold (\<lambda>(c, r). fd_effect c r) tr {} then - 1 else 3)
       else if opens_pair c then - 1 else case c of SysAlloc n \<Rightarrow> 1 | _ \<Rightarrow> 0),
     errno = 24, rdata = [], revents = [], rfds = [], rtime = (0, 0)\<rparr>"

lemma one_fd_kernel_net: "net_kernel one_fd_kernel"
proof -
  have "kernel_ok one_fd_kernel"
    by (auto simp: kernel_ok_def one_fd_kernel_def new_fds_def live_fds_def Let_def)
  moreover have "prompt one_fd_kernel" by (simp add: prompt_def one_fd_kernel_def EINTR_def)
  moreover have "alloc_ok one_fd_kernel" by (simp add: alloc_ok_def one_fd_kernel_def)
  moreover have "small_fds one_fd_kernel" by (simp add: small_fds_def one_fd_kernel_def)
  ultimately show ?thesis by (simp add: net_kernel_def)
qed


end
