(* ===== verification/ThreadPool.thy ===== *)
theory ThreadPool
  imports Steps "HOL-Library.Multiset"
begin

text \<open>
  The thread pool, \<^verbatim>\<open>3rd/libuv/src/threadpool.c\<close>: worker threads take work from a queue, the thread of the
  loop submits and cancels work and gets back what is done.

  A step is one acquisition of a mutex, or a critical section with the release of the mutex at its end, or the
  execution of a piece of work, or a callback. The condition variable is the set of workers that wait: a
  signal wakes one of them, if there is one, and a worker may also wake by itself. The async handle that tells the
  loop about finished work is a flag; that no send is lost is shown in \<open>AsyncRace\<close>. There is one loop; \<^verbatim>\<open>uv_queue_work\<close> and
  \<^verbatim>\<open>uv_cancel\<close> are called on its thread, between the callbacks and from them. A client cancels only work that it has
  submitted and that has not been answered.
\<close>

subsection \<open>The pool\<close>

type_synonym work = nat

datatype qitem = Work work | Exit

text \<open>The field \<^verbatim>\<open>work\<close> of \<^verbatim>\<open>struct uv__work\<close>: the function to run, \<^verbatim>\<open>uv__cancelled\<close>, or null.\<close>

datatype work_fn = Fun | Cancelled | Null

datatype owner = Loop | Worker nat

datatype worker = Ready | Holding | Waiting | Woken | Running work | Ran work | Finishing work | Stopped

datatype loop_act = LFree | LPost qitem | LPosting qitem | LCancel work | LCancelG work | LCancelGL work | LRequeue work | LRequeueL work |
  LDrain | LDraining

record pool =
  wq :: "qitem list"
  mutex :: "owner option"
  idle_threads :: nat
  workers :: "worker list"
  loop_wq :: "work list"
  wq_mutex :: "owner option"
  async :: bool
  local_wq :: "work list"
  act :: loop_act
  fn :: "work \<Rightarrow> work_fn"
  node_empty :: "work \<Rightarrow> bool"
  active :: nat
  submitted :: "work list"
  executed :: "work list"
  answers :: "(work \<times> int) list"
  refused :: "work list"

text \<open>
  \<open>node_empty w\<close> says that the queue node of \<open>w\<close> is an empty queue, \<open>active\<close> is the loop's count of requests. \<open>submitted\<close>,
  \<open>executed\<close>, \<open>answers\<close> and \<open>refused\<close> are ghosts: the work submitted, the executions of work, the calls of \<^verbatim>\<open>done\<close> with their
  status and the cancellations that returned \<^verbatim>\<open>UV_EBUSY\<close>.
\<close>

definition UV_ECANCELED :: int where "UV_ECANCELED = - 125"
definition MAX_THREADPOOL_SIZE :: nat where "MAX_THREADPOOL_SIZE = 128"

text \<open>
  \<^verbatim>\<open>init_threads\<close>: the number of threads, from the value of \<^verbatim>\<open>UV_THREADPOOL_SIZE\<close> as a number, if it is set, and whether
  the memory for more than four threads was there.
\<close>

definition pool_size :: "int option \<Rightarrow> bool \<Rightarrow> nat" where
  "pool_size val memory =
     (let n = (case val of None \<Rightarrow> 4 | Some v \<Rightarrow> nat (v mod 2 ^ 32));
          n = (if n = 0 then 1 else n);
          n = (if n > MAX_THREADPOOL_SIZE then MAX_THREADPOOL_SIZE else n)
      in if n > 4 \<and> \<not> memory then 4 else n)"

definition pool_start :: "nat \<Rightarrow> pool" where
  "pool_start n = \<lparr>wq = [], mutex = None, idle_threads = 0, workers = replicate n Ready, loop_wq = [], wq_mutex = None, async = False,
     local_wq = [], act = LFree, fn = (\<lambda>_. Null), node_empty = (\<lambda>_. True), active = 0, submitted = [], executed = [], answers = [], refused = []\<rparr>"

text \<open>\<^verbatim>\<open>uv_cond_signal\<close>\<close>

inductive signal :: "worker list \<Rightarrow> worker list \<Rightarrow> bool" where
  signal_one: "i < length ws \<Longrightarrow> ws ! i = Waiting \<Longrightarrow> signal ws (ws[i := Woken])"
| signal_none: "Waiting \<notin> set ws \<Longrightarrow> signal ws ws"

abbreviation set_worker :: "nat \<Rightarrow> worker \<Rightarrow> pool \<Rightarrow> pool" where
  "set_worker i x s \<equiv> s\<lparr>workers := (workers s)[i := x]\<rparr>"

text \<open>The function \<^verbatim>\<open>worker\<close>, run by thread number \<open>i\<close>.\<close>

inductive worker_step :: "nat \<Rightarrow> pool \<Rightarrow> pool \<Rightarrow> bool" for i where
  worker_lock: "i < length (workers s) \<Longrightarrow> workers s ! i = Ready \<Longrightarrow> mutex s = None \<Longrightarrow>
    worker_step i s (set_worker i Holding (s\<lparr>mutex := Some (Worker i)\<rparr>))"
| worker_wait: "i < length (workers s) \<Longrightarrow> workers s ! i = Holding \<Longrightarrow> wq s = [] \<Longrightarrow>
    worker_step i s (set_worker i Waiting (s\<lparr>mutex := None, idle_threads := idle_threads s + 1\<rparr>))"
| worker_woken: "i < length (workers s) \<Longrightarrow> workers s ! i = Woken \<Longrightarrow> mutex s = None \<Longrightarrow>
    worker_step i s (set_worker i Holding (s\<lparr>mutex := Some (Worker i), idle_threads := idle_threads s - 1\<rparr>))"
| worker_exit: "i < length (workers s) \<Longrightarrow> workers s ! i = Holding \<Longrightarrow> wq s = Exit # q \<Longrightarrow> signal (workers s) ws \<Longrightarrow>
    worker_step i s (s\<lparr>mutex := None, workers := ws[i := Stopped]\<rparr>)"
| worker_take: "i < length (workers s) \<Longrightarrow> workers s ! i = Holding \<Longrightarrow> wq s = Work w # q \<Longrightarrow>
    worker_step i s (set_worker i (Running w) (s\<lparr>mutex := None, wq := q, node_empty := (node_empty s)(w := True)\<rparr>))"
| worker_run: "i < length (workers s) \<Longrightarrow> workers s ! i = Running w \<Longrightarrow>
    worker_step i s (set_worker i (Ran w) (s\<lparr>executed := executed s @ [w]\<rparr>))"
| worker_lock_loop: "i < length (workers s) \<Longrightarrow> workers s ! i = Ran w \<Longrightarrow> wq_mutex s = None \<Longrightarrow>
    worker_step i s (set_worker i (Finishing w) (s\<lparr>wq_mutex := Some (Worker i)\<rparr>))"
| worker_finish: "i < length (workers s) \<Longrightarrow> workers s ! i = Finishing w \<Longrightarrow>
    worker_step i s (set_worker i Ready (s\<lparr>wq_mutex := None, fn := (fn s)(w := Null), loop_wq := loop_wq s @ [w],
      node_empty := (node_empty s)(w := False), async := True\<rparr>))"

text \<open>\<^verbatim>\<open>post\<close>, called with a piece of work by \<^verbatim>\<open>uv__work_submit\<close> and with the exit message by \<^verbatim>\<open>cleanup\<close>.\<close>

definition post_item :: "qitem \<Rightarrow> pool \<Rightarrow> worker list \<Rightarrow> pool" where
  "post_item x s ws = s\<lparr>wq := wq s @ [x], workers := ws, mutex := None, act := LFree,
     node_empty := (case x of Work w \<Rightarrow> (node_empty s)(w := False) | Exit \<Rightarrow> node_empty s)\<rparr>"

text \<open>\<^verbatim>\<open>uv__work_cancel\<close>: what it finds with both mutexes held, and the removal from the queue.\<close>

definition cancellable :: "pool \<Rightarrow> work \<Rightarrow> bool" where
  "cancellable s w \<longleftrightarrow> \<not> node_empty s w \<and> fn s w \<noteq> Null"

definition unlink_work :: "work \<Rightarrow> pool \<Rightarrow> pool" where
  "unlink_work w s = s\<lparr>wq := remove1 (Work w) (wq s), loop_wq := remove1 w (loop_wq s), local_wq := remove1 w (local_wq s)\<rparr>"

text \<open>The thread of the loop, inside \<^verbatim>\<open>post\<close>, \<^verbatim>\<open>uv__work_cancel\<close> and \<^verbatim>\<open>uv__work_done\<close>.\<close>

inductive pool_loop_step :: "pool \<Rightarrow> pool \<Rightarrow> bool" where
  post_lock: "act s = LPost x \<Longrightarrow> mutex s = None \<Longrightarrow> pool_loop_step s (s\<lparr>act := LPosting x, mutex := Some Loop\<rparr>)"
| post_signal: "act s = LPosting x \<Longrightarrow> idle_threads s > 0 \<Longrightarrow> signal (workers s) ws \<Longrightarrow> pool_loop_step s (post_item x s ws)"
| post_quiet: "act s = LPosting x \<Longrightarrow> idle_threads s = 0 \<Longrightarrow> pool_loop_step s (post_item x s (workers s))"
| cancel_lock: "act s = LCancel w \<Longrightarrow> mutex s = None \<Longrightarrow> pool_loop_step s (s\<lparr>act := LCancelG w, mutex := Some Loop\<rparr>)"
| cancel_lock_loop: "act s = LCancelG w \<Longrightarrow> wq_mutex s = None \<Longrightarrow> pool_loop_step s (s\<lparr>act := LCancelGL w, wq_mutex := Some Loop\<rparr>)"
| cancel_busy: "act s = LCancelGL w \<Longrightarrow> \<not> cancellable s w \<Longrightarrow>
    pool_loop_step s (s\<lparr>act := LFree, mutex := None, wq_mutex := None, refused := refused s @ [w]\<rparr>)"
| cancel_found: "act s = LCancelGL w \<Longrightarrow> cancellable s w \<Longrightarrow>
    pool_loop_step s ((unlink_work w s)\<lparr>act := LRequeue w, mutex := None, wq_mutex := None, fn := (fn s)(w := Cancelled)\<rparr>)"
| requeue_lock: "act s = LRequeue w \<Longrightarrow> wq_mutex s = None \<Longrightarrow> pool_loop_step s (s\<lparr>act := LRequeueL w, wq_mutex := Some Loop\<rparr>)"
| requeue: "act s = LRequeueL w \<Longrightarrow>
    pool_loop_step s (s\<lparr>act := LFree, wq_mutex := None, loop_wq := loop_wq s @ [w], node_empty := (node_empty s)(w := False), async := True\<rparr>)"
| drain_begin: "act s = LFree \<Longrightarrow> local_wq s = [] \<Longrightarrow> async s \<Longrightarrow> pool_loop_step s (s\<lparr>act := LDrain, async := False\<rparr>)"
| drain_lock: "act s = LDrain \<Longrightarrow> wq_mutex s = None \<Longrightarrow> pool_loop_step s (s\<lparr>act := LDraining, wq_mutex := Some Loop\<rparr>)"
| drain: "act s = LDraining \<Longrightarrow> pool_loop_step s (s\<lparr>act := LFree, wq_mutex := None, local_wq := loop_wq s, loop_wq := []\<rparr>)"
| answer: "act s = LFree \<Longrightarrow> local_wq s = w # q \<Longrightarrow>
    pool_loop_step s (s\<lparr>local_wq := q, active := active s - 1,
      answers := answers s @ [(w, if fn s w = Cancelled then UV_ECANCELED else 0)]\<rparr>)"

text \<open>The work that is somewhere in the pool.\<close>

fun work_of :: "qitem \<Rightarrow> work list" where
  "work_of (Work w) = [w]"
| "work_of Exit = []"

fun worker_work :: "worker \<Rightarrow> work list" where
  "worker_work (Running w) = [w]"
| "worker_work (Ran w) = [w]"
| "worker_work (Finishing w) = [w]"
| "worker_work _ = []"

fun act_work :: "loop_act \<Rightarrow> work list" where
  "act_work (LPost x) = work_of x"
| "act_work (LPosting x) = work_of x"
| "act_work (LRequeue w) = [w]"
| "act_work (LRequeueL w) = [w]"
| "act_work _ = []"

definition items :: "pool \<Rightarrow> work list" where
  "items s = concat (map work_of (wq s)) @ concat (map worker_work (workers s)) @ loop_wq s @ local_wq s @ act_work (act s)"

text \<open>New work: \<^verbatim>\<open>uv_queue_work\<close> of a request that is not in use, \<^verbatim>\<open>uv_cancel\<close> of one that is, and the end of the process.\<close>

inductive client_step :: "pool \<Rightarrow> pool \<Rightarrow> bool" where
  submit: "act s = LFree \<Longrightarrow> w \<notin> set (items s) \<Longrightarrow>
    client_step s (s\<lparr>act := LPost (Work w), fn := (fn s)(w := Fun), active := active s + 1, submitted := submitted s @ [w]\<rparr>)"
| cancel: "act s = LFree \<Longrightarrow> w \<in> set (items s) \<Longrightarrow> client_step s (s\<lparr>act := LCancel w\<rparr>)"
| cleanup: "act s = LFree \<Longrightarrow> workers s \<noteq> [] \<Longrightarrow> client_step s (s\<lparr>act := LPost Exit\<rparr>)"

text \<open>A worker wakes though nobody has signalled.\<close>

inductive spurious :: "pool \<Rightarrow> pool \<Rightarrow> bool" where
  spurious_wake: "i < length (workers s) \<Longrightarrow> workers s ! i = Waiting \<Longrightarrow> spurious s (set_worker i Woken s)"

definition pool_work :: "pool \<Rightarrow> pool \<Rightarrow> bool" where
  "pool_work s s' \<longleftrightarrow> pool_loop_step s s' \<or> (\<exists>i. worker_step i s s')"

definition pool_step :: "pool \<Rightarrow> pool \<Rightarrow> bool" where
  "pool_step s s' \<longleftrightarrow> pool_work s s' \<or> client_step s s' \<or> spurious s s'"

inductive_simps signal_simps: "signal ws ws'"

subsection \<open>Where the work is\<close>

lemma worker_work_update:
  "i < length ws \<Longrightarrow> mset (concat (map worker_work (ws[i := x]))) + mset (worker_work (ws ! i)) = mset (concat (map worker_work ws)) + mset (worker_work x)"
proof (induction ws arbitrary: i)
  case (Cons w ws)
  then show ?case by (cases i) auto
qed simp

lemma worker_work_same: "worker_work x = worker_work (ws ! i) \<Longrightarrow> concat (map worker_work (ws[i := x])) = concat (map worker_work ws)"
proof (induction ws arbitrary: i)
  case (Cons w ws)
  then show ?case by (cases i) auto
qed simp

lemma signal_cases:
  assumes "signal ws ws'"
  obtains i where "i < length ws" "ws ! i = Waiting" "ws' = ws[i := Woken]" | "Waiting \<notin> set ws" "ws' = ws"
  using assms by cases auto

lemma signal_work: "signal ws ws' \<Longrightarrow> concat (map worker_work ws') = concat (map worker_work ws)"
  by (erule signal_cases) (simp_all add: worker_work_same)

lemma signal_length: "signal ws ws' \<Longrightarrow> length ws' = length ws"
  by (erule signal_cases) simp_all

lemma signal_nth: "signal ws ws' \<Longrightarrow> i < length ws \<Longrightarrow> ws ! i \<noteq> Waiting \<Longrightarrow> ws' ! i = ws ! i"
  by (erule signal_cases) (auto simp: nth_list_update)

text \<open>Cancelled work is in one of the queues, and leaves it.\<close>

lemma remove1_work: "mset (concat (map work_of (remove1 (Work w) q))) = mset (concat (map work_of q)) - (if Work w \<in> set q then {#w#} else {#})"
proof (induction q)
  case (Cons x q)
  show ?case
  proof (cases "x = Work w")
    case False
    then have "x \<noteq> Work w" .
    moreover have "w \<in># mset (concat (map work_of q))" if "Work w \<in> set q" using that by force
    ultimately show ?thesis using Cons by (cases x) (auto simp: insert_DiffM2)
  qed simp
qed simp

lemma wq_work: "w \<in> set (concat (map work_of q)) \<longleftrightarrow> Work w \<in> set q"
proof (induction q)
  case (Cons x q)
  then show ?case by (cases x) auto
qed simp

definition in_workers :: "pool \<Rightarrow> work list" where
  "in_workers s = concat (map worker_work (workers s))"

definition work_ok :: "pool \<Rightarrow> bool" where
  "work_ok s \<longleftrightarrow> distinct (items s) \<and>
     (\<forall>w. Work w \<in> set (wq s) \<longrightarrow> fn s w = Fun \<and> \<not> node_empty s w) \<and>
     (\<forall>w\<in>set (in_workers s). fn s w = Fun \<and> node_empty s w) \<and>
     (\<forall>w\<in>set (loop_wq s) \<union> set (local_wq s). fn s w \<noteq> Fun \<and> \<not> node_empty s w) \<and>
     (\<forall>w. act s \<in> {LPost (Work w), LPosting (Work w)} \<longrightarrow> fn s w = Fun) \<and>
     (\<forall>w. act s \<in> {LRequeue w, LRequeueL w} \<longrightarrow> fn s w = Cancelled) \<and>
     (\<forall>w. act s \<in> {LCancel w, LCancelG w, LCancelGL w} \<longrightarrow> w \<in> set (items s)) \<and>
     (act s \<in> {LDrain, LDraining} \<longrightarrow> local_wq s = [])"

lemma unlink_items:
  assumes "work_ok s" and "act s = LCancelGL w" and "cancellable s w"
  shows "mset (items (unlink_work w s)) + {#w#} = mset (items s)"
proof -
  have i: "w \<in> set (items s)" "distinct (items s)" using assms(1,2) by (auto simp: work_ok_def)
  have "w \<notin> set (in_workers s)" using assms(1,3) by (auto simp: work_ok_def cancellable_def)
  then consider "Work w \<in> set (wq s)" "w \<notin> set (loop_wq s)" "w \<notin> set (local_wq s)"
    | "Work w \<notin> set (wq s)" "w \<in> set (loop_wq s)" "w \<notin> set (local_wq s)"
    | "Work w \<notin> set (wq s)" "w \<notin> set (loop_wq s)" "w \<in> set (local_wq s)"
    using i assms(2) by (auto simp: items_def in_workers_def wq_work [symmetric] simp del: set_concat)
  then show ?thesis
  proof cases
    case 1
    then have "w \<in># mset (concat (map work_of (wq s)))" using wq_work by simp
    then show ?thesis using 1 assms(2) by (simp add: items_def unlink_work_def remove1_work remove1_idem)
  next
    case 2
    then show ?thesis using assms(2) by (simp add: items_def unlink_work_def remove1_work remove1_idem)
  next
    case 3
    then show ?thesis using assms(2) by (simp add: items_def unlink_work_def remove1_work remove1_idem)
  qed
qed
lemma items_parts: "items s = concat (map work_of (wq s)) @ in_workers s @ loop_wq s @ local_wq s @ act_work (act s)"
  by (simp add: items_def in_workers_def)

lemma work_ok_cong:
  assumes "work_ok s" and "wq s' = wq s" and "in_workers s' = in_workers s" and "loop_wq s' = loop_wq s" and "local_wq s' = local_wq s"
    and "act s' = act s" and "fn s' = fn s" and "node_empty s' = node_empty s"
  shows "work_ok s'" "items s' = items s"
proof -
  show e: "items s' = items s" unfolding items_parts assms(2-6) ..
  show "work_ok s'" using assms(1) unfolding work_ok_def e assms(2-8) .
qed

lemma work_okD:
  assumes "work_ok s"
  shows "distinct (items s)" "Work w \<in> set (wq s) \<Longrightarrow> fn s w = Fun \<and> \<not> node_empty s w"
    "w \<in> set (in_workers s) \<Longrightarrow> fn s w = Fun \<and> node_empty s w"
    "w \<in> set (loop_wq s) \<Longrightarrow> fn s w \<noteq> Fun \<and> \<not> node_empty s w" "w \<in> set (local_wq s) \<Longrightarrow> fn s w \<noteq> Fun \<and> \<not> node_empty s w"
    "act s = LPost (Work w) \<or> act s = LPosting (Work w) \<Longrightarrow> fn s w = Fun" "act s = LRequeue w \<or> act s = LRequeueL w \<Longrightarrow> fn s w = Cancelled"
    "act s = LCancel w \<or> act s = LCancelG w \<or> act s = LCancelGL w \<Longrightarrow> w \<in> set (items s)"
    "act s = LDrain \<or> act s = LDraining \<Longrightarrow> local_wq s = []"
  using assms by (auto simp: work_ok_def)

lemma items_distinct: "mset (items s') = mset (items s) \<Longrightarrow> distinct (items s) \<Longrightarrow> distinct (items s') \<and> set (items s') = set (items s)"
  by (metis mset_eq_imp_distinct_iff set_mset_mset)

lemma worker_update_in:
  "i < length (workers s) \<Longrightarrow> workers s' = (workers s)[i := x] \<Longrightarrow>
    mset (in_workers s') + mset (worker_work (workers s ! i)) = mset (in_workers s) + mset (worker_work x)"
  by (simp add: in_workers_def worker_work_update)

lemma worker_update_same:
  "workers s' = (workers s)[i := x] \<Longrightarrow> worker_work x = worker_work (workers s ! i) \<Longrightarrow> in_workers s' = in_workers s"
  unfolding in_workers_def by (simp only: worker_work_same)

text \<open>A worker that takes work from the queue, and one that hands it to the loop.\<close>

lemma worker_take_items:
  assumes "i < length (workers s)" and "workers s ! i = Holding" and "wq s = Work w # q" and "workers s' = (workers s)[i := Running w]"
    and "wq s' = q" and "loop_wq s' = loop_wq s" and "local_wq s' = local_wq s" and "act s' = act s"
  shows "mset (in_workers s') = add_mset w (mset (in_workers s))" "mset (items s') = mset (items s)"
proof -
  show w: "mset (in_workers s') = add_mset w (mset (in_workers s))" using worker_update_in [OF assms(1,4)] assms(2) by simp
  show "mset (items s') = mset (items s)" unfolding items_parts mset_append w using assms by simp
qed

lemma worker_finish_items:
  assumes "i < length (workers s)" and "workers s ! i = Finishing w" and "workers s' = (workers s)[i := Ready]"
    and "wq s' = wq s" and "loop_wq s' = loop_wq s @ [w]" and "local_wq s' = local_wq s" and "act s' = act s"
  shows "mset (in_workers s) = add_mset w (mset (in_workers s'))" "mset (items s') = mset (items s)"
proof -
  show w: "mset (in_workers s) = add_mset w (mset (in_workers s'))" using worker_update_in [OF assms(1,3)] assms(2) by simp
  show "mset (items s') = mset (items s)" unfolding items_parts mset_append w using assms by simp
qed

lemma worker_step_work:
  assumes "worker_step i s s'" and "work_ok s"
  shows "work_ok s'" "mset (items s') = mset (items s)"
proof -
  note d = work_okD [OF assms(2)]
  have same: "work_ok s' \<and> mset (items s') = mset (items s)"
    if "wq s' = wq s" "in_workers s' = in_workers s" "loop_wq s' = loop_wq s" "local_wq s' = local_wq s" "act s' = act s" "fn s' = fn s" "node_empty s' = node_empty s"
    using work_ok_cong [OF assms(2) that] by simp
  have "work_ok s' \<and> mset (items s') = mset (items s)"
    using assms(1)
  proof cases
    case worker_lock
    then show ?thesis by (intro same worker_update_same [of s' s i "Holding"]) simp_all
  next
    case worker_wait
    then show ?thesis by (intro same worker_update_same [of s' s i "Waiting"]) simp_all
  next
    case worker_woken
    then show ?thesis by (intro same worker_update_same [of s' s i "Holding"]) simp_all
  next
    case (worker_exit q ws)
    have "worker_work (ws ! i) = []" using signal_nth [OF worker_exit(5)] worker_exit(2,3) by simp
    then have "in_workers s' = in_workers s"
      using worker_work_same [of Stopped ws i] signal_work [OF worker_exit(5)] worker_exit(1) by (simp add: in_workers_def)
    then show ?thesis using worker_exit(1) by (intro same) simp_all
  next
    case (worker_take w q)
    have it: "mset (in_workers s') = add_mset w (mset (in_workers s))" "mset (items s') = mset (items s)"
      by (rule worker_take_items [of i s w q s']; use worker_take in simp)+
    then have st: "set (in_workers s') = insert w (set (in_workers s))" by (metis set_mset_add_mset_insert set_mset_mset)
    have w: "fn s w = Fun" using d(2) worker_take(4) by simp
    have "distinct (items s)" "items s = w # concat (map work_of q) @ in_workers s @ loop_wq s @ local_wq s @ act_work (act s)"
      using d(1) worker_take(4) by (simp_all add: items_parts)
    then have nw: "Work w \<notin> set q" "w \<notin> set (loop_wq s)" "w \<notin> set (local_wq s)" using wq_work [of w q] by auto
    have "work_ok s'" unfolding work_ok_def
    proof (intro conjI)
      show "distinct (items s')" using items_distinct [OF it(2) d(1)] by simp
      show "\<forall>v. act s' \<in> {LCancel v, LCancelG v, LCancelGL v} \<longrightarrow> v \<in> set (items s')"
        using items_distinct [OF it(2) d(1)] d(8) worker_take(1) by auto
    qed (use worker_take(1,4) w nw d st in auto)
    then show ?thesis using it(2) by blast
  next
    case (worker_run w)
    then show ?thesis by (intro same worker_update_same [of s' s i "Ran w"]) simp_all
  next
    case (worker_lock_loop w)
    then show ?thesis by (intro same worker_update_same [of s' s i "Finishing w"]) simp_all
  next
    case (worker_finish w)
    have it: "mset (in_workers s) = add_mset w (mset (in_workers s'))" "mset (items s') = mset (items s)"
      by (rule worker_finish_items [of i s w s']; use worker_finish in simp)+
    have "distinct (items s)" using d(1) .
    then have "distinct (in_workers s)" by (simp add: items_parts)
    then have st: "set (in_workers s) = insert w (set (in_workers s'))" "w \<notin> set (in_workers s')"
      using it(1) by (metis set_mset_add_mset_insert set_mset_mset, metis distinct.simps(2) mset.simps(2) mset_eq_imp_distinct_iff)
    have nw: "Work w \<notin> set (wq s)" "act s \<noteq> LPost (Work w)" "act s \<noteq> LPosting (Work w)" "act s \<noteq> LRequeue w" "act s \<noteq> LRequeueL w"
      using d(1) st(1) wq_work [of w "wq s"] by (auto simp: items_parts)
    have "work_ok s'" unfolding work_ok_def
    proof (intro conjI)
      show "distinct (items s')" using items_distinct [OF it(2) d(1)] by simp
      show "\<forall>v. act s' \<in> {LCancel v, LCancelG v, LCancelGL v} \<longrightarrow> v \<in> set (items s')"
        using items_distinct [OF it(2) d(1)] d(8) worker_finish(1) by auto
    qed (use worker_finish(1) nw d st in auto)
    then show ?thesis using it(2) by blast
  qed
  then show "work_ok s'" "mset (items s') = mset (items s)" by blast+
qed
lemma post_items:
  assumes "act s = LPosting x" and "s' = post_item x s ws" and "concat (map worker_work ws) = in_workers s"
  shows "mset (items s') = mset (items s)" "in_workers s' = in_workers s"
  using assms by (simp_all add: items_parts in_workers_def post_item_def)

lemma post_work:
  assumes "act s = LPosting x" and "s' = post_item x s ws" and "concat (map worker_work ws) = in_workers s" and "work_ok s"
  shows "work_ok s'"
proof -
  note d = work_okD [OF assms(4)]
  note it = post_items [OF assms(1-3)]
  have w: "w \<notin> set (in_workers s)" "fn s w = Fun" if "x = Work w" for w
    using d(1) d(6) [of w] assms(1) that by (auto simp: items_parts)
  show ?thesis unfolding work_ok_def
  proof (intro conjI)
    show "distinct (items s')" using items_distinct [OF it(1) d(1)] by simp
  qed (use assms(1,2) it(2) w d(2-5) in \<open>auto simp: post_item_def split: qitem.splits\<close>)
qed

text \<open>A change of what the loop's thread does that keeps the work where it is.\<close>

lemma act_work_ok:
  assumes "work_ok s" and "wq s' = wq s" and "in_workers s' = in_workers s" and "loop_wq s' = loop_wq s" and "local_wq s' = local_wq s"
    and "fn s' = fn s" and "node_empty s' = node_empty s" and "act_work (act s') = act_work (act s)"
    and "\<forall>w. act s' \<in> {LPost (Work w), LPosting (Work w)} \<longrightarrow> fn s w = Fun" and "\<forall>w. act s' \<in> {LRequeue w, LRequeueL w} \<longrightarrow> fn s w = Cancelled"
    and "\<forall>w. act s' \<in> {LCancel w, LCancelG w, LCancelGL w} \<longrightarrow> w \<in> set (items s)"
    and "act s' \<in> {LDrain, LDraining} \<longrightarrow> local_wq s = []"
  shows "work_ok s'" "items s' = items s"
proof -
  show e: "items s' = items s" unfolding items_parts assms(2-5,8) ..
  show "work_ok s'" using assms(1,9-12) unfolding work_ok_def e assms(2-7) by blast
qed

definition answered :: "pool \<Rightarrow> work list" where
  "answered s = map fst (answers s)"

lemma pool_loop_step_work:
  assumes "pool_loop_step s s'" and "work_ok s"
  shows "work_ok s'" "mset (items s') + mset (answered s') = mset (items s) + mset (answered s)" "submitted s' = submitted s"
proof -
  note d = work_okD [OF assms(2)]
  let ?P = "work_ok s' \<and> mset (items s') + mset (answered s') = mset (items s) + mset (answered s) \<and> submitted s' = submitted s"
  have "?P"
    using assms(1)
  proof cases
    case (post_lock x)
    have "work_ok s'" "items s' = items s"
      by (rule act_work_ok [OF assms(2)]; use post_lock d in \<open>simp add: in_workers_def\<close>)+
    then show ?thesis using post_lock by (simp add: answered_def)
  next
    case (post_signal x ws)
    have w: "concat (map worker_work ws) = in_workers s" using signal_work [OF post_signal(4)] by (simp add: in_workers_def)
    have "work_ok s'" "mset (items s') = mset (items s)"
      using post_work [OF post_signal(2,1) w assms(2)] post_items(1) [OF post_signal(2,1) w] by blast+
    then show ?thesis using post_signal(1) by (simp add: answered_def post_item_def)
  next
    case (post_quiet x)
    have w: "concat (map worker_work (workers s)) = in_workers s" by (simp add: in_workers_def)
    have "work_ok s'" "mset (items s') = mset (items s)"
      using post_work [OF post_quiet(2,1) w assms(2)] post_items(1) [OF post_quiet(2,1) w] by blast+
    then show ?thesis using post_quiet(1) by (simp add: answered_def post_item_def)
  next
    case (cancel_lock w)
    have "work_ok s'" "items s' = items s"
      by (rule act_work_ok [OF assms(2)]; use cancel_lock d in \<open>simp add: in_workers_def\<close>)+
    then show ?thesis using cancel_lock by (simp add: answered_def)
  next
    case (cancel_lock_loop w)
    have "work_ok s'" "items s' = items s"
      by (rule act_work_ok [OF assms(2)]; use cancel_lock_loop d in \<open>simp add: in_workers_def\<close>)+
    then show ?thesis using cancel_lock_loop by (simp add: answered_def)
  next
    case (cancel_busy w)
    have "work_ok s'" "items s' = items s"
      by (rule act_work_ok [OF assms(2)]; use cancel_busy d in \<open>simp add: in_workers_def\<close>)+
    then show ?thesis using cancel_busy by (simp add: answered_def)
  next
    case (cancel_found w)
    have u: "mset (items (unlink_work w s)) + {#w#} = mset (items s)" using unlink_items [OF assms(2) cancel_found(2,3)] .
    have it: "mset (items s') = mset (items s)"
      using u cancel_found(1,2) by (simp add: items_parts unlink_work_def in_workers_def)
    have "w \<notin> set (items (unlink_work w s))"
      using d(1) u by (metis add_mset_add_single distinct.simps(2) mset.simps(2) mset_eq_imp_distinct_iff)
    then have n: "Work w \<notin> set (remove1 (Work w) (wq s))" "w \<notin> set (in_workers s)" "w \<notin> set (remove1 w (loop_wq s))" "w \<notin> set (remove1 w (local_wq s))"
      using wq_work [of w "remove1 (Work w) (wq s)"] by (auto simp: items_parts unlink_work_def in_workers_def)
    define q l k where "q = remove1 (Work w) (wq s)" and "l = remove1 w (loop_wq s)" and "k = remove1 w (local_wq s)"
    have s': "wq s' = q" "loop_wq s' = l" "local_wq s' = k" "in_workers s' = in_workers s" "act s' = LRequeue w"
      "fn s' = (fn s)(w := Cancelled)" "node_empty s' = node_empty s"
      using cancel_found(1) by (simp_all add: unlink_work_def in_workers_def q_def l_def k_def)
    have sub: "set q \<subseteq> set (wq s)" "set l \<subseteq> set (loop_wq s)" "set k \<subseteq> set (local_wq s)"
      unfolding q_def l_def k_def by (rule set_remove1_subset)+
    have "fn s v = Fun \<and> \<not> node_empty s v \<and> v \<noteq> w" if "Work v \<in> set q" for v using that sub(1) d(2) n(1) by (auto simp: q_def [symmetric])
    moreover have "fn s v \<noteq> Fun \<and> \<not> node_empty s v" if "v \<in> set l \<union> set k" for v using that sub(2,3) d(4,5) by blast
    ultimately have "work_ok s'" unfolding work_ok_def s'
      using items_distinct [OF it d(1)] d(3) n(2) by auto
    then show ?thesis using it cancel_found(1) by (simp add: answered_def unlink_work_def)
  next
    case (requeue_lock w)
    have "work_ok s'" "items s' = items s"
      by (rule act_work_ok [OF assms(2)]; use requeue_lock d in \<open>simp add: in_workers_def\<close>)+
    then show ?thesis using requeue_lock by (simp add: answered_def)
  next
    case (requeue w)
    have it: "mset (items s') = mset (items s)" using requeue(1,2) by (simp add: items_parts in_workers_def)
    have n: "w \<notin> set (in_workers s)" "fn s w = Cancelled" using d(1) d(7) requeue(2) by (auto simp: items_parts)
    have "work_ok s'" unfolding work_ok_def
    proof (intro conjI)
      show "distinct (items s')" using items_distinct [OF it d(1)] by simp
    qed (use requeue n d(2-5) in \<open>auto simp: in_workers_def\<close>)
    then show ?thesis using it requeue(1) by (simp add: answered_def)
  next
    case drain_begin
    have "work_ok s'" "items s' = items s"
      by (rule act_work_ok [OF assms(2)]; use drain_begin d in \<open>simp add: in_workers_def\<close>)+
    then show ?thesis using drain_begin by (simp add: answered_def)
  next
    case drain_lock
    have "work_ok s'" "items s' = items s"
      by (rule act_work_ok [OF assms(2)]; use drain_lock d in \<open>simp add: in_workers_def\<close>)+
    then show ?thesis using drain_lock by (simp add: answered_def)
  next
    case drain
    then have e: "local_wq s = []" using d(9) by simp
    have it: "mset (items s') = mset (items s)" using drain e by (simp add: items_parts in_workers_def)
    have "work_ok s'" unfolding work_ok_def
    proof (intro conjI)
      show "distinct (items s')" using items_distinct [OF it d(1)] by simp
    qed (use drain d(2-5) in \<open>auto simp: in_workers_def\<close>)
    then show ?thesis using it drain(1) by (simp add: answered_def)
  next
    case (answer w q)
    have it: "mset (items s) = add_mset w (mset (items s'))" using answer by (simp add: items_parts in_workers_def)
    have "work_ok s'" unfolding work_ok_def
    proof (intro conjI)
      show "distinct (items s')" using d(1) it by (metis distinct.simps(2) mset.simps(2) mset_eq_imp_distinct_iff)
    qed (use answer d(2-5) in \<open>auto simp: in_workers_def\<close>)
    then show ?thesis using it answer(1) by (simp add: answered_def)
  qed
  then show "work_ok s'" "mset (items s') + mset (answered s') = mset (items s) + mset (answered s)" "submitted s' = submitted s" by blast+
qed

lemma client_step_work:
  assumes "client_step s s'" and "work_ok s"
  shows "work_ok s'" "mset (items s') + mset (submitted s) = mset (items s) + mset (submitted s')" "answered s' = answered s"
proof -
  note d = work_okD [OF assms(2)]
  have "work_ok s' \<and> mset (items s') + mset (submitted s) = mset (items s) + mset (submitted s') \<and> answered s' = answered s"
    using assms(1)
  proof cases
    case (submit w)
    have it: "mset (items s') = add_mset w (mset (items s))" using submit by (simp add: items_parts in_workers_def)
    have n: "Work w \<notin> set (wq s)" "w \<notin> set (in_workers s)" "w \<notin> set (loop_wq s)" "w \<notin> set (local_wq s)"
      using submit(3) wq_work [of w "wq s"] by (auto simp: items_parts)
    have "work_ok s'" unfolding work_ok_def
    proof (intro conjI)
      show "distinct (items s')" using d(1) submit(3) it by (metis distinct.simps(2) mset.simps(2) mset_eq_imp_distinct_iff)
    qed (use submit n d(2-5) in \<open>auto simp: in_workers_def\<close>)
    then show ?thesis using it submit(1) by (simp add: answered_def)
  next
    case (cancel w)
    have "work_ok s'" "items s' = items s"
      by (rule act_work_ok [OF assms(2)]; use cancel d in \<open>simp add: in_workers_def\<close>)+
    then show ?thesis using cancel by (simp add: answered_def)
  next
    case cleanup
    have "work_ok s'" "items s' = items s"
      by (rule act_work_ok [OF assms(2)]; use cleanup d in \<open>simp add: in_workers_def\<close>)+
    then show ?thesis using cleanup by (simp add: answered_def)
  qed
  then show "work_ok s'" "mset (items s') + mset (submitted s) = mset (items s) + mset (submitted s')" "answered s' = answered s" by blast+
qed

lemma spurious_work:
  assumes "spurious s s'" and "work_ok s"
  shows "work_ok s'" "items s' = items s" "answered s' = answered s" "submitted s' = submitted s"
proof -
  obtain i where i: "i < length (workers s)" "workers s ! i = Waiting" "s' = set_worker i Woken s" using assms(1) by (auto elim: spurious.cases)
  have "in_workers s' = in_workers s" by (rule worker_update_same [of s' s i Woken]) (use i in simp_all)
  then show "work_ok s'" "items s' = items s"
    using work_ok_cong [OF assms(2), of s'] i(3) by simp_all
  show "answered s' = answered s" "submitted s' = submitted s" using i(3) by (simp_all add: answered_def)
qed
subsection \<open>The mutexes, the counters and the wakeups\<close>

lemma sum_update:
  fixes f :: "worker \<Rightarrow> 'b::cancel_comm_monoid_add"
  shows "i < length ws \<Longrightarrow> sum_list (map f (ws[i := x])) + f (ws ! i) = sum_list (map f ws) + f x"
proof (induction ws arbitrary: i)
  case (Cons w ws)
  show ?case
  proof (cases i)
    case (Suc j)
    then have "sum_list (map f (ws[j := x])) + f (ws ! j) = sum_list (map f ws) + f x" using Cons by simp
    then show ?thesis using Suc by (simp add: add.assoc)
  qed (simp add: ac_simps)
qed simp

lemma sum_same:
  fixes f :: "worker \<Rightarrow> 'b::cancel_comm_monoid_add"
  shows "i < length ws \<Longrightarrow> f x = f (ws ! i) \<Longrightarrow> sum_list (map f (ws[i := x])) = sum_list (map f ws)"
  using sum_update [of i ws f x] by simp

lemma sum_signal:
  fixes f :: "worker \<Rightarrow> 'b::cancel_comm_monoid_add"
  shows "signal ws ws' \<Longrightarrow> f Woken = f Waiting \<Longrightarrow> sum_list (map f ws') = sum_list (map f ws)"
  by (erule signal_cases) (simp_all add: sum_same)

text \<open>Who holds which mutex.\<close>

definition locks_ok :: "pool \<Rightarrow> bool" where
  "locks_ok s \<longleftrightarrow>
     (\<forall>i. mutex s = Some (Worker i) \<longleftrightarrow> i < length (workers s) \<and> workers s ! i = Holding) \<and>
     (mutex s = Some Loop \<longleftrightarrow> (\<exists>x. act s = LPosting x) \<or> (\<exists>w. act s = LCancelG w \<or> act s = LCancelGL w)) \<and>
     (\<forall>i. wq_mutex s = Some (Worker i) \<longleftrightarrow> i < length (workers s) \<and> (\<exists>w. workers s ! i = Finishing w)) \<and>
     (wq_mutex s = Some Loop \<longleftrightarrow> act s = LDraining \<or> (\<exists>w. act s = LCancelGL w \<or> act s = LRequeueL w))"

lemma locks_worker:
  assumes "locks_ok s" and "i < length (workers s)" and "workers s' = (workers s)[i := x]" and "act s' = act s"
    and "mutex s' = (if x = Holding then Some (Worker i) else if workers s ! i = Holding then None else mutex s)"
    and "wq_mutex s' = (if (\<exists>w. x = Finishing w) then Some (Worker i) else if (\<exists>w. workers s ! i = Finishing w) then None else wq_mutex s)"
    and "x = Holding \<Longrightarrow> mutex s = None" and "\<exists>w. x = Finishing w \<Longrightarrow> wq_mutex s = None"
  shows "locks_ok s'"
proof -
  have m: "mutex s = Some (Worker j) \<longleftrightarrow> j < length (workers s) \<and> workers s ! j = Holding" for j using assms(1) by (simp add: locks_ok_def)
  have l: "wq_mutex s = Some (Worker j) \<longleftrightarrow> j < length (workers s) \<and> (\<exists>w. workers s ! j = Finishing w)" for j using assms(1) by (simp add: locks_ok_def)
  have "mutex s' = Some (Worker j) \<longleftrightarrow> j < length (workers s') \<and> workers s' ! j = Holding" for j
    using m [of i] m [of j] assms(2,3,5,7) by (auto simp: nth_list_update)
  moreover have "mutex s' = Some Loop \<longleftrightarrow> mutex s = Some Loop" using m [of i] assms(2,5,7) by (auto split: if_splits)
  moreover have "wq_mutex s' = Some (Worker j) \<longleftrightarrow> j < length (workers s') \<and> (\<exists>w. workers s' ! j = Finishing w)" for j
    using l [of i] l [of j] assms(2,3,6,8) by (auto simp: nth_list_update)
  moreover have "wq_mutex s' = Some Loop \<longleftrightarrow> wq_mutex s = Some Loop" using l [of i] assms(2,6,8) by (auto split: if_splits)
  ultimately show ?thesis using assms(1,4) by (simp add: locks_ok_def)
qed

lemma signal_locks:
  assumes "signal (workers s) ws" and "locks_ok s"
  shows "locks_ok (s\<lparr>workers := ws\<rparr>)"
  using assms(1)
proof (cases rule: signal_cases)
  case (1 j)
  then show ?thesis by (intro locks_worker [OF assms(2), of j _ Woken]) simp_all
qed (use assms(2) in simp)

lemma worker_step_locks:
  assumes "worker_step i s s'" and "locks_ok s"
  shows "locks_ok s'"
  using assms(1)
proof cases
  case worker_lock
  then show ?thesis by (intro locks_worker [OF assms(2), of i s' Holding]) simp_all
next
  case worker_wait
  then show ?thesis by (intro locks_worker [OF assms(2), of i s' Waiting]) simp_all
next
  case worker_woken
  then show ?thesis by (intro locks_worker [OF assms(2), of i s' Holding]) simp_all
next
  case (worker_exit q ws)
  have "locks_ok (s\<lparr>workers := ws\<rparr>)" using signal_locks [OF worker_exit(5) assms(2)] .
  then show ?thesis
    using worker_exit signal_nth [OF worker_exit(5)] signal_length [OF worker_exit(5)]
    by (intro locks_worker [of "s\<lparr>workers := ws\<rparr>" i s' Stopped]) simp_all
next
  case (worker_take w q)
  then show ?thesis by (intro locks_worker [OF assms(2), of i s' "Running w"]) simp_all
next
  case (worker_run w)
  then show ?thesis by (intro locks_worker [OF assms(2), of i s' "Ran w"]) simp_all
next
  case (worker_lock_loop w)
  then show ?thesis by (intro locks_worker [OF assms(2), of i s' "Finishing w"]) simp_all
next
  case (worker_finish w)
  then show ?thesis by (intro locks_worker [OF assms(2), of i s' Ready]) simp_all
qed

lemma locksD:
  assumes "locks_ok s"
  shows "mutex s = Some (Worker i) \<longleftrightarrow> i < length (workers s) \<and> workers s ! i = Holding"
    "mutex s = Some Loop \<longleftrightarrow> (\<exists>x. act s = LPosting x) \<or> (\<exists>w. act s = LCancelG w \<or> act s = LCancelGL w)"
    "wq_mutex s = Some (Worker i) \<longleftrightarrow> i < length (workers s) \<and> (\<exists>w. workers s ! i = Finishing w)"
    "wq_mutex s = Some Loop \<longleftrightarrow> act s = LDraining \<or> (\<exists>w. act s = LCancelGL w \<or> act s = LRequeueL w)"
  using assms unfolding locks_ok_def by blast+

lemma post_locks:
  assumes "locks_ok s" and "act s = LPosting x" and "signal (workers s) ws \<or> ws = workers s"
  shows "locks_ok (post_item x s ws)"
proof -
  have l: "locks_ok (s\<lparr>workers := ws\<rparr>)" using assms(1,3) signal_locks by auto
  have m: "mutex s = Some Loop" using locksD(2) [OF assms(1)] assms(2) by blast
  have e: "mutex (post_item x s ws) = None" "act (post_item x s ws) = LFree" "wq_mutex (post_item x s ws) = wq_mutex s"
    "workers (post_item x s ws) = ws"
    by (simp_all add: post_item_def)
  have h: "\<not> (i < length ws \<and> ws ! i = Holding)" for i using locksD(1) [OF l, of i] m by simp
  have f: "wq_mutex s = Some (Worker i) \<longleftrightarrow> i < length ws \<and> (\<exists>w. ws ! i = Finishing w)" for i using locksD(3) [OF l, of i] by simp
  have g: "wq_mutex s \<noteq> Some Loop" using locksD(4) [OF assms(1)] assms(2) by simp
  show ?thesis unfolding locks_ok_def e using h f g by simp
qed

lemma pool_loop_step_locks:
  assumes "pool_loop_step s s'" and "locks_ok s"
  shows "locks_ok s'"
  using assms(1)
proof cases
  case (post_signal x ws)
  then show ?thesis using post_locks [OF assms(2)] by blast
next
  case (post_quiet x)
  then show ?thesis using post_locks [OF assms(2)] by blast
qed (use locksD [OF assms(2)] in \<open>simp_all add: locks_ok_def unlink_work_def\<close>)

lemma client_step_locks: "client_step s s' \<Longrightarrow> locks_ok s \<Longrightarrow> locks_ok s'"
  by (erule client_step.cases) (simp_all add: locks_ok_def)

lemma spurious_locks:
  assumes "spurious s s'" and "locks_ok s"
  shows "locks_ok s'"
  using assms(1)
proof cases
  case (spurious_wake i)
  then show ?thesis by (intro locks_worker [OF assms(2), of i _ Woken]) simp_all
qed
text \<open>The counters: of idle threads, of requests, and of the executions of work.\<close>

definition idle_of :: "worker \<Rightarrow> nat" where
  "idle_of x = (if x = Waiting \<or> x = Woken then 1 else 0)"

fun ran_of :: "worker \<Rightarrow> work multiset" where
  "ran_of (Ran w) = {#w#}"
| "ran_of (Finishing w) = {#w#}"
| "ran_of _ = {#}"

definition succeeded :: "pool \<Rightarrow> work list" where
  "succeeded s = map fst (filter (\<lambda>x. snd x = 0) (answers s))"

definition done_in :: "pool \<Rightarrow> work multiset" where
  "done_in s = filter_mset (\<lambda>w. fn s w = Null) (mset (loop_wq s @ local_wq s))"

definition counts_ok :: "pool \<Rightarrow> bool" where
  "counts_ok s \<longleftrightarrow> idle_threads s = sum_list (map idle_of (workers s)) \<and> active s = length (items s) \<and>
     mset (items s) + mset (answered s) = mset (submitted s) \<and>
     mset (executed s) = mset (succeeded s) + sum_list (map ran_of (workers s)) + done_in s"

lemma filter_fn_same: "\<forall>v\<in>set xs. g v = f v \<Longrightarrow> filter_mset (\<lambda>w. g w = Null) (mset xs) = filter_mset (\<lambda>w. f w = Null) (mset xs)"
  by (rule filter_mset_cong) auto

lemma length_items: "mset (items s') = mset (items s) \<Longrightarrow> length (items s') = length (items s)"
  by (metis size_mset)

lemma worker_step_counts:
  assumes "worker_step i s s'" and "work_ok s" and "counts_ok s"
  shows "counts_ok s'"
proof -
  note d = work_okD [OF assms(2)]
  have it: "mset (items s') = mset (items s)" using worker_step_work(2) [OF assms(1,2)] .
  have c: "idle_threads s = sum_list (map idle_of (workers s))" "active s = length (items s)" "mset (items s) + mset (answered s) = mset (submitted s)"
    "mset (executed s) = mset (succeeded s) + sum_list (map ran_of (workers s)) + done_in s"
    using assms(3) by (simp_all add: counts_ok_def)
  have fin: "counts_ok s'" if "idle_threads s' = sum_list (map idle_of (workers s'))" "active s' = active s" "answers s' = answers s" "submitted s' = submitted s"
    "mset (executed s') = mset (succeeded s) + sum_list (map ran_of (workers s')) + done_in s'"
    using that c it length_items [OF it] by (simp add: counts_ok_def answered_def succeeded_def)
  note u = sum_update [where f = idle_of] and r = sum_update [where f = ran_of]
  show ?thesis
    using assms(1)
  proof cases
    case worker_lock
    then show ?thesis using c u [of i "workers s" Holding] r [of i "workers s" Holding] by (intro fin) (simp_all add: idle_of_def done_in_def)
  next
    case worker_wait
    then show ?thesis using c u [of i "workers s" Waiting] r [of i "workers s" Waiting] by (intro fin) (simp_all add: idle_of_def done_in_def)
  next
    case worker_woken
    then show ?thesis using c u [of i "workers s" Holding] r [of i "workers s" Holding] by (intro fin) (simp_all add: idle_of_def done_in_def)
  next
    case (worker_exit q ws)
    have h: "ws ! i = Holding" "i < length ws" using signal_nth [OF worker_exit(5)] signal_length [OF worker_exit(5)] worker_exit(2,3) by simp_all
    have "sum_list (map idle_of ws) = sum_list (map idle_of (workers s))" "sum_list (map ran_of ws) = sum_list (map ran_of (workers s))"
      by (rule sum_signal [OF worker_exit(5)], simp add: idle_of_def)+
    then show ?thesis using worker_exit(1) c u [OF h(2), of Stopped] r [OF h(2), of Stopped] h(1) by (intro fin) (simp_all add: idle_of_def done_in_def)
  next
    case (worker_take w q)
    then show ?thesis using c u [of i "workers s" "Running w"] r [of i "workers s" "Running w"] by (intro fin) (simp_all add: idle_of_def done_in_def)
  next
    case (worker_run w)
    then show ?thesis using c u [of i "workers s" "Ran w"] r [of i "workers s" "Ran w"] by (intro fin) (simp_all add: idle_of_def done_in_def)
  next
    case (worker_lock_loop w)
    then show ?thesis using c u [of i "workers s" "Finishing w"] r [of i "workers s" "Finishing w"] by (intro fin) (simp_all add: idle_of_def done_in_def)
  next
    case (worker_finish w)
    have "w \<in> set (in_workers s)" using worker_finish(2,3) nth_mem [OF worker_finish(2)] by (force simp: in_workers_def)
    then have n: "w \<notin> set (loop_wq s @ local_wq s)" using d(1) by (auto simp: items_parts)
    have "done_in s' = add_mset w (done_in s)"
      using worker_finish(1) n filter_fn_same [of "loop_wq s @ local_wq s" "fn s'" "fn s"] by (auto simp: done_in_def)
    then show ?thesis using worker_finish c u [of i "workers s" Ready] r [of i "workers s" Ready] by (intro fin) (simp_all add: idle_of_def)
  qed
qed

lemma pool_loop_step_counts:
  assumes "pool_loop_step s s'" and "work_ok s" and "counts_ok s"
  shows "counts_ok s'"
proof -
  note d = work_okD [OF assms(2)]
  note it = pool_loop_step_work(2,3) [OF assms(1,2)]
  have c: "idle_threads s = sum_list (map idle_of (workers s))" "active s = length (items s)" "mset (items s) + mset (answered s) = mset (submitted s)"
    "mset (executed s) = mset (succeeded s) + sum_list (map ran_of (workers s)) + done_in s"
    using assms(3) by (simp_all add: counts_ok_def)
  have fin: "counts_ok s'" if "idle_threads s' = idle_threads s" "sum_list (map idle_of (workers s')) = sum_list (map idle_of (workers s))"
    "sum_list (map ran_of (workers s')) = sum_list (map ran_of (workers s))" "active s' = active s" "answers s' = answers s" "executed s' = executed s" "done_in s' = done_in s"
  proof -
    have m: "mset (items s') = mset (items s)" using it(1) that(5) by (simp add: answered_def)
    have e: "answered s' = answered s" "succeeded s' = succeeded s" using that(5) by (simp_all add: answered_def succeeded_def)
    show ?thesis unfolding counts_ok_def that(1-4,6,7) e it(2) m length_items [OF m] using c by blast
  qed
  show ?thesis
    using assms(1)
  proof cases
    case (post_signal x ws)
    have "sum_list (map idle_of ws) = sum_list (map idle_of (workers s))" "sum_list (map ran_of ws) = sum_list (map ran_of (workers s))"
      by (rule sum_signal [OF post_signal(4)], simp add: idle_of_def)+
    then show ?thesis using post_signal(1) by (intro fin) (simp_all add: post_item_def done_in_def)
  next
    case (post_quiet x)
    then show ?thesis by (intro fin) (simp_all add: post_item_def done_in_def)
  next
    case (cancel_found w)
    have u: "mset (items (unlink_work w s)) + {#w#} = mset (items s)" using unlink_items [OF assms(2) cancel_found(2,3)] .
    have "w \<notin> set (items (unlink_work w s))"
      using d(1) u by (metis add_mset_add_single distinct.simps(2) mset.simps(2) mset_eq_imp_distinct_iff)
    then have n: "w \<notin> set (remove1 w (loop_wq s) @ remove1 w (local_wq s))" by (auto simp: items_parts unlink_work_def)
    have nn: "fn s w \<noteq> Null" using cancel_found(3) by (simp add: cancellable_def)
    have f: "filter_mset (\<lambda>w. fn s w = Null) (mset (remove1 w xs)) = filter_mset (\<lambda>w. fn s w = Null) (mset xs)" for xs
      using nn by (induction xs) auto
    have "done_in s' = filter_mset (\<lambda>v. fn s v = Null) (mset (remove1 w (loop_wq s) @ remove1 w (local_wq s)))"
      using cancel_found(1) n filter_fn_same [of "remove1 w (loop_wq s) @ remove1 w (local_wq s)" "fn s'" "fn s"]
      by (auto simp: done_in_def unlink_work_def simp del: mset_append mset_remove1)
    then have "done_in s' = done_in s" using f by (simp add: done_in_def del: mset_remove1)
    then show ?thesis using cancel_found(1) by (intro fin) (simp_all add: unlink_work_def)
  next
    case (requeue w)
    have "fn s w = Cancelled" using d(7) requeue(2) by simp
    then show ?thesis using requeue(1) by (intro fin) (simp_all add: done_in_def)
  next
    case drain
    have "local_wq s = []" using d(9) drain by simp
    then show ?thesis using drain by (intro fin) (simp_all add: done_in_def)
  next
    case (answer w q)
    have it: "mset (items s) = add_mset w (mset (items s'))" using answer by (simp add: items_parts in_workers_def)
    then have l: "length (items s) = length (items s') + 1" by (metis Suc_eq_plus1 size_add_mset size_mset)
    have nf: "fn s w \<noteq> Fun" using d(5) answer(3) by simp
    have e: "mset (executed s') = mset (succeeded s') + sum_list (map ran_of (workers s')) + done_in s'"
    proof (cases "fn s w = Cancelled")
      case True
      then show ?thesis using answer c(4) by (simp add: succeeded_def done_in_def UV_ECANCELED_def)
    next
      case False
      then have "fn s w = Null" using nf by (cases "fn s w") auto
      then show ?thesis using answer c(4) by (simp add: succeeded_def done_in_def)
    qed
    have a: "active s' = active s - 1" "answered s' = answered s @ [w]" "submitted s' = submitted s" "workers s' = workers s"
      "idle_threads s' = idle_threads s"
      using answer(1) by (simp_all add: answered_def)
    have m: "mset (items s') + mset (answered s') = mset (submitted s')" unfolding a c(3) [symmetric] it by simp
    have "active s' = length (items s')" unfolding a c(2) l by simp
    then show ?thesis unfolding counts_ok_def using e m a(4,5) c(1) by simp
  qed (use fin in \<open>simp_all add: done_in_def\<close>)
qed

lemma client_step_counts:
  assumes "client_step s s'" and "work_ok s" and "counts_ok s"
  shows "counts_ok s'"
  using assms(1)
proof cases
  case (submit w)
  have it: "mset (items s') = add_mset w (mset (items s))" using submit by (simp add: items_parts in_workers_def)
  then have l: "length (items s') = length (items s) + 1" by (metis Suc_eq_plus1 size_add_mset size_mset)
  have "w \<notin> set (loop_wq s @ local_wq s)" using submit(3) by (auto simp: items_parts)
  then have "done_in s' = done_in s"
    using submit(1) filter_fn_same [of "loop_wq s @ local_wq s" "fn s'" "fn s"] by (auto simp: done_in_def)
  then show ?thesis using submit(1) assms(3) it l by (simp add: counts_ok_def answered_def succeeded_def)
next
  case (cancel w)
  then show ?thesis using assms(3) by (simp add: counts_ok_def answered_def succeeded_def done_in_def items_parts in_workers_def)
next
  case cleanup
  then show ?thesis using assms(3) by (simp add: counts_ok_def answered_def succeeded_def done_in_def items_parts in_workers_def)
qed

lemma spurious_counts:
  assumes "spurious s s'" and "work_ok s" and "counts_ok s"
  shows "counts_ok s'"
proof -
  obtain i where i: "i < length (workers s)" "workers s ! i = Waiting" "s' = set_worker i Woken s" using assms(1) by (auto elim: spurious.cases)
  note w = spurious_work [OF assms(1,2)]
  have "sum_list (map idle_of (workers s')) = sum_list (map idle_of (workers s))" "sum_list (map ran_of (workers s')) = sum_list (map ran_of (workers s))"
    using sum_same [OF i(1), of idle_of Woken] sum_same [OF i(1), of ran_of Woken] i(2,3) by (simp_all add: idle_of_def)
  then show ?thesis using assms(3) w i(3) by (simp add: counts_ok_def done_in_def succeeded_def)
qed
text \<open>No wakeup is lost: work in the queue has a worker that is awake, finished work has the loop's attention.\<close>

definition awake :: "worker \<Rightarrow> bool" where
  "awake x \<longleftrightarrow> x \<noteq> Waiting \<and> x \<noteq> Stopped"

definition wake_ok :: "pool \<Rightarrow> bool" where
  "wake_ok s \<longleftrightarrow> workers s \<noteq> [] \<and> (Stopped \<in> set (workers s) \<longrightarrow> Exit \<in> set (wq s)) \<and>
     (Exit \<notin> set (wq s) \<longrightarrow> wq s \<noteq> [] \<longrightarrow> (\<exists>x\<in>set (workers s). awake x)) \<and>
     (loop_wq s \<noteq> [] \<longrightarrow> async s \<or> act s = LDrain \<or> act s = LDraining)"

lemma awake_update: "i < length ws \<Longrightarrow> awake x \<Longrightarrow> \<exists>y\<in>set (ws[i := x]). awake y"
  using set_update_memI by fast

lemma stopped_update: "x \<noteq> Stopped \<Longrightarrow> Stopped \<in> set (ws[i := x]) \<Longrightarrow> Stopped \<in> set ws"
  using set_update_subset_insert by fast

lemma worker_step_wake:
  assumes "worker_step i s s'" and "wake_ok s"
  shows "wake_ok s'"
  using assms(1)
proof cases
  case (worker_exit q ws)
  then show ?thesis using assms(2) signal_length [OF worker_exit(5)] by (auto simp: wake_ok_def)
qed (use assms(2) awake_update [of i "workers s"] stopped_update [of _ "workers s" i] in \<open>auto simp: wake_ok_def awake_def\<close>)

lemma sum_has: "0 < sum_list (map f ws) \<Longrightarrow> \<exists>x\<in>set ws. 0 < (f x :: nat)"
  by (induction ws) auto

lemma signal_wakes:
  assumes "signal ws ws'" and "0 < sum_list (map idle_of ws)"
  shows "\<exists>x\<in>set ws'. awake x"
  using assms(1)
proof (cases rule: signal_cases)
  case (1 i)
  then show ?thesis using awake_update [of i ws Woken] by (simp add: awake_def)
next
  case 2
  obtain x where "x \<in> set ws" "idle_of x > 0" using sum_has [OF assms(2)] by blast
  then show ?thesis using 2 by (intro bexI [of _ x]) (auto simp: idle_of_def awake_def split: if_splits)
qed

lemma signal_stopped: "signal ws ws' \<Longrightarrow> Stopped \<in> set ws' \<Longrightarrow> Stopped \<in> set ws"
  by (erule signal_cases) (auto dest: stopped_update [rotated])

lemma pool_loop_step_wake:
  assumes "pool_loop_step s s'" and "wake_ok s" and "counts_ok s"
  shows "wake_ok s'"
  using assms(1)
proof cases
  case (post_signal x ws)
  have "\<exists>x\<in>set ws. awake x" using signal_wakes [OF post_signal(4)] post_signal(3) assms(3) by (simp add: counts_ok_def)
  moreover have "ws \<noteq> []" using signal_length [OF post_signal(4)] assms(2) by (auto simp: wake_ok_def)
  ultimately show ?thesis using post_signal(1,2) assms(2) signal_stopped [OF post_signal(4)] by (auto simp: wake_ok_def post_item_def)
next
  case (post_quiet x)
  have z: "\<forall>x\<in>set (workers s). idle_of x = 0" using post_quiet(3) assms(3) by (simp add: counts_ok_def)
  have "\<exists>x\<in>set (workers s). awake x" if "Exit \<notin> set (wq s)"
  proof -
    obtain y where y: "y \<in> set (workers s)" using assms(2) by (cases "workers s") (auto simp: wake_ok_def)
    then have "y \<noteq> Waiting" "y \<noteq> Stopped" using z that assms(2) by (auto simp: idle_of_def wake_ok_def)
    then show ?thesis using y by (auto simp: awake_def)
  qed
  then show ?thesis using post_quiet(1,2) assms(2) by (auto simp: wake_ok_def post_item_def)
next
  case (cancel_found w)
  have "Exit \<in> set (remove1 (Work w) (wq s)) \<longleftrightarrow> Exit \<in> set (wq s)" by (simp add: in_set_remove1)
  moreover have "remove1 (Work w) (wq s) \<noteq> [] \<Longrightarrow> wq s \<noteq> []" "remove1 w (loop_wq s) \<noteq> [] \<Longrightarrow> loop_wq s \<noteq> []" by auto
  ultimately show ?thesis using cancel_found(1,2) assms(2) by (auto simp: wake_ok_def unlink_work_def)
qed (use assms(2) in \<open>auto simp: wake_ok_def\<close>)

lemma client_step_wake: "client_step s s' \<Longrightarrow> wake_ok s \<Longrightarrow> wake_ok s'"
  by (erule client_step.cases) (auto simp: wake_ok_def)

lemma spurious_wake_ok:
  assumes "spurious s s'" and "wake_ok s"
  shows "wake_ok s'"
  using assms(1)
proof cases
  case (spurious_wake i)
  then show ?thesis
    using assms(2) awake_update [of i "workers s" Woken] stopped_update [of Woken "workers s" i] by (auto simp: wake_ok_def awake_def)
qed

subsection \<open>Invariant and energy\<close>

definition pool_inv :: "pool \<Rightarrow> bool" where
  "pool_inv s \<longleftrightarrow> work_ok s \<and> locks_ok s \<and> counts_ok s \<and> wake_ok s"

lemma pool_step_inv:
  assumes "pool_step s s'" and "pool_inv s"
  shows "pool_inv s'"
proof -
  have p: "work_ok s" "locks_ok s" "counts_ok s" "wake_ok s" using assms(2) by (simp_all add: pool_inv_def)
  consider "pool_loop_step s s'" | i where "worker_step i s s'" | "client_step s s'" | "spurious s s'"
    using assms(1) by (auto simp: pool_step_def pool_work_def)
  then show ?thesis
  proof cases
    case 1
    then show ?thesis using p pool_loop_step_work(1) pool_loop_step_locks pool_loop_step_counts pool_loop_step_wake by (simp add: pool_inv_def)
  next
    case 2
    then show ?thesis using p worker_step_work(1) worker_step_locks worker_step_counts worker_step_wake by (simp add: pool_inv_def)
  next
    case 3
    then show ?thesis using p client_step_work(1) client_step_locks client_step_counts client_step_wake by (simp add: pool_inv_def)
  next
    case 4
    then show ?thesis using p spurious_work(1) spurious_locks spurious_counts spurious_wake_ok by (simp add: pool_inv_def)
  qed
qed

fun worker_energy :: "worker \<Rightarrow> nat" where
  "worker_energy Stopped = 0"
| "worker_energy Waiting = 3"
| "worker_energy Holding = 4"
| "worker_energy Woken = 5"
| "worker_energy Ready = 5"
| "worker_energy (Finishing w) = 10"
| "worker_energy (Ran w) = 11"
| "worker_energy (Running w) = 12"

fun item_energy :: "qitem \<Rightarrow> nat" where
  "item_energy (Work w) = 9"
| "item_energy Exit = 0"

fun act_energy :: "loop_act \<Rightarrow> nat" where
  "act_energy LFree = 0"
| "act_energy (LPost x) = 13"
| "act_energy (LPosting x) = 12"
| "act_energy (LCancel w) = 9"
| "act_energy (LCancelG w) = 8"
| "act_energy (LCancelGL w) = 7"
| "act_energy (LRequeue w) = 6"
| "act_energy (LRequeueL w) = 5"
| "act_energy LDrain = 2"
| "act_energy LDraining = 1"

definition pool_energy :: "pool \<Rightarrow> nat" where
  "pool_energy s = sum_list (map worker_energy (workers s)) + sum_list (map item_energy (wq s)) + length (loop_wq s) + length (local_wq s) +
     act_energy (act s) + (if async s then 3 else 0)"

lemma signal_energy: "signal ws ws' \<Longrightarrow> sum_list (map worker_energy ws') \<le> sum_list (map worker_energy ws) + 2"
proof (erule signal_cases)
  fix i
  assume "i < length ws" "ws ! i = Waiting" "ws' = ws[i := Woken]"
  then show ?thesis using sum_update [of i ws worker_energy Woken] by simp
qed simp

lemma worker_step_energy:
  assumes "worker_step i s s'"
  shows "pool_energy s' < pool_energy s"
  using assms
proof cases
  case (worker_exit q ws)
  have h: "ws ! i = Holding" "i < length ws" using signal_nth [OF worker_exit(5)] signal_length [OF worker_exit(5)] worker_exit(2,3) by simp_all
  then show ?thesis using worker_exit(1) signal_energy [OF worker_exit(5)] sum_update [OF h(2), of worker_energy Stopped] by (simp add: pool_energy_def)
next
  case worker_lock
  then show ?thesis using sum_update [of i "workers s" worker_energy Holding] by (simp add: pool_energy_def)
next
  case worker_wait
  then show ?thesis using sum_update [of i "workers s" worker_energy Waiting] by (simp add: pool_energy_def)
next
  case worker_woken
  then show ?thesis using sum_update [of i "workers s" worker_energy Holding] by (simp add: pool_energy_def)
next
  case (worker_take w q)
  then show ?thesis using sum_update [of i "workers s" worker_energy "Running w"] by (simp add: pool_energy_def)
next
  case (worker_run w)
  then show ?thesis using sum_update [of i "workers s" worker_energy "Ran w"] by (simp add: pool_energy_def)
next
  case (worker_lock_loop w)
  then show ?thesis using sum_update [of i "workers s" worker_energy "Finishing w"] by (simp add: pool_energy_def)
next
  case (worker_finish w)
  then show ?thesis using sum_update [of i "workers s" worker_energy Ready] by (simp add: pool_energy_def)
qed

lemma remove1_energy: "sum_list (map item_energy (remove1 x q)) \<le> sum_list (map item_energy q)"
  by (induction q) auto

lemma pool_loop_step_energy:
  assumes "pool_loop_step s s'"
  shows "pool_energy s' < pool_energy s"
  using assms
proof cases
  case (post_signal x ws)
  then show ?thesis using signal_energy [OF post_signal(4)] by (cases x) (simp_all add: pool_energy_def post_item_def)
next
  case (post_quiet x)
  then show ?thesis by (cases x) (simp_all add: pool_energy_def post_item_def)
next
  case (cancel_found w)
  have "length (remove1 w xs) \<le> length xs" for xs :: "work list" by (simp add: length_remove1)
  note r = this [of "loop_wq s"] this [of "local_wq s"] remove1_energy [of "Work w" "wq s"]
  have e: "act_energy (act s') = 6" "act_energy (act s) = 7" "async s' = async s" "workers s' = workers s"
    "wq s' = remove1 (Work w) (wq s)" "loop_wq s' = remove1 w (loop_wq s)" "local_wq s' = remove1 w (local_wq s)"
    using cancel_found(1,2) by (simp_all add: unlink_work_def)
  show ?thesis unfolding pool_energy_def e using r by simp
qed (simp_all add: pool_energy_def)

interpretation pool: settling pool_step pool_inv pool_work pool_energy
proof unfold_locales
  show "pool_inv s'" if "pool_step s s'" "pool_inv s" for s s' using pool_step_inv that .
  show "pool_step s s'" if "pool_work s s'" for s s' using that by (simp add: pool_step_def)
  show "pool_energy s' < pool_energy s" if "pool_work s s'" "pool_inv s" for s s'
    using that worker_step_energy pool_loop_step_energy by (auto simp: pool_work_def)
qed

subsection \<open>The pool comes to rest\<close>

definition pool_closing :: "pool \<Rightarrow> bool" where
  "pool_closing s \<longleftrightarrow> Exit \<in> set (wq s) \<or> act s = LPost Exit \<or> act s = LPosting Exit"

lemma worker_step_open: "worker_step i s s' \<Longrightarrow> \<not> pool_closing s \<Longrightarrow> \<not> pool_closing s'"
  by (erule worker_step.cases) (auto simp: pool_closing_def)

lemma pool_loop_step_open: "pool_loop_step s s' \<Longrightarrow> \<not> pool_closing s \<Longrightarrow> \<not> pool_closing s'"
  by (erule pool_loop_step.cases) (auto simp: pool_closing_def post_item_def unlink_work_def in_set_remove1)

lemma pool_work_open:
  assumes "pool_work\<^sup>*\<^sup>* s s'" and "\<not> pool_closing s"
  shows "\<not> pool_closing s'"
  using assms by (induction rule: rtranclp_induct) (auto simp: pool_work_def dest: worker_step_open pool_loop_step_open)

lemma signal_total: "\<exists>ws'. signal ws ws'"
proof (cases "Waiting \<in> set ws")
  case True
  then show ?thesis by (metis in_set_conv_nth signal_one)
qed (use signal_none in blast)

lemma locks_of:
  assumes "locks_ok s"
  shows "(\<forall>x. act s \<noteq> LPosting x) \<Longrightarrow> (\<forall>w. act s \<noteq> LCancelG w \<and> act s \<noteq> LCancelGL w) \<Longrightarrow> Holding \<notin> set (workers s) \<Longrightarrow> mutex s = None"
    "act s \<noteq> LDraining \<Longrightarrow> (\<forall>w. act s \<noteq> LCancelGL w \<and> act s \<noteq> LRequeueL w) \<Longrightarrow> (\<forall>w. Finishing w \<notin> set (workers s)) \<Longrightarrow> wq_mutex s = None"
proof -
  show "mutex s = None" if "\<forall>x. act s \<noteq> LPosting x" "\<forall>w. act s \<noteq> LCancelG w \<and> act s \<noteq> LCancelGL w" "Holding \<notin> set (workers s)"
  proof (cases "mutex s")
    case (Some o')
    have "mutex s \<noteq> Some Loop" using locksD(2) [OF assms] that(1,2) by blast
    moreover have "mutex s \<noteq> Some (Worker i)" for i using locksD(1) [OF assms, of i] that(3) by (force simp: in_set_conv_nth)
    ultimately show ?thesis using Some by (cases o') auto
  qed
  show "wq_mutex s = None" if "act s \<noteq> LDraining" "\<forall>w. act s \<noteq> LCancelGL w \<and> act s \<noteq> LRequeueL w" "\<forall>w. Finishing w \<notin> set (workers s)"
  proof (cases "wq_mutex s")
    case (Some o')
    have "wq_mutex s \<noteq> Some Loop" using locksD(4) [OF assms] that(1,2) by blast
    moreover have "wq_mutex s \<noteq> Some (Worker i)" for i using locksD(3) [OF assms, of i] that(3) by (force simp: in_set_conv_nth)
    ultimately show ?thesis using Some by (cases o') auto
  qed
qed

lemma stuck_workers:
  assumes "\<forall>s'. \<not> pool_work s s'" and "\<not> pool_closing s" and "x \<in> set (workers s)"
  shows "x \<noteq> Holding" "x \<noteq> Running w" "x \<noteq> Finishing w" "mutex s = None \<Longrightarrow> x \<noteq> Ready \<and> x \<noteq> Woken" "wq_mutex s = None \<Longrightarrow> x \<noteq> Ran w"
proof -
  obtain i where i: "i < length (workers s)" "workers s ! i = x" using assms(3) by (auto simp: in_set_conv_nth)
  have n: "\<not> worker_step i s s'" for s' using assms(1) by (auto simp: pool_work_def)
  show "x \<noteq> Holding"
  proof
    assume h: "x = Holding"
    show False
    proof (cases "wq s")
      case Nil
      then show False using n worker_wait [of i s] i h by blast
    next
      case (Cons y q)
      then obtain v where "y = Work v" using assms(2) by (cases y) (auto simp: pool_closing_def)
      then show False using n worker_take [of i s v q] i h Cons by blast
    qed
  qed
  show "x \<noteq> Running w" using n worker_run [of i s w] i by blast
  show "x \<noteq> Finishing w" using n worker_finish [of i s w] i by blast
  show "x \<noteq> Ready \<and> x \<noteq> Woken" if "mutex s = None" using n worker_lock [of i s] worker_woken [of i s] i that by blast
  show "x \<noteq> Ran w" if "wq_mutex s = None" using n worker_lock_loop [of i s w] i that by blast
qed

lemma stuck_act:
  assumes "\<forall>s'. \<not> pool_work s s'"
  shows "act s \<noteq> LPosting x" "act s \<noteq> LCancelGL w" "act s \<noteq> LRequeueL w" "act s \<noteq> LDraining"
    "mutex s = None \<Longrightarrow> act s \<noteq> LPost x \<and> act s \<noteq> LCancel w" "wq_mutex s = None \<Longrightarrow> act s \<noteq> LCancelG w \<and> act s \<noteq> LRequeue w \<and> act s \<noteq> LDrain"
    "act s = LFree \<Longrightarrow> local_wq s = [] \<and> \<not> async s"
proof -
  have n: "\<not> pool_loop_step s s'" for s' using assms by (auto simp: pool_work_def)
  obtain ws where ws: "signal (workers s) ws" using signal_total by blast
  show "act s \<noteq> LPosting x" using n post_signal [of s x ws] post_quiet [of s x] ws by blast
  show "act s \<noteq> LCancelGL w" using n cancel_busy [of s w] cancel_found [of s w] by blast
  show "act s \<noteq> LRequeueL w" using n requeue [of s w] by blast
  show "act s \<noteq> LDraining" using n drain [of s] by blast
  show "act s \<noteq> LPost x \<and> act s \<noteq> LCancel w" if "mutex s = None" using n post_lock [of s x] cancel_lock [of s w] that by blast
  show "act s \<noteq> LCancelG w \<and> act s \<noteq> LRequeue w \<and> act s \<noteq> LDrain" if "wq_mutex s = None"
    using n cancel_lock_loop [of s w] requeue_lock [of s w] drain_lock [of s] that by blast
  show "local_wq s = [] \<and> \<not> async s" if "act s = LFree"
    using n drain_begin [of s] answer [of s] that by (cases "local_wq s") blast+
qed

lemma stuck_free:
  assumes "\<forall>s'. \<not> pool_work s s'" and "\<not> pool_closing s" and "locks_ok s"
  shows "act s = LFree" "set (workers s) \<subseteq> {Waiting, Stopped}"
proof -
  note w = stuck_workers [OF assms(1,2)] and a = stuck_act [OF assms(1)]
  have q: "wq_mutex s = None" by (rule locks_of(2) [OF assms(3)]; use a w in blast)
  have m: "mutex s = None" by (rule locks_of(1) [OF assms(3)]; use a q w in blast)
  show "act s = LFree" using a(1-4) a(5) [OF m] a(6) [OF q] by (cases "act s") auto
  show "set (workers s) \<subseteq> {Waiting, Stopped}"
  proof
    fix x
    assume "x \<in> set (workers s)"
    then show "x \<in> {Waiting, Stopped}" using w [of x] m q worker.exhaust [of x "x \<in> {Waiting, Stopped}"] by blast
  qed
qed

lemma pool_rest:
  assumes "pool_inv s" and "\<not> pool_closing s" and "\<forall>s'. \<not> pool_work s s'"
  shows "items s = []" "mset (executed s) = mset (succeeded s)" "active s = 0" "mset (answered s) = mset (submitted s)"
proof -
  have l: "locks_ok s" and wk: "wake_ok s" and c: "counts_ok s" using assms(1) by (simp_all add: pool_inv_def)
  note f = stuck_free [OF assms(3,2) l]
  have e: "Exit \<notin> set (wq s)" using assms(2) by (simp add: pool_closing_def)
  then have "Stopped \<notin> set (workers s)" using wk by (auto simp: wake_ok_def)
  then have wt: "\<forall>x\<in>set (workers s). x = Waiting" using f(2) by auto
  then have q: "wq s = []" using wk e by (auto simp: wake_ok_def awake_def)
  have lq: "local_wq s = []" "loop_wq s = []" using stuck_act(7) [OF assms(3) f(1)] f(1) wk by (auto simp: wake_ok_def)
  have "concat (map worker_work ws) = []" "sum_list (map ran_of ws) = {#}" if "\<forall>x\<in>set ws. x = Waiting" for ws
    using that by (induction ws) auto
  note this [OF wt]
  then show i: "items s = []" and "mset (executed s) = mset (succeeded s)" using q lq f(1) c by (simp_all add: items_def counts_ok_def done_in_def)
  then show "active s = 0" "mset (answered s) = mset (submitted s)" using c by (simp_all add: counts_ok_def)
qed

lemma pool_start_inv:
  assumes "0 < n"
  shows "pool_inv (pool_start n)"
proof -
  have r: "concat (map worker_work (replicate n Ready)) = []" "sum_list (map idle_of (replicate n Ready)) = 0" "sum_list (map ran_of (replicate n Ready)) = {#}"
    by (induction n) (simp_all add: idle_of_def)
  then have "items (pool_start n) = []" "in_workers (pool_start n) = []" by (simp_all add: items_def in_workers_def pool_start_def)
  then show ?thesis
    using r assms by (simp add: pool_inv_def work_ok_def locks_ok_def counts_ok_def wake_ok_def pool_start_def answered_def succeeded_def done_in_def)
qed
lemma pool_run:
  assumes "pool_step\<^sup>*\<^sup>* (pool_start n) s" and "0 < n"
  shows "pool_inv s"
  using pool.steps_inv [OF assms(1) pool_start_inv [OF assms(2)]] .

lemma executed_at_most: "pool_inv s \<Longrightarrow> mset (succeeded s) \<subseteq># mset (executed s)"
  by (simp add: pool_inv_def counts_ok_def)

lemma rest_of_ran: "sum_list (map ran_of ws) \<subseteq># mset (concat (map worker_work ws))"
proof (induction ws)
  case (Cons x ws)
  have "ran_of x \<subseteq># mset (worker_work x)" by (cases x) simp_all
  then show ?case using Cons by (simp add: subset_mset.add_mono)
qed simp

lemma executed_still_held:
  assumes "pool_inv s"
  shows "mset (executed s) \<subseteq># mset (succeeded s) + mset (items s)"
proof -
  have c: "mset (executed s) = mset (succeeded s) + sum_list (map ran_of (workers s)) + done_in s"
    using assms by (simp add: pool_inv_def counts_ok_def)
  have "sum_list (map ran_of (workers s)) + done_in s \<subseteq># mset (in_workers s) + mset (loop_wq s @ local_wq s)"
    using rest_of_ran [of "workers s"] by (simp add: in_workers_def done_in_def subset_mset.add_mono)
  also have "\<dots> \<subseteq># mset (items s)" by (simp add: items_parts)
  finally show ?thesis unfolding c by (simp add: add.assoc)
qed

text \<open>The number of threads that \<^verbatim>\<open>init_threads\<close> starts is never zero.\<close>

lemma pool_size_bounds: "0 < pool_size val memory" "pool_size val memory \<le> 128"
  by (auto simp: pool_size_def Let_def MAX_THREADPOOL_SIZE_def)

lemma pool_size_1: "pool_size (Some 1) True = 1"
  by (simp add: pool_size_def MAX_THREADPOOL_SIZE_def)

subsection \<open>Every piece of work is answered once\<close>

text \<open>
  C9. However the threads interleave, a piece of work that was submitted is either in the pool, in exactly one place, or
  has been answered, as often as it was submitted; the loop counts what is in the pool. Work that is reported done without an error has been
  executed, and what has been executed and not yet reported is still in the pool: cancelled work is never executed, and
  nothing is executed twice.
\<close>

theorem pool_answers_once:
  assumes "pool_step\<^sup>*\<^sup>* (pool_start (pool_size val memory)) s"
  shows "mset (items s) + mset (answered s) = mset (submitted s) \<and> distinct (items s) \<and> active s = length (items s) \<and>
    mset (succeeded s) \<subseteq># mset (executed s) \<and> mset (executed s) \<subseteq># mset (succeeded s) + mset (items s)"
proof -
  have i: "pool_inv s" using pool_run [OF assms pool_size_bounds(1)] .
  then have "work_ok s" "counts_ok s" by (simp_all add: pool_inv_def)
  then show ?thesis using executed_at_most [OF i] executed_still_held [OF i] by (simp add: counts_ok_def work_ok_def)
qed

definition one_submitted :: pool where
  "one_submitted = (pool_start 1)\<lparr>act := LPost (Work 7), fn := (\<lambda>_. Null)(7 := Fun), active := 1, submitted := [7]\<rparr>"

lemma one_submitted_step: "pool_step\<^sup>*\<^sup>* (pool_start (pool_size (Some 1) True)) one_submitted"
  unfolding pool_size_1
  using submit [of "pool_start 1" 7] by (intro r_into_rtranclp) (simp add: pool_step_def one_submitted_def pool_start_def items_def)

theorem pool_answers_once_witness:
  "items one_submitted = [7] \<and> mset (items one_submitted) + mset (answered one_submitted) = mset (submitted one_submitted) \<and>
    active one_submitted = length (items one_submitted)"
  using pool_answers_once [OF one_submitted_step]
  by (simp add: one_submitted_def items_def pool_start_def)

text \<open>
  C5. Work settles: from a reachable state in which the pool is not being shut down, with no new calls of the client, the threads make
  at most \<open>pool_energy s\<close> steps, whatever the order; a run that cannot be continued, and there is one, has
  left nothing in the pool: every piece of work submitted is answered, what was executed is what was reported done, and the loop's count
  of requests is zero. No wakeup of a worker or of the loop is lost, and no step waits for a mutex for ever.
\<close>

theorem pool_settles:
  assumes "pool_step\<^sup>*\<^sup>* (pool_start (pool_size val memory)) s" and "\<not> pool_closing s"
  shows "(\<forall>k s'. (pool_work ^^ k) s s' \<longrightarrow> k \<le> pool_energy s) \<and>
    (\<exists>s'. pool_work\<^sup>*\<^sup>* s s' \<and> (\<forall>s''. \<not> pool_work s' s'')) \<and>
    (\<forall>s'. pool_work\<^sup>*\<^sup>* s s' \<longrightarrow> (\<forall>s''. \<not> pool_work s' s'') \<longrightarrow>
      items s' = [] \<and> active s' = 0 \<and> mset (answered s') = mset (submitted s') \<and> mset (executed s') = mset (succeeded s'))"
proof (intro conjI allI impI)
  have i: "pool_inv s" using pool_run [OF assms(1) pool_size_bounds(1)] .
  show "k \<le> pool_energy s" if "(pool_work ^^ k) s s'" for k s' using pool.work_bounded [OF that i] by simp
  show "\<exists>s'. pool_work\<^sup>*\<^sup>* s s' \<and> (\<forall>s''. \<not> pool_work s' s'')" using pool.settles [OF i] by blast
  fix s'
  assume w: "pool_work\<^sup>*\<^sup>* s s'" and e: "\<forall>s''. \<not> pool_work s' s''"
  note r = pool_rest [OF pool.steps_inv [OF pool.work_steps [OF w] i] pool_work_open [OF w assms(2)] e]
  show "items s' = []" "active s' = 0" "mset (answered s') = mset (submitted s')" "mset (executed s') = mset (succeeded s')" using r by blast+
qed

theorem pool_settles_witness:
  "pool_energy one_submitted = 18 \<and>
    (\<exists>s'. pool_work\<^sup>*\<^sup>* one_submitted s' \<and> items s' = [] \<and> active s' = 0 \<and> mset (answered s') = mset (submitted s'))"
proof -
  have "\<not> pool_closing one_submitted" by (simp add: pool_closing_def one_submitted_def pool_start_def)
  note s = pool_settles [OF one_submitted_step this, THEN conjunct2]
  obtain s' where "pool_work\<^sup>*\<^sup>* one_submitted s'" "\<forall>s''. \<not> pool_work s' s''" using s [THEN conjunct1] by blast
  moreover from this have "items s' = []" "active s' = 0" "mset (answered s') = mset (submitted s')" using s [THEN conjunct2] by blast+
  moreover have "pool_energy one_submitted = 18" by (simp add: pool_energy_def one_submitted_def pool_start_def)
  ultimately show ?thesis by blast
qed

end
