(* ===== verification/Cstring.thy ===== *)
theory Cstring
  imports Prelude "HOL-Library.Sublist"
begin

text \<open>
  What the code uses of the C library on strings: \<^verbatim>\<open>strchr\<close>, \<^verbatim>\<open>strlen\<close>, and the conversions \<^verbatim>\<open>%u\<close> and
  \<^verbatim>\<open>%x\<close> of \<^verbatim>\<open>printf\<close>. A C string is the list of its characters before the terminating NUL. The
  locale \<open>codec\<close> is the contract of a printer and its parser.
\<close>

subsection \<open>Digits\<close>

definition xdigits_l :: string where "xdigits_l = ''0123456789abcdef''"
definition xdigits_u :: string where "xdigits_u = ''0123456789ABCDEF''"
definition dec_digits :: string where "dec_digits = ''0123456789''"

text \<open>The position of a character in a string, the value of \<^verbatim>\<open>strchr(s, c) - s\<close>.\<close>

fun strchr :: "string \<Rightarrow> char \<Rightarrow> nat option" where
  "strchr [] c = None"
| "strchr (x # s) c = (if x = c then Some 0 else map_option Suc (strchr s c))"

fun digits :: "nat \<Rightarrow> nat \<Rightarrow> string" where
  "digits b n =
     (if n < b \<or> b < 2 then [xdigits_l ! n] else digits b (n div b) @ [xdigits_l ! (n mod b)])"

declare digits.simps [simp del]

text \<open>\<^verbatim>\<open>%u\<close> and \<^verbatim>\<open>%x\<close>.\<close>

definition print_u :: "nat \<Rightarrow> string" where "print_u n = digits 10 n"
definition print_x :: "nat \<Rightarrow> string" where "print_x n = digits 16 n"

lemma digits_small: "n < b \<Longrightarrow> digits b n = [xdigits_l ! n]"
  by (simp add: digits.simps)

lemma digits_step: "2 \<le> b \<Longrightarrow> b \<le> n \<Longrightarrow> digits b n = digits b (n div b) @ [xdigits_l ! (n mod b)]"
  by (subst digits.simps) simp

lemma digits_not_Nil [simp]: "digits b n \<noteq> []"
  by (subst digits.simps) simp

lemma digits_length:
  "2 \<le> b \<Longrightarrow> 0 < k \<Longrightarrow> n < b ^ k \<Longrightarrow> length (digits b n) \<le> k"
proof (induction k arbitrary: n)
  case (Suc k)
  show ?case
  proof (cases "n < b")
    case True
    then show ?thesis by (simp add: digits_small)
  next
    case False
    with Suc.prems have "0 < k" by (cases k) auto
    moreover have "n div b < b ^ k"
      using Suc.prems by (simp add: less_mult_imp_div_less mult.commute)
    ultimately show ?thesis using Suc False by (simp add: digits_step)
  qed
qed simp

lemma xdigit_cases:
  assumes "(n :: nat) < 16"
  shows "n \<in> {0, 1, 2, 3, 4, 5, 6, 7, 8, 9, 10, 11, 12, 13, 14, 15}"
proof -
  have "n \<in> set [0..<16]" using assms by simp
  also have "[0..<16] = [0, 1, 2, 3, 4, 5, 6, 7, 8, 9, 10, 11, 12, 13, 14, 15 :: nat]" by (simp add: upt_rec)
  finally show ?thesis by simp
qed

lemma strchr_xdigit: "n < 16 \<Longrightarrow> strchr xdigits_l (xdigits_l ! n) = Some n"
  using xdigit_cases [of n] by (auto simp: xdigits_l_def)

lemma strchr_digit: "n < 10 \<Longrightarrow> strchr dec_digits (xdigits_l ! n) = Some n"
  using xdigit_cases [of n] by (auto simp: xdigits_l_def dec_digits_def)

lemma strchr_SomeD: "strchr s c = Some i \<Longrightarrow> i < length s \<and> s ! i = c"
  by (induction s arbitrary: i) (auto split: if_splits)

lemma strchr_None: "strchr s c = None \<longleftrightarrow> c \<notin> set s"
  by (induction s) auto

lemma digits_xdigits: "2 \<le> b \<Longrightarrow> b \<le> 16 \<Longrightarrow> c \<in> set (digits b n) \<Longrightarrow> \<exists>k<b. c = xdigits_l ! k"
proof (induction b n rule: digits.induct)
  case (1 b n)
  show ?case
  proof (cases "n < b")
    case True
    with 1 show ?thesis by (auto simp: digits_small)
  next
    case False
    then have *: "digits b n = digits b (n div b) @ [xdigits_l ! (n mod b)]" using 1 by (simp add: digits_step)
    from "1.prems"(3) consider "c \<in> set (digits b (n div b))" | "c = xdigits_l ! (n mod b)"
      by (auto simp: *)
    then show ?thesis
    proof cases
      case 1
      then show ?thesis using "1.IH" "1.prems" False by simp
    next
      case 2
      moreover have "n mod b < b" using "1.prems" by simp
      ultimately show ?thesis by blast
    qed
  qed
qed

text \<open>No leading zero, except for the number itself.\<close>

lemma digits_hd: "2 \<le> b \<Longrightarrow> b \<le> 16 \<Longrightarrow> 0 < n \<Longrightarrow> hd (digits b n) \<noteq> CHR ''0''"
proof (induction b n rule: digits.induct)
  case (1 b n)
  show ?case
  proof (cases "n < b")
    case True
    then have "n < 16" using 1 by simp
    with xdigit_cases [of n] 1 True show ?thesis by (auto simp: digits_small xdigits_l_def)
  next
    case False
    then have "0 < n div b" using 1 by (simp add: div_greater_zero_iff)
    with 1 False show ?thesis by (simp add: digits_step)
  qed
qed

subsection \<open>Printers and parsers\<close>

locale codec =
  fixes print :: "'a \<Rightarrow> 'b"
    and parse :: "'b \<Rightarrow> 'e + 'a"
    and good :: "'a \<Rightarrow> bool"
  assumes parse_print: "good x \<Longrightarrow> parse (print x) = Inr x"
begin

lemma print_inj: "good x \<Longrightarrow> good y \<Longrightarrow> print x = print y \<Longrightarrow> x = y"
  by (metis parse_print sum.inject(2))

lemma parse_onto: "good x \<Longrightarrow> \<exists>s. parse s = Inr x"
  using parse_print by blast

end

end
