(* ===== verification/Inet.thy ===== *)
theory Inet
  imports Cstring
begin

text \<open>
  Textual internet addresses, \<^verbatim>\<open>3rd/libuv/src/inet.c\<close>.

  Addresses are lists of bytes in network order, C strings are lists of characters without the
  terminating NUL. A conversion gives \<open>Inl\<close> of the error code or \<open>Inr\<close> of what it stores.
  The lemmas say that printing never runs over the buffer of the code and that parsing inverts it.
\<close>

subsection \<open>Printing\<close>

definition AF_INET :: int where "AF_INET = 2"
definition AF_INET6 :: int where "AF_INET6 = 10"
definition UV_INET_EINVAL :: int where "UV_INET_EINVAL = - 22"
definition UV_EAFNOSUPPORT :: int where "UV_EAFNOSUPPORT = - 97"
definition UV_ENOSPC :: int where "UV_ENOSPC = - 28"
definition UV__INET_ADDRSTRLEN :: nat where "UV__INET_ADDRSTRLEN = 16"
definition UV__INET6_ADDRSTRLEN :: nat where "UV__INET6_ADDRSTRLEN = 46"

definition fmt_ipv4 :: "u8 list \<Rightarrow> string" where
  "fmt_ipv4 src = print_u (unat (src ! 0)) @ ''.'' @ print_u (unat (src ! 1)) @ ''.'' @
     print_u (unat (src ! 2)) @ ''.'' @ print_u (unat (src ! 3))"

text \<open>
  \<^verbatim>\<open>snprintf\<close> gives the length of the whole text and stores what fits into the 16 bytes of \<^verbatim>\<open>tmp\<close>;
  \<^verbatim>\<open>strncpy\<close> and the final NUL cut it to the size of the caller.
\<close>

definition inet_ntop4 :: "u8 list \<Rightarrow> nat \<Rightarrow> int + string" where
  "inet_ntop4 src sz =
     (let l = length (fmt_ipv4 src); tmp = take (UV__INET_ADDRSTRLEN - 1) (fmt_ipv4 src) in
      if l = 0 \<or> l \<ge> sz then Inl UV_ENOSPC
      else Inr (take (sz - 1) tmp))"

definition ntop6_words :: "u8 list \<Rightarrow> u32 list" where
  "ntop6_words src =
     fold (\<lambda>i words. words[i div 2 := words ! (i div 2) OR push_bit (8 * (1 - i mod 2)) (ucast (src ! i))])
       [0..<16] (replicate 8 0)"

text \<open>The longest run of zero words; a run is a base and a length, with base -1 for none.\<close>

type_synonym run = "int \<times> int"

definition ntop6_scan :: "bool list \<Rightarrow> run" where
  "ntop6_scan zeros =
     (let close = (\<lambda>(best, cur). if fst best = - 1 \<or> snd cur > snd best then cur else best);
          (best, cur) = fold (\<lambda>i (best, cur).
              if zeros ! i
              then (best, if fst cur = - 1 then (int i, 1) else (fst cur, snd cur + 1))
              else if fst cur \<noteq> - 1 then (close (best, cur), (- 1, snd cur)) else (best, cur))
            [0..<8] ((- 1, 0), (- 1, 0));
          best = (if fst cur \<noteq> - 1 then close (best, cur) else best)
      in if fst best \<noteq> - 1 \<and> snd best < 2 then (- 1, snd best) else best)"

text \<open>The loop that prints the words, \<open>tp\<close> being what is printed so far.\<close>

fun ntop6_print :: "u8 list \<Rightarrow> u32 list \<Rightarrow> run \<Rightarrow> nat list \<Rightarrow> string \<Rightarrow> int + string" where
  "ntop6_print src words best [] tp = Inr tp"
| "ntop6_print src words best (i # is) tp =
     (if fst best \<noteq> - 1 \<and> int i \<ge> fst best \<and> int i < fst best + snd best
      then ntop6_print src words best is (if int i = fst best then tp @ '':'' else tp)
      else (let tp = (if i \<noteq> 0 then tp @ '':'' else tp) in
        if i = 6 \<and> fst best = 0 \<and>
           (snd best = 6 \<or> (snd best = 7 \<and> words ! 7 \<noteq> 1) \<or> (snd best = 5 \<and> words ! 5 = 0xffff))
        then (case inet_ntop4 (drop 12 src) (UV__INET6_ADDRSTRLEN - length tp) of
                Inl e \<Rightarrow> Inl e
              | Inr s \<Rightarrow> Inr (tp @ s))
        else ntop6_print src words best is (tp @ print_x (unat (words ! i)))))"

definition inet_ntop6 :: "u8 list \<Rightarrow> nat \<Rightarrow> int + string" where
  "inet_ntop6 src sz =
     (let words = ntop6_words src;
          best = ntop6_scan (map (\<lambda>w. w = 0) words)
      in case ntop6_print src words best [0..<8] '''' of
           Inl e \<Rightarrow> Inl e
         | Inr tp \<Rightarrow>
             (let tp = (if fst best \<noteq> - 1 \<and> fst best + snd best = 8 then tp @ '':'' else tp)
              in if length tp + 1 > sz then Inl UV_ENOSPC else Inr tp))"

definition uv_inet_ntop :: "int \<Rightarrow> u8 list \<Rightarrow> nat \<Rightarrow> int + string" where
  "uv_inet_ntop af src sz =
     (if af = AF_INET then inet_ntop4 src sz
      else if af = AF_INET6 then inet_ntop6 src sz
      else Inl UV_EAFNOSUPPORT)"

subsection \<open>Parsing\<close>

text \<open>\<open>acc\<close> holds the finished bytes of \<^verbatim>\<open>tmp\<close>, \<open>cur\<close> is \<^verbatim>\<open>*tp\<close>.\<close>

fun pton4_loop :: "string \<Rightarrow> bool \<Rightarrow> nat \<Rightarrow> u8 list \<Rightarrow> u8 \<Rightarrow> int + u8 list" where
  "pton4_loop [] saw octets acc cur =
     (if octets < 4 then Inl UV_INET_EINVAL else Inr (acc @ [cur]))"
| "pton4_loop (ch # src) saw octets acc cur =
     (case strchr dec_digits ch of
        Some d \<Rightarrow>
          (let nw = unat cur * 10 + d in
           if saw \<and> cur = 0 then Inl UV_INET_EINVAL
           else if nw > 255 then Inl UV_INET_EINVAL
           else if \<not> saw
           then (if octets + 1 > 4 then Inl UV_INET_EINVAL
                 else pton4_loop src True (octets + 1) acc (of_nat nw))
           else pton4_loop src saw octets acc (of_nat nw))
      | None \<Rightarrow>
          if ch = CHR ''.'' \<and> saw
          then (if octets = 4 then Inl UV_INET_EINVAL
                else pton4_loop src False octets (acc @ [cur]) 0)
          else Inl UV_INET_EINVAL)"

definition inet_pton4 :: "string \<Rightarrow> int + u8 list" where
  "inet_pton4 src = pton4_loop src False 0 [] 0"

definition hi_lo :: "u32 \<Rightarrow> u8 list" where
  "hi_lo val = [ucast (drop_bit 8 val), ucast val]"

definition hex_value :: "char \<Rightarrow> nat option" where
  "hex_value ch = (case strchr xdigits_l ch of Some i \<Rightarrow> Some i | None \<Rightarrow> strchr xdigits_u ch)"

text \<open>
  The reading loop of \<^verbatim>\<open>inet_pton6\<close>: the rest of the text, the start of the token, the digits
  seen and their value, the bytes stored, and the place of the double colon. The result is the state in
  which the loop ends, or \<open>None\<close> for \<^verbatim>\<open>UV_EINVAL\<close>.
\<close>

fun pton6_loop ::
  "string \<Rightarrow> string \<Rightarrow> nat \<Rightarrow> u32 \<Rightarrow> u8 list \<Rightarrow> nat option \<Rightarrow> (nat \<times> u32 \<times> u8 list \<times> nat option) option" where
  "pton6_loop [] curtok seen val tp colonp = Some (seen, val, tp, colonp)"
| "pton6_loop (ch # src) curtok seen val tp colonp =
     (case hex_value ch of
        Some d \<Rightarrow>
          (if seen + 1 > 4 then None
           else pton6_loop src curtok (seen + 1) (push_bit 4 val OR of_nat d) tp colonp)
      | None \<Rightarrow>
          if ch = CHR '':''
          then (if seen = 0
                then (if colonp \<noteq> None then None else pton6_loop src src seen val tp (Some (length tp)))
                else if src = [] then None
                else if length tp + 2 > 16 then None
                else pton6_loop src src 0 0 (tp @ hi_lo val) colonp)
          else if ch = CHR ''.'' \<and> length tp + 4 \<le> 16
          then (case inet_pton4 curtok of
                  Inr v4 \<Rightarrow> Some (0, val, tp @ v4, colonp)
                | Inl e \<Rightarrow> None)
          else None)"

text \<open>The bytes after the double colon move to the end of \<^verbatim>\<open>tmp\<close>, one by one.\<close>

definition pton6_shift :: "u8 list \<Rightarrow> nat \<Rightarrow> u8 list" where
  "pton6_shift tp c =
     (let n = length tp - c in
      fold (\<lambda>i tmp. tmp[16 - i := tmp ! (c + (n - i)), c + (n - i) := 0])
        [1..<n + 1] (tp @ replicate (16 - length tp) 0))"

definition pton6_finish :: "nat \<times> u32 \<times> u8 list \<times> nat option \<Rightarrow> int + u8 list" where
  "pton6_finish = (\<lambda>(seen, val, tp, colonp).
     if seen \<noteq> 0 \<and> length tp + 2 > 16 then Inl UV_INET_EINVAL
     else (let tp = (if seen \<noteq> 0 then tp @ hi_lo val else tp) in
       case colonp of
         Some c \<Rightarrow> (if length tp = 16 then Inl UV_INET_EINVAL else Inr (pton6_shift tp c))
       | None \<Rightarrow> (if length tp \<noteq> 16 then Inl UV_INET_EINVAL else Inr tp)))"

definition inet_pton6 :: "string \<Rightarrow> int + u8 list" where
  "inet_pton6 src =
     (let start = (case src of
                     c # s \<Rightarrow> if c = CHR '':'' then (case s of d # _ \<Rightarrow> if d = CHR '':'' then Some s else None
                                                      | [] \<Rightarrow> None)
                              else Some src
                   | [] \<Rightarrow> Some src)
      in case start of
           None \<Rightarrow> Inl UV_INET_EINVAL
         | Some s \<Rightarrow> (case pton6_loop s s 0 0 [] None of
                        None \<Rightarrow> Inl UV_INET_EINVAL
                      | Some r \<Rightarrow> pton6_finish r))"

text \<open>\<open>dst_null\<close> tells that \<^verbatim>\<open>dst\<close> is the null pointer, \<open>src = None\<close> that \<^verbatim>\<open>src\<close> is.\<close>

definition uv_inet_pton :: "int \<Rightarrow> string option \<Rightarrow> bool \<Rightarrow> int + u8 list" where
  "uv_inet_pton af src dst_null =
     (case src of
        None \<Rightarrow> Inl UV_INET_EINVAL
      | Some src \<Rightarrow>
          if dst_null then Inl UV_INET_EINVAL
          else if af = AF_INET then inet_pton4 src
          else if af = AF_INET6
          then (case strchr src (CHR ''%'') of
                  None \<Rightarrow> inet_pton6 src
                | Some len \<Rightarrow> if len > UV__INET6_ADDRSTRLEN - 1 then Inl UV_INET_EINVAL
                              else inet_pton6 (take len src))
          else Inl UV_EAFNOSUPPORT)"

subsection \<open>IPv4 round trip\<close>

lemma print_u_1: "n < 10 \<Longrightarrow> print_u n = [xdigits_l ! n]"
  by (simp add: print_u_def digits_small)

lemma print_u_2: "10 \<le> n \<Longrightarrow> n < 100 \<Longrightarrow> print_u n = [xdigits_l ! (n div 10), xdigits_l ! (n mod 10)]"
  by (simp add: print_u_def digits_step digits_small)

lemma print_u_3:
  "100 \<le> n \<Longrightarrow> n < 1000 \<Longrightarrow>
   print_u n = [xdigits_l ! (n div 100), xdigits_l ! (n div 10 mod 10), xdigits_l ! (n mod 10)]"
  by (simp add: print_u_def digits_step digits_small div_mult2_eq [symmetric])

lemma print_u_length: "n < 256 \<Longrightarrow> length (print_u n) \<le> 3"
  unfolding print_u_def by (rule digits_length) auto

lemma print_u_not_Nil [simp]: "print_u n \<noteq> []"
  by (simp add: print_u_def)

lemma strchr_dot [simp]: "strchr dec_digits (CHR ''.'') = None"
  by (simp add: dec_digits_def)

lemma pton4_digit:
  assumes "d < 10" and "saw \<longrightarrow> cur \<noteq> 0" and "unat cur * 10 + d \<le> 255"
  shows "pton4_loop (xdigits_l ! d # s) saw octets acc cur =
    (if saw then pton4_loop s saw octets acc (of_nat (unat cur * 10 + d))
     else if octets + 1 > 4 then Inl UV_INET_EINVAL
     else pton4_loop s True (octets + 1) acc (of_nat (unat cur * 10 + d)))"
  using assms by (auto simp: strchr_digit)

lemma u8_nat [simp]: "n < 256 \<Longrightarrow> unat (word_of_nat n :: u8) = n"
  by (simp add: unat_of_nat take_bit_nat_eq_self)

lemma u8_nat_0: "n < 256 \<Longrightarrow> (word_of_nat n :: u8) = 0 \<longleftrightarrow> n = 0"
  by (metis u8_nat unat_0 unat_eq_zero of_nat_0)

lemma pton4_number:
  assumes "n < 256" and "octets < 4"
  shows "pton4_loop (print_u n @ s) False octets acc 0 = pton4_loop s True (octets + 1) acc (of_nat n)"
proof -
  consider "n < 10" | "10 \<le> n" "n < 100" | "100 \<le> n" by linarith
  then show ?thesis
  proof cases
    case 1
    then show ?thesis using assms by (simp add: print_u_1 pton4_digit del: pton4_loop.simps)
  next
    case 2
    have "n div 10 < 10" "n div 10 \<noteq> 0" "n div 10 < 256" using 2 by auto
    then show ?thesis using assms 2
      by (simp add: print_u_2 pton4_digit u8_nat_0 del: pton4_loop.simps)
  next
    case 3
    have "n div 100 = n div 10 div 10" using div_mult2_eq [of n 10 10] by simp
    then have e: "n div 100 * 10 + n div 10 mod 10 = n div 10" by simp
    have "n div 100 < 10" "n div 100 \<noteq> 0" "n div 10 < 256" "n div 10 \<noteq> 0" "n div 100 < 256"
      using 3 assms by auto
    with e show ?thesis using assms 3
      by (simp add: print_u_3 pton4_digit u8_nat_0 del: pton4_loop.simps)
  qed
qed

lemma pton4_dot:
  "octets < 4 \<Longrightarrow> pton4_loop (CHR ''.'' # s) True octets acc cur = pton4_loop s False octets (acc @ [cur]) 0"
  by simp

lemma pton4_fmt:
  assumes "length a = 4"
  shows "inet_pton4 (fmt_ipv4 a) = Inr a"
proof -
  obtain b0 b1 b2 b3 where a: "a = [b0, b1, b2, b3]"
    using assms by (auto simp: numeral_eq_Suc length_Suc_conv)
  have b: "unat (x :: u8) < 256" for x
    using unsigned_less [of x, where ?'a = nat] by simp
  have end_of_text: "pton4_loop [] True (Suc (Suc (Suc (Suc 0)))) acc cur = Inr (acc @ [cur])" for acc cur by simp
  have last: "pton4_loop (print_u n) False octets acc 0 = pton4_loop [] True (octets + 1) acc (of_nat n)"
    if "n < 256" "octets < 4" for n octets acc
    using pton4_number [OF that, of "[]" acc] by simp
  show ?thesis
    by (simp add: a inet_pton4_def fmt_ipv4_def pton4_number pton4_dot last end_of_text b
        del: pton4_loop.simps)
qed

lemma fmt_ipv4_length: "length (fmt_ipv4 a) \<le> 15 \<and> fmt_ipv4 a \<noteq> []"
proof -
  have "length (print_u (unat (x :: u8))) \<le> 3" for x
    by (rule print_u_length) (use unsigned_less [of x, where ?'a = nat] in simp)
  from this [of "a ! 0"] this [of "a ! 1"] this [of "a ! 2"] this [of "a ! 3"]
  show ?thesis by (simp add: fmt_ipv4_def)
qed

lemma ntop4_fmt: "length (fmt_ipv4 a) < sz \<Longrightarrow> inet_ntop4 a sz = Inr (fmt_ipv4 a)"
  using fmt_ipv4_length [of a] by (simp add: inet_ntop4_def UV__INET_ADDRSTRLEN_def)

lemma ntop4_short: "sz \<le> length (fmt_ipv4 a) \<Longrightarrow> inet_ntop4 a sz = Inl UV_ENOSPC"
  by (simp add: inet_ntop4_def)

subsection \<open>IPv6 round trip\<close>

lemma hex_value_digit: "k < 16 \<Longrightarrow> hex_value (xdigits_l ! k) = Some k"
  by (simp add: hex_value_def strchr_xdigit)

lemma hex_value_punct [simp]: "hex_value (CHR '':'') = None" "hex_value (CHR ''.'') = None"
  by (simp_all add: hex_value_def xdigits_l_def xdigits_u_def)

lemma shift_in_digit: "push_bit 4 (n div 16) OR n mod 16 = (n :: nat)"
proof -
  have "push_bit 4 (drop_bit 4 n) OR take_bit 4 n = n"
    by (rule bit_eqI) (auto simp: bit_simps)
  then show ?thesis by (simp add: take_bit_eq_mod drop_bit_eq_div)
qed

lemma shift_in_digit_word: "push_bit 4 (of_nat (n div 16)) OR of_nat (n mod 16) = (of_nat n :: u32)"
proof -
  have "(of_nat n :: u32) = of_nat (push_bit 4 (n div 16) OR n mod 16)" by (simp only: shift_in_digit)
  also have "\<dots> = push_bit 4 (of_nat (n div 16)) OR of_nat (n mod 16)"
    by (simp only: of_nat_or_eq of_nat_push_bit)
  finally show ?thesis by simp
qed

lemma pton6_hex:
  "length (digits 16 n) \<le> 4 \<Longrightarrow>
   pton6_loop (digits 16 n @ s) cur 0 0 tp cp = pton6_loop s cur (length (digits 16 n)) (of_nat n) tp cp"
proof (induction "16 :: nat" n arbitrary: s rule: digits.induct)
  case (1 n)
  show ?case
  proof (cases "n < 16")
    case True
    then show ?thesis by (simp add: digits_small hex_value_digit)
  next
    case False
    then have "pton6_loop (digits 16 n @ s) cur 0 0 tp cp
        = pton6_loop (xdigits_l ! (n mod 16) # s) cur (length (digits 16 (n div 16))) (of_nat (n div 16)) tp cp"
      using 1 by (simp add: digits_step)
    also have "\<dots> = pton6_loop s cur (length (digits 16 n)) (of_nat n) tp cp"
      using 1 False by (simp add: digits_step hex_value_digit shift_in_digit_word)
    finally show ?thesis .
  qed
qed

lemma print_x_length: "n < 65536 \<Longrightarrow> length (print_x n) \<le> 4"
  unfolding print_x_def by (rule digits_length) auto

lemma print_x_not_Nil [simp]: "print_x n \<noteq> []"
  by (simp add: print_x_def)

text \<open>Words as the text has them: separated by colons.\<close>

fun join :: "nat list \<Rightarrow> string" where
  "join [] = ''''"
| "join [w] = print_x w"
| "join (w # ws) = print_x w @ '':'' @ join ws"

abbreviation bytes :: "nat list \<Rightarrow> u8 list" where
  "bytes ws \<equiv> concat (map (\<lambda>w. hi_lo (of_nat w)) ws)"

lemma length_bytes [simp]: "length (bytes ws) = 2 * length ws"
  by (induction ws) (auto simp: hi_lo_def)

lemma join_not_Nil: "ws \<noteq> [] \<Longrightarrow> join ws \<noteq> []"
  by (induction ws rule: join.induct) auto

lemma join_Cons: "ws \<noteq> [] \<Longrightarrow> join (w # ws) = print_x w @ '':'' @ join ws"
  by (cases ws) auto

lemma pton6_word:
  assumes "w < 65536" and "s \<noteq> []" and "length tp + 2 \<le> 16"
  shows "pton6_loop (print_x w @ CHR '':'' # s) cur 0 0 tp cp = pton6_loop s s 0 0 (tp @ hi_lo (of_nat w)) cp"
  using assms print_x_length [of w] by (simp add: print_x_def pton6_hex)

lemma pton6_last:
  assumes "w < 65536"
  shows "pton6_loop (print_x w) cur 0 0 tp cp = Some (length (print_x w), of_nat w, tp, cp)"
  using assms print_x_length [of w] pton6_hex [of w "[]"] by (simp add: print_x_def)

text \<open>The words of a text that stops after them.\<close>

lemma pton6_join:
  assumes "ws \<noteq> []" and "\<forall>w\<in>set ws. w < 65536" and "length tp + 2 * length ws \<le> 16"
  shows "pton6_loop (join ws) (join ws) 0 0 tp cp
    = Some (length (print_x (last ws)), of_nat (last ws), tp @ bytes (butlast ws), cp)"
  using assms
proof (induction ws arbitrary: tp rule: join.induct)
  case (2 w)
  then show ?case by (simp add: pton6_last)
next
  case (3 w v vs)
  have "pton6_loop (join (w # v # vs)) (join (w # v # vs)) 0 0 tp cp
      = pton6_loop (join (v # vs)) (join (v # vs)) 0 0 (tp @ hi_lo (of_nat w)) cp"
    using 3 pton6_word [of w "join (v # vs)" tp] join_not_Nil [of "v # vs"] by simp
  also have "\<dots> = Some (length (print_x (last (v # vs))), of_nat (last (v # vs)),
      (tp @ hi_lo (of_nat w)) @ bytes (butlast (v # vs)), cp)"
    by (rule "3.IH") (use 3 in \<open>auto simp: hi_lo_def\<close>)
  finally show ?case by simp
qed simp

text \<open>The words before a double colon.\<close>

lemma pton6_prefix:
  assumes "ws \<noteq> []" and "\<forall>w\<in>set ws. w < 65536" and "length tp + 2 * length ws \<le> 16"
  shows "pton6_loop (join ws @ ''::'' @ s) cur 0 0 tp None
    = pton6_loop s s 0 0 (tp @ bytes ws) (Some (length tp + 2 * length ws))"
  using assms
proof (induction ws arbitrary: tp cur rule: join.induct)
  case (2 w)
  then show ?case using pton6_word [of w "CHR '':'' # s" tp] by (simp add: hi_lo_def)
next
  case (3 w v vs)
  have "pton6_loop (join (w # v # vs) @ ''::'' @ s) cur 0 0 tp None
      = pton6_loop (join (v # vs) @ ''::'' @ s) (join (v # vs) @ ''::'' @ s) 0 0 (tp @ hi_lo (of_nat w)) None"
    using 3 pton6_word [of w "join (v # vs) @ ''::'' @ s" tp] by simp
  then show ?case using 3 by (simp add: hi_lo_def)
qed simp

lemma shift_steps:
  assumes "c \<le> length tp" and "length tp \<le> 16" and "k \<le> length tp - c"
  defines "z \<equiv> 16 - length tp" and "n \<equiv> length tp - c"
  assumes "0 < z"
  shows "fold (\<lambda>i tmp. tmp[16 - i := tmp ! (c + (n - i)), c + (n - i) := 0]) [1..<k + 1] (tp @ replicate z 0)
    = map (\<lambda>j. if 16 - k \<le> j then tp ! (j - z) else if c + n - k \<le> j then 0 else tp ! j) [0..<16]"
  using assms(3)
proof (induction k)
  case 0
  show ?case
    using assms by (intro nth_equalityI) (auto simp: nth_append)
next
  case (Suc k)
  have "fold (\<lambda>i tmp. tmp[16 - i := tmp ! (c + (n - i)), c + (n - i) := 0]) [1..<Suc k + 1] (tp @ replicate z 0)
    = (\<lambda>tmp. tmp[16 - Suc k := tmp ! (c + (n - Suc k)), c + (n - Suc k) := 0])
       (map (\<lambda>j. if 16 - k \<le> j then tp ! (j - z) else if c + n - k \<le> j then 0 else tp ! j) [0..<16])"
    using Suc by simp
  also have "\<dots> = map (\<lambda>j. if 16 - Suc k \<le> j then tp ! (j - z) else if c + n - Suc k \<le> j then 0 else tp ! j) [0..<16]"
    using Suc.prems assms by (intro nth_equalityI) (auto simp: nth_list_update)
  finally show ?case .
qed

lemma pton6_shift_eq:
  assumes "c \<le> length tp" and "length tp < 16"
  shows "pton6_shift tp c = take c tp @ replicate (16 - length tp) 0 @ drop c tp"
proof -
  have "pton6_shift tp c = map (\<lambda>j. if 16 - (length tp - c) \<le> j then tp ! (j - (16 - length tp))
      else if c + (length tp - c) - (length tp - c) \<le> j then 0 else tp ! j) [0..<16]"
    unfolding pton6_shift_def Let_def using assms by (intro shift_steps) auto
  also have "\<dots> = take c tp @ replicate (16 - length tp) 0 @ drop c tp"
    using assms by (intro nth_equalityI) (auto simp: nth_append)
  finally show ?thesis .
qed

lemma print_x_hd: "hd (print_x w) \<noteq> CHR '':''"
proof -
  have "hd (print_x w) \<in> set (digits 16 w)" by (simp add: print_x_def)
  then obtain k where "k < 16" "hd (print_x w) = xdigits_l ! k"
    using digits_xdigits [of 16 "hd (print_x w)" w] by auto
  then show ?thesis using hex_value_digit [of k] by (metis hex_value_punct(1) option.distinct(1))
qed

lemma join_hd: "ws \<noteq> [] \<Longrightarrow> hd (join ws) \<noteq> CHR '':''"
  by (induction ws rule: join.induct) (auto simp: print_x_hd)

lemma inet_pton6_plain:
  "s \<noteq> [] \<Longrightarrow> hd s \<noteq> CHR '':'' \<Longrightarrow>
   inet_pton6 s = (case pton6_loop s s 0 0 [] None of None \<Rightarrow> Inl UV_INET_EINVAL | Some r \<Rightarrow> pton6_finish r)"
  by (cases s) (auto simp: inet_pton6_def)

lemma inet_pton6_colons:
  "inet_pton6 (''::'' @ s)
   = (case pton6_loop s s 0 0 [] (Some 0) of None \<Rightarrow> Inl UV_INET_EINVAL | Some r \<Rightarrow> pton6_finish r)"
  by (simp add: inet_pton6_def)

lemma bytes_butlast: "ws \<noteq> [] \<Longrightarrow> bytes (butlast ws) @ hi_lo (of_nat (last ws)) = bytes ws"
  by (induction ws rule: rev_induct) auto

lemma length_hi_lo [simp]: "length (hi_lo v) = 2"
  by (simp add: hi_lo_def)

lemma pton6_full:
  assumes "length ws = 8" and "\<forall>w\<in>set ws. w < 65536"
  shows "inet_pton6 (join ws) = Inr (bytes ws)"
proof -
  have "ws \<noteq> []" using assms by auto
  then show ?thesis
    using assms pton6_join [of ws "[]" None] bytes_butlast [of ws]
    by (simp add: inet_pton6_plain join_not_Nil join_hd pton6_finish_def)
qed

lemma pton6_finish_words:
  assumes "length tp + 2 * length ws < 16" and "\<forall>w\<in>set ws. w < 65536" and "c \<le> length tp"
  shows "(case pton6_loop (join ws) (join ws) 0 0 tp (Some c) of None \<Rightarrow> Inl UV_INET_EINVAL | Some r \<Rightarrow> pton6_finish r)
    = Inr (pton6_shift (tp @ bytes ws) c)"
proof (cases "ws = []")
  case True
  then show ?thesis using assms by (simp add: pton6_finish_def)
next
  case False
  then obtain n where "length ws = Suc n" by (cases ws) auto
  with False show ?thesis
    using assms pton6_join [of ws tp "Some c"] bytes_butlast [of ws] by (simp add: pton6_finish_def)
qed

lemma pton6_compressed:
  assumes "length pre + length post \<le> 7" and "\<forall>w\<in>set (pre @ post). w < 65536"
  shows "inet_pton6 (join pre @ ''::'' @ join post)
    = Inr (bytes pre @ replicate (16 - 2 * (length pre + length post)) 0 @ bytes post)"
proof (cases "pre = []")
  case True
  then show ?thesis
    using assms inet_pton6_colons [of "join post"] pton6_finish_words [of "[]" post 0] pton6_shift_eq [of 0 "bytes post"]
    by simp
next
  case False
  then have "inet_pton6 (join pre @ ''::'' @ join post)
    = Inr (pton6_shift (bytes pre @ bytes post) (2 * length pre))"
    using assms inet_pton6_plain [of "join pre @ ''::'' @ join post"] join_hd [of pre] join_not_Nil [of pre]
      pton6_prefix [of pre "[]" "join post"] pton6_finish_words [of "bytes pre" post "2 * length pre"]
    by simp
  then show ?thesis using assms pton6_shift_eq [of "2 * length pre" "bytes pre @ bytes post"] by simp
qed

lemma pton6_digits:
  assumes "\<forall>c\<in>set ds. hex_value c \<noteq> None" and "seen + length ds \<le> 4"
  shows "\<exists>v. pton6_loop (ds @ s) cur seen val tp cp = pton6_loop s cur (seen + length ds) v tp cp"
  using assms
proof (induction ds arbitrary: seen val)
  case (Cons c ds)
  then obtain d where "hex_value c = Some d" by auto
  with Cons.IH [of "Suc seen" "push_bit 4 val OR of_nat d"] Cons.prems show ?case by simp
qed auto

lemma print_u_hex: "c \<in> set (print_u n) \<Longrightarrow> hex_value c \<noteq> None"
  using digits_xdigits [of 10 c n] hex_value_digit by (force simp: print_u_def)

text \<open>A dotted address at the end of the text.\<close>

lemma pton6_dotted:
  assumes "length v = 4" and "length tp + 4 \<le> 16"
  shows "\<exists>val. pton6_loop (fmt_ipv4 v) (fmt_ipv4 v) 0 0 tp cp = Some (0, val, tp @ v, cp)"
proof -
  have len: "length (print_u (unat (v ! 0))) \<le> 3"
    by (rule print_u_length) (use unsigned_less [of "v ! 0", where ?'a = nat] in simp)
  define rest where "rest = print_u (unat (v ! 1)) @ ''.'' @ print_u (unat (v ! 2)) @ ''.'' @ print_u (unat (v ! 3))"
  have "fmt_ipv4 v = print_u (unat (v ! 0)) @ CHR ''.'' # rest"
    by (simp add: fmt_ipv4_def rest_def)
  then obtain val where
    "pton6_loop (fmt_ipv4 v) (fmt_ipv4 v) 0 0 tp cp
     = pton6_loop (CHR ''.'' # rest) (fmt_ipv4 v) (length (print_u (unat (v ! 0)))) val tp cp"
    using pton6_digits [of "print_u (unat (v ! 0))" 0 "CHR ''.'' # rest" "fmt_ipv4 v" 0 tp cp] print_u_hex len
    by auto
  then show ?thesis using assms by (simp add: pton4_fmt)
qed

lemma pton6_mapped:
  assumes "length v = 4"
  shows "inet_pton6 (''::'' @ fmt_ipv4 v) = Inr (replicate 12 0 @ v)"
    and "inet_pton6 (''::'' @ print_x 65535 @ '':'' @ fmt_ipv4 v) = Inr (replicate 10 0 @ [255, 255] @ v)"
proof -
  obtain val where "pton6_loop (fmt_ipv4 v) (fmt_ipv4 v) 0 0 [] (Some 0) = Some (0, val, v, Some 0)"
    using pton6_dotted [of v "[]"] assms by auto
  then show "inet_pton6 (''::'' @ fmt_ipv4 v) = Inr (replicate 12 0 @ v)"
    using assms inet_pton6_colons [of "fmt_ipv4 v"] by (simp add: pton6_finish_def pton6_shift_eq)
  obtain val where "pton6_loop (fmt_ipv4 v) (fmt_ipv4 v) 0 0 (hi_lo 65535) (Some 0) = Some (0, val, hi_lo 65535 @ v, Some 0)"
    using pton6_dotted [of v "hi_lo 65535"] assms by auto
  then have "pton6_loop (print_x 65535 @ CHR '':'' # fmt_ipv4 v) (print_x 65535 @ CHR '':'' # fmt_ipv4 v) 0 0 [] (Some 0)
      = Some (0, val, hi_lo 65535 @ v, Some 0)"
    using pton6_word [of 65535 "fmt_ipv4 v" "[]"] fmt_ipv4_length [of v] by simp
  then show "inet_pton6 (''::'' @ print_x 65535 @ '':'' @ fmt_ipv4 v) = Inr (replicate 10 0 @ [255, 255] @ v)"
    using assms inet_pton6_colons [of "print_x 65535 @ '':'' @ fmt_ipv4 v"]
    by (simp add: pton6_finish_def pton6_shift_eq hi_lo_def drop_bit_eq_div)
qed

subsection \<open>What is printed\<close>

definition run_ok :: "bool list \<Rightarrow> bool" where
  "run_ok zeros =
     (let (b, l) = ntop6_scan zeros in
      b = - 1 \<or> 0 \<le> b \<and> 2 \<le> l \<and> b + l \<le> 8 \<and> (\<forall>i\<in>set [0..<8]. b \<le> int i \<and> int i < b + l \<longrightarrow> zeros ! i))"

lemma run_ok_all: "list_all run_ok (List.n_lists 8 [True, False])"
  by code_simp

lemma run_ok: "length zeros = 8 \<Longrightarrow> run_ok zeros"
proof -
  assume "length zeros = 8"
  then have "zeros \<in> set (List.n_lists 8 [True, False])" by (auto simp: set_n_lists)
  then show ?thesis using run_ok_all by (simp add: list_all_iff)
qed

lemma scan_cases:
  assumes "length zeros = 8"
  obtains l where "ntop6_scan zeros = (- 1, l)"
    | b l where "ntop6_scan zeros = (int b, int l)" "2 \<le> l" "b + l \<le> 8" "\<forall>i. b \<le> i \<and> i < b + l \<longrightarrow> zeros ! i"
proof (cases "ntop6_scan zeros")
  case (Pair b l)
  show ?thesis
  proof (cases "b = - 1")
    case False
    with run_ok [OF assms] Pair have *: "0 \<le> b" "2 \<le> l" "b + l \<le> 8"
      "\<forall>i\<in>set [0..<8]. b \<le> int i \<and> int i < b + l \<longrightarrow> zeros ! i"
      by (auto simp: run_ok_def)
    then obtain n m where nm: "b = int n" "l = int m" by (metis nonneg_int_cases order_trans zero_le_numeral)
    show ?thesis
    proof (rule that(2))
      show "ntop6_scan zeros = (int n, int m)" using Pair nm by simp
      show "2 \<le> m" "n + m \<le> 8" using * nm by linarith+
      show "\<forall>i. n \<le> i \<and> i < n + m \<longrightarrow> zeros ! i"
        using * nm \<open>n + m \<le> 8\<close> by simp
    qed
  qed (use Pair that(1) in simp)
qed

definition in_run :: "run \<Rightarrow> nat \<Rightarrow> bool" where
  "in_run best i \<longleftrightarrow> fst best \<noteq> - 1 \<and> int i \<ge> fst best \<and> int i < fst best + snd best"

definition embeds :: "u32 list \<Rightarrow> run \<Rightarrow> bool" where
  "embeds words best \<longleftrightarrow> fst best = 0 \<and> (snd best = 6 \<or> snd best = 5 \<and> words ! 5 = 0xffff)"

abbreviation colon_words :: "nat list \<Rightarrow> string" where
  "colon_words ws \<equiv> concat (map (\<lambda>w. CHR '':'' # print_x w) ws)"

lemma join_colons: "join (w # ws) = print_x w @ colon_words ws"
  by (induction ws arbitrary: w) auto

lemma colons_join: "ws \<noteq> [] \<Longrightarrow> colon_words ws = '':'' @ join ws"
  by (cases ws) (auto simp: join_colons)

lemma ntop6_print_inside:
  "(\<forall>i\<in>set is. in_run best i \<and> int i \<noteq> fst best) \<Longrightarrow>
   ntop6_print src words best (is @ js) tp = ntop6_print src words best js tp"
  by (induction "is") (auto simp: in_run_def)

lemma ntop6_print_outside:
  assumes "\<not> embeds words best"
  shows "(\<forall>i\<in>set is. i \<noteq> 0 \<and> \<not> in_run best i) \<Longrightarrow>
   ntop6_print src words best (is @ js) tp
   = ntop6_print src words best js (tp @ colon_words (map (\<lambda>i. unat (words ! i)) is))"
  using assms by (induction "is" arbitrary: tp) (auto simp: in_run_def embeds_def Let_def)

lemma ntop6_print_first:
  assumes "\<not> embeds words best" and "\<not> in_run best 0"
  shows "ntop6_print src words best (0 # js) tp
   = ntop6_print src words best js (tp @ print_x (unat (words ! 0)))"
  using assms by (auto simp: in_run_def)

text \<open>The words before a run that is not at the start.\<close>

lemma ntop6_print_before:
  assumes "\<not> embeds words best" and "\<forall>i<b. \<not> in_run best i" and "b \<le> length words"
  shows "ntop6_print src words best ([0..<b] @ js) ''''
   = ntop6_print src words best js (join (map unat (take b words)))"
proof (cases b)
  case 0
  then show ?thesis by simp
next
  case (Suc k)
  have "map unat (take b words) = unat (words ! 0) # map (\<lambda>i. unat (words ! i)) [1..<b]"
    using assms(3) Suc by (intro nth_equalityI) (auto simp: nth_Cons simp del: upt_Suc split: nat.split)
  moreover have "[0..<b] = 0 # [1..<b]" using Suc by (simp add: upt_conv_Cons)
  ultimately show ?thesis
    using assms Suc by (simp add: ntop6_print_first ntop6_print_outside join_colons del: ntop6_print.simps upt_Suc)
qed

lemma ntop6_print_run:
  assumes "2 \<le> l"
  shows "ntop6_print src words (int b, int l) ([b..<b + l] @ js) tp
   = ntop6_print src words (int b, int l) js (tp @ '':'')"
proof -
  have "[b..<b + l] = b # [b + 1..<b + l]" using assms by (simp add: upt_conv_Cons)
  moreover have "ntop6_print src words (int b, int l) (b # [b + 1..<b + l] @ js) tp
    = ntop6_print src words (int b, int l) ([b + 1..<b + l] @ js) (tp @ '':'')"
    using assms by simp
  moreover have "\<dots> = ntop6_print src words (int b, int l) js (tp @ '':'')"
    by (rule ntop6_print_inside) (auto simp: in_run_def)
  ultimately show ?thesis by simp
qed

lemma ntop6_print_compressed:
  assumes "2 \<le> l" and "b + l \<le> 8" and "length words = 8" and "\<not> embeds words (int b, int l)"
  shows "ntop6_print src words (int b, int l) [0..<8] ''''
    = Inr (join (map unat (take b words)) @ '':'' @ colon_words (map unat (drop (b + l) words)))"
proof -
  let ?B = "(int b, int l)"
  have "[0..<8] = [0..<b] @ [b..<b + l] @ [b + l..<8]"
  proof -
    obtain m where m: "8 = b + l + m" using assms(2) le_Suc_ex by blast
    show ?thesis unfolding m using upt_add_eq_append [of 0 "b + l" m] upt_add_eq_append [of 0 b l] by simp
  qed
  then have "ntop6_print src words ?B [0..<8] ''''
      = ntop6_print src words ?B ([b..<b + l] @ [b + l..<8]) (join (map unat (take b words)))"
    using assms ntop6_print_before [of words ?B b src "[b..<b + l] @ [b + l..<8]"] by (simp add: in_run_def)
  also have "\<dots> = ntop6_print src words ?B [b + l..<8] (join (map unat (take b words)) @ '':'')"
    by (rule ntop6_print_run) (rule assms)
  also have "\<dots> = Inr (join (map unat (take b words)) @ '':'' @ colon_words (map (\<lambda>i. unat (words ! i)) [b + l..<8]))"
    using assms ntop6_print_outside [of words ?B "[b + l..<8]" src "[]"] by (simp add: in_run_def)
  also have "map (\<lambda>i. unat (words ! i)) [b + l..<8] = map unat (drop (b + l) words)"
    using assms by (intro nth_equalityI) auto
  finally show ?thesis .
qed

lemma ntop6_print_whole:
  assumes "length words = 8" and "fst best = - 1"
  shows "ntop6_print src words best [0..<8] '''' = Inr (join (map unat words))"
  using assms ntop6_print_before [of words best 8 src "[]"] by (simp add: in_run_def embeds_def)

text \<open>The words of an address, and the address from its words.\<close>

lemma hi_lo_pair: "hi_lo (push_bit 8 (ucast a) OR ucast b) = [a, b]"
  by (auto simp: hi_lo_def bit_simps intro!: bit_word_eqI) (use bit_imp_le_length [of b] in force)

lemma pair_small: "unat (push_bit 8 (ucast (a :: u8)) OR ucast (b :: u8) :: u32) < 65536"
proof -
  have "take_bit 16 (push_bit 8 (ucast a) OR ucast b :: u32) = push_bit 8 (ucast a) OR ucast b"
    by (rule bit_word_eqI) (auto simp: bit_simps dest: bit_imp_le_length)
  then have "unat (push_bit 8 (ucast a) OR ucast b :: u32)
      = take_bit 16 (unat (push_bit 8 (ucast a) OR ucast b :: u32))"
    by (metis unsigned_take_bit_eq)
  then show ?thesis by (simp add: take_bit_eq_mod)
qed

lemma upt_8: "[0..<8] = [0, 1, 2, 3, 4, 5, 6, 7]" by (simp add: upt_rec)
lemma upt_16: "[0..<16] = [0, 1, 2, 3, 4, 5, 6, 7, 8, 9, 10, 11, 12, 13, 14, 15]" by (simp add: upt_rec)

lemma replicate_8: "replicate 8 x = [x, x, x, x, x, x, x, x]"
  by (simp add: numeral_eq_Suc)

lemma ntop6_words_pairs:
  "ntop6_words a = map (\<lambda>k. push_bit 8 (ucast (a ! (2 * k))) OR ucast (a ! (2 * k + 1))) [0..<8]"
  by (simp add: ntop6_words_def upt_8 upt_16 replicate_8)

lemma length_ntop6_words [simp]: "length (ntop6_words a) = 8"
  by (simp add: ntop6_words_pairs)

lemma ntop6_words_small: "w \<in> set (map unat (ntop6_words a)) \<Longrightarrow> w < 65536"
  by (auto simp: ntop6_words_pairs pair_small simp del: upt_Suc)

lemma list_pairs: "length a = 16 \<Longrightarrow> concat (map (\<lambda>k. [a ! (2 * k), a ! (2 * k + 1)]) [0..<8]) = a"
  by (auto simp: upt_8 numeral_eq_Suc length_Suc_conv)

lemma bytes_words: "length a = 16 \<Longrightarrow> bytes (map unat (ntop6_words a)) = a"
  using list_pairs [of a] by (simp add: ntop6_words_pairs hi_lo_pair comp_def del: upt_Suc)

subsection \<open>The round trips\<close>

lemma bytes_append: "bytes (us @ vs) = bytes us @ bytes vs"
  by simp

lemma bytes_zeros: "\<forall>w\<in>set ws. w = 0 \<Longrightarrow> bytes ws = replicate (2 * length ws) 0"
  by (induction ws) (auto simp: hi_lo_def)

lemma split_run:
  assumes "length ws = 8" and "b + l \<le> 8" and "\<forall>i. b \<le> i \<and> i < b + l \<longrightarrow> ws ! i = 0"
  shows "bytes (take b ws) @ replicate (2 * l) 0 @ bytes (drop (b + l) ws) = bytes ws"
proof -
  have "\<forall>w\<in>set (take l (drop b ws)). w = 0" using assms by (auto simp: in_set_conv_nth)
  from bytes_zeros [OF this] have "bytes (take l (drop b ws)) = replicate (2 * l) 0" using assms by simp
  moreover have "ws = take b ws @ take l (drop b ws) @ drop (b + l) ws"
    by (metis append_take_drop_id drop_drop add.commute)
  ultimately show ?thesis by (metis bytes_append)
qed

lemma join_length: "\<forall>w\<in>set ws. w < 65536 \<Longrightarrow> length (join ws) \<le> 5 * length ws"
proof (induction ws rule: join.induct)
  case (2 w)
  then show ?case using print_x_length [of w] by simp
next
  case (3 w v vs)
  then show ?case using print_x_length [of w] by simp
qed simp

definition addr_chars :: "string \<Rightarrow> bool" where
  "addr_chars s \<longleftrightarrow> CHR ''%'' \<notin> set s"

lemma addr_chars_append [simp]: "addr_chars (s @ t) \<longleftrightarrow> addr_chars s \<and> addr_chars t"
  by (auto simp: addr_chars_def)

lemma addr_chars_literals [simp]: "addr_chars '':''" "addr_chars ''.''" "addr_chars ''''"
  by (simp_all add: addr_chars_def)

lemma hex_value_percent: "hex_value (CHR ''%'') = None"
  by (simp add: hex_value_def xdigits_l_def xdigits_u_def)

lemma addr_chars_digits: "2 \<le> b \<Longrightarrow> b \<le> 16 \<Longrightarrow> addr_chars (digits b n)"
  using digits_xdigits [of b "CHR ''%''" n] hex_value_digit
  by (auto simp: addr_chars_def) (metis hex_value_percent less_le_trans option.distinct(1))

lemma addr_chars_print [simp]: "addr_chars (print_u n)" "addr_chars (print_x n)"
  by (simp_all add: print_u_def print_x_def addr_chars_digits)

lemma addr_chars_join [simp]: "addr_chars (join ws)"
proof (induction ws rule: join.induct)
  case (3 w v vs)
  then show ?case by (simp add: addr_chars_def) (simp add: addr_chars_def [symmetric])
qed simp_all

lemma addr_chars_fmt [simp]: "addr_chars (fmt_ipv4 a)"
  by (simp add: fmt_ipv4_def flip: append_Cons append_assoc)

text \<open>What \<^verbatim>\<open>inet_ntop6\<close> prints of an address: \<open>s\<close>, which parses to the address.\<close>

definition text_of :: "u8 list \<Rightarrow> string \<Rightarrow> bool" where
  "text_of a s \<longleftrightarrow>
     (\<forall>sz. inet_ntop6 a sz = (if length s + 1 > sz then Inl UV_ENOSPC else Inr s)) \<and>
     inet_pton6 s = Inr a \<and> length s \<le> 45 \<and> addr_chars s"

lemma leading_zeros:
  assumes "length a = 16" and "\<forall>i. i < k \<longrightarrow> ntop6_words a ! i = 0" and "k \<le> 8"
  shows "replicate (2 * k) 0 @ drop (2 * k) a = a"
proof -
  have "replicate (2 * k) 0 @ bytes (drop k (map unat (ntop6_words a))) = a"
    using split_run [of "map unat (ntop6_words a)" 0 k] bytes_words [of a] assms by simp
  then have "drop (2 * k) a = bytes (drop k (map unat (ntop6_words a)))"
    by (metis append_eq_conv_conj length_replicate)
  then show ?thesis using \<open>_ = a\<close> by simp
qed

lemma text_ofI:
  assumes "ntop6_scan (map (\<lambda>w. w = 0) (ntop6_words a)) = best"
    and "ntop6_print a (ntop6_words a) best [0..<8] '''' = Inr tp"
    and "s = (if fst best \<noteq> - 1 \<and> fst best + snd best = 8 then tp @ '':'' else tp)"
    and "inet_pton6 s = Inr a" and "length s \<le> 45" and "addr_chars s"
  shows "text_of a s"
  using assms unfolding text_of_def inet_ntop6_def by (simp add: Let_def)

lemma text_of_embedded:
  assumes "length a = 16" and "ntop6_scan (map (\<lambda>w. w = 0) (ntop6_words a)) = (0, int l)"
    and "\<forall>i. i < l \<longrightarrow> ntop6_words a ! i = 0" and "embeds (ntop6_words a) (0, int l)"
  shows "\<exists>s. text_of a s"
proof -
  let ?w = "ntop6_words a" and ?v = "drop 12 a"
  have v: "length ?v = 4" using assms by simp
  have fit: "inet_ntop4 ?v k = Inr (fmt_ipv4 ?v)" if "16 \<le> k" for k
    using fmt_ipv4_length [of ?v] that by (intro ntop4_fmt) simp
  from assms(4) consider "l = 6" | "l = 5" "?w ! 5 = 0xffff" by (auto simp: embeds_def)
  then show ?thesis
  proof cases
    case 1
    have "text_of a (''::'' @ fmt_ipv4 ?v)"
    proof (rule text_ofI [OF assms(2)])
      show "ntop6_print a ?w (0, int l) [0..<8] '''' = Inr (''::'' @ fmt_ipv4 ?v)"
        by (simp add: upt_8 fit UV__INET6_ADDRSTRLEN_def 1)
      show "inet_pton6 (''::'' @ fmt_ipv4 ?v) = Inr a"
        using pton6_mapped(1) [OF v] leading_zeros [of a 6] assms 1 by simp
      show "length (''::'' @ fmt_ipv4 ?v) \<le> 45" using fmt_ipv4_length [of ?v] by simp
      show "addr_chars (''::'' @ fmt_ipv4 ?v)" using addr_chars_fmt [of ?v] by (simp add: addr_chars_def)
    qed (simp add: 1)
    then show ?thesis ..
  next
    case 2
    let ?s = "''::'' @ print_x 65535 @ '':'' @ fmt_ipv4 ?v"
    have len: "length (print_x 65535) \<le> 4" by (rule print_x_length) simp
    have "text_of a ?s"
    proof (rule text_ofI [OF assms(2)])
      show "ntop6_print a ?w (0, int l) [0..<8] '''' = Inr ?s"
        using len by (simp add: upt_8 fit UV__INET6_ADDRSTRLEN_def 2)
      have "replicate 10 0 @ drop 10 a = a" using leading_zeros [of a 5] assms 2 by simp
      moreover have "[a ! 10, a ! 11] = hi_lo (?w ! 5)"
        by (simp add: ntop6_words_pairs hi_lo_pair upt_8)
      then have "[a ! 10, a ! 11] = [255, 255]" by (simp add: 2 hi_lo_def drop_bit_eq_div)
      then have "drop 10 a = [255, 255] @ ?v"
        using assms(1) Cons_nth_drop_Suc [of 10 a] Cons_nth_drop_Suc [of 11 a] by simp
      ultimately show "inet_pton6 ?s = Inr a"
        using pton6_mapped(2) [OF v] by simp
      show "length ?s \<le> 45" using fmt_ipv4_length [of ?v] len by simp
      show "addr_chars ?s"
        using addr_chars_fmt [of ?v] addr_chars_print(2) [of 65535] by (simp add: addr_chars_def)
    qed (simp add: 2)
    then show ?thesis ..
  qed
qed

lemma text_of_exists:
  assumes "length a = 16"
  shows "\<exists>s. text_of a s"
proof -
  let ?w = "ntop6_words a"
  let ?W = "map unat ?w"
  have small: "\<forall>w\<in>set ?W. w < 65536" using ntop6_words_small by blast
  have "length (map (\<lambda>w. w = 0) ?w) = 8" by simp
  then show ?thesis
  proof (cases rule: scan_cases)
    case (1 l)
    have "text_of a (join ?W)"
    proof (rule text_ofI [OF 1])
      show "ntop6_print a ?w (- 1, l) [0..<8] '''' = Inr (join ?W)" by (rule ntop6_print_whole) auto
      show "inet_pton6 (join ?W) = Inr a" using pton6_full [of ?W] small bytes_words [OF assms] by simp
      show "length (join ?W) \<le> 45" using join_length [OF small] by simp
    qed auto
    then show ?thesis ..
  next
    case (2 b l)
    have zero: "\<forall>i. b \<le> i \<and> i < b + l \<longrightarrow> ?w ! i = 0" using 2(3,4) by simp
    show ?thesis
    proof (cases "embeds ?w (int b, int l)")
      case True
      then have "b = 0" by (simp add: embeds_def)
      then show ?thesis using text_of_embedded [OF assms, of l] 2 zero True by simp
    next
      case False
      let ?pre = "take b ?W" and ?post = "drop (b + l) ?W"
      let ?s = "join ?pre @ ''::'' @ join ?post"
      have small': "\<forall>w\<in>set ?pre. w < 65536" "\<forall>w\<in>set ?post. w < 65536"
        using small by (meson in_set_takeD in_set_dropD)+
      have "text_of a ?s"
      proof (rule text_ofI [OF 2(1)])
        show "ntop6_print a ?w (int b, int l) [0..<8] ''''
            = Inr (join ?pre @ '':'' @ colon_words ?post)"
          using ntop6_print_compressed [OF 2(2,3) _ False] by (simp add: take_map drop_map)
        show "?s = (if fst (int b, int l) \<noteq> - 1 \<and> fst (int b, int l) + snd (int b, int l) = 8
            then (join ?pre @ '':'' @ colon_words ?post) @ '':'' else join ?pre @ '':'' @ colon_words ?post)"
          using 2(3) colons_join [of ?post] by (cases "b + l = 8") auto
        have "16 - 2 * (length ?pre + length ?post) = 2 * l" using 2(3) by simp
        then show "inet_pton6 ?s = Inr a"
          using pton6_compressed [of ?pre ?post] split_run [of ?W b l] bytes_words [OF assms] small' zero 2
          by (auto simp: ball_Un)
        have "length (join ?pre) \<le> 5 * b" "length (join ?post) \<le> 5 * (8 - (b + l))"
          using join_length [OF small'(1)] join_length [OF small'(2)] 2(3) by simp_all
        then show "length ?s \<le> 45" using 2(2,3) by simp
        show "addr_chars ?s"
          using addr_chars_join [of ?pre] addr_chars_join [of ?post] by (simp add: addr_chars_def)
      qed
      then show ?thesis ..
    qed
  qed
qed

lemma strchr_percent: "addr_chars s \<Longrightarrow> strchr s (CHR ''%'') = None"
  by (simp add: strchr_None addr_chars_def)

text \<open>Both pairs of functions are a printer and its parser.\<close>

definition print_ip6 :: "u8 list \<Rightarrow> string" where
  "print_ip6 a = (case inet_ntop6 a UV__INET6_ADDRSTRLEN of Inl e \<Rightarrow> '''' | Inr s \<Rightarrow> s)"

interpretation ip4: codec fmt_ipv4 inet_pton4 "\<lambda>a. length a = 4"
  by unfold_locales (rule pton4_fmt)

interpretation ip6: codec print_ip6 inet_pton6 "\<lambda>a. length a = 16"
proof unfold_locales
  fix a :: "u8 list"
  assume "length a = 16"
  then obtain s where s: "text_of a s" using text_of_exists by blast
  moreover then have "print_ip6 a = s" by (simp add: print_ip6_def text_of_def UV__INET6_ADDRSTRLEN_def)
  ultimately show "inet_pton6 (print_ip6 a) = Inr a" by (simp add: text_of_def)
qed

lemma ntop6_print_ip6:
  assumes "length a = 16"
  shows "inet_ntop6 a sz = (if length (print_ip6 a) + 1 > sz then Inl UV_ENOSPC else Inr (print_ip6 a))"
    and "length (print_ip6 a) \<le> 45" and "addr_chars (print_ip6 a)"
proof -
  obtain s where s: "text_of a s" using text_of_exists assms by blast
  moreover then have "print_ip6 a = s" by (simp add: print_ip6_def text_of_def UV__INET6_ADDRSTRLEN_def)
  ultimately show "inet_ntop6 a sz = (if length (print_ip6 a) + 1 > sz then Inl UV_ENOSPC else Inr (print_ip6 a))"
    and "length (print_ip6 a) \<le> 45" and "addr_chars (print_ip6 a)"
    by (simp_all add: text_of_def)
qed

text \<open>
  C32. Printing an IPv4 address into a buffer of at least 16 bytes succeeds, the text fits into the
  buffer of the function with its NUL, and parsing the text gives the address back.
\<close>

theorem inet4_roundtrip:
  assumes "length a = 4" and "UV__INET_ADDRSTRLEN \<le> sz"
  shows "\<exists>s. uv_inet_ntop AF_INET a sz = Inr s \<and> length s < UV__INET_ADDRSTRLEN \<and>
    uv_inet_pton AF_INET (Some s) False = Inr a"
  using assms fmt_ipv4_length [of a] ip4.parse_print [of a] ntop4_fmt [of a sz]
  by (simp add: uv_inet_ntop_def uv_inet_pton_def UV__INET_ADDRSTRLEN_def)

theorem inet4_roundtrip_witness:
  "\<exists>s. uv_inet_ntop AF_INET [192, 168, 0, 1] 16 = Inr s \<and> length s < UV__INET_ADDRSTRLEN \<and>
    uv_inet_pton AF_INET (Some s) False = Inr [192, 168, 0, 1]"
  by (rule inet4_roundtrip) (simp_all add: UV__INET_ADDRSTRLEN_def)

text \<open>
  C17. Printing an IPv6 address into a buffer of at least 46 bytes succeeds, the text fits into the
  buffer of the function with its NUL, and parsing the text gives the address back; this covers the
  compressed forms and the forms with an embedded IPv4 address.
\<close>

theorem inet6_roundtrip:
  assumes "length a = 16" and "UV__INET6_ADDRSTRLEN \<le> sz"
  shows "\<exists>s. uv_inet_ntop AF_INET6 a sz = Inr s \<and> length s < UV__INET6_ADDRSTRLEN \<and>
    uv_inet_pton AF_INET6 (Some s) False = Inr a"
  using assms ntop6_print_ip6(1) [of a sz] ntop6_print_ip6(2,3) [of a] ip6.parse_print [of a] strchr_percent [of "print_ip6 a"]
  by (simp add: uv_inet_ntop_def uv_inet_pton_def UV__INET6_ADDRSTRLEN_def AF_INET_def AF_INET6_def)

theorem inet6_roundtrip_witness:
  "\<exists>s. uv_inet_ntop AF_INET6 [254, 128, 0, 0, 0, 0, 0, 0, 0, 0, 0, 0, 0, 0, 0, 1] 46 = Inr s \<and>
    length s < UV__INET6_ADDRSTRLEN \<and>
    uv_inet_pton AF_INET6 (Some s) False = Inr [254, 128, 0, 0, 0, 0, 0, 0, 0, 0, 0, 0, 0, 0, 0, 1]"
  by (rule inet6_roundtrip) (simp_all add: UV__INET6_ADDRSTRLEN_def)

text \<open>
  C33. A buffer that is too small for the text and its NUL is refused with \<^verbatim>\<open>UV_ENOSPC\<close>, and no
  other buffer is: the functions never truncate an address.
\<close>

theorem inet_ntop_no_truncation:
  assumes "length a = (if af = AF_INET then 4 else 16)" and "af = AF_INET \<or> af = AF_INET6"
  shows "uv_inet_ntop af a sz =
    (let s = (if af = AF_INET then fmt_ipv4 a else print_ip6 a)
     in if length s + 1 > sz then Inl UV_ENOSPC else Inr s)"
proof (cases "af = AF_INET")
  case True
  then show ?thesis using assms ntop4_fmt [of a sz] ntop4_short [of sz a]
    by (cases "length (fmt_ipv4 a) < sz") (simp_all add: uv_inet_ntop_def Let_def)
next
  case False
  then show ?thesis using assms ntop6_print_ip6(1) [of a sz]
    by (simp add: uv_inet_ntop_def AF_INET_def AF_INET6_def Let_def)
qed

theorem inet_ntop_no_truncation_witness:
  "uv_inet_ntop AF_INET [10, 0, 0, 1] 8 =
    (let s = fmt_ipv4 [10, 0, 0, 1] in if length s + 1 > 8 then Inl UV_ENOSPC else Inr s)"
  using inet_ntop_no_truncation [of "[10, 0, 0, 1]" AF_INET 8] by simp

end
