(* ===== verification/EndPoint.thy ===== *)
theory EndPoint
  imports Inet
begin

text \<open>
  Socket endpoints, \<^verbatim>\<open>src/EndPoint.cpp\<close> and \<^verbatim>\<open>include/Moe.UV/EndPoint.hpp\<close>.

  An endpoint is its \<^verbatim>\<open>sockaddr_storage\<close>, 128 bytes in the layout of Linux on a little-endian machine:
  the family in host order, the port in network order, then the address; an IPv4 endpoint
  occupies 16 bytes and an IPv6 endpoint 28. A constructor gets the bytes that were in its memory
  before, because not all of them write all of it. An exception is \<open>Inl\<close>, a failed assertion \<open>None\<close>.

  \<^verbatim>\<open>Moe.Core\<close> is not part of the repository: the digits and the conversions it provides are the fields
  of the parameter \<open>C\<close>; the locale \<open>moe_text\<close> says what the code relies on.
\<close>

subsection \<open>What the library provides\<close>

record moe_core =
  IsDigit :: "char \<Rightarrow> bool"
  IsHexDigit :: "char \<Rightarrow> bool"
  HexDigitToNumber :: "char \<Rightarrow> nat"
  ToDecimalString :: "u8 \<Rightarrow> string"
  ToHexStringLower :: "u16 \<Rightarrow> string"
  Format2 :: "string \<Rightarrow> u16 \<Rightarrow> string"

datatype moe_exception = BadFormatException string

definition NUL :: char where "NUL = CHR 0x00"

text \<open>The character at \<^verbatim>\<open>start\<close>, or NUL at the end.\<close>

definition peek :: "string \<Rightarrow> char" where
  "peek rest = (case rest of [] \<Rightarrow> NUL | c # _ \<Rightarrow> c)"

subsection \<open>Parsing IPv4\<close>

definition UINT64_MAX :: u64 where "UINT64_MAX = 0xFFFFFFFFFFFFFFFF"
definition UINT32_MAX :: u64 where "UINT32_MAX = 0xFFFFFFFF"

definition in_range :: "char \<Rightarrow> char \<Rightarrow> char \<Rightarrow> bool" where
  "in_range lo ch hi \<longleftrightarrow> (of_char lo :: nat) \<le> of_char ch \<and> (of_char ch :: nat) \<le> of_char hi"

definition v4_digit :: "u64 \<Rightarrow> u64 \<Rightarrow> char \<Rightarrow> char \<Rightarrow> u64 \<Rightarrow> u64" where
  "v4_digit r radix ch base add =
     (if r \<noteq> UINT64_MAX then r * radix + of_nat (of_char ch - of_char base) + add else r)"

fun v4_number_loop :: "u64 \<Rightarrow> u64 \<Rightarrow> string \<Rightarrow> u64 option" where
  "v4_number_loop radix r [] = Some r"
| "v4_number_loop radix r (ch # s) =
     (let cap = (\<lambda>r. if r > UINT32_MAX then UINT64_MAX else r) in
      if in_range (CHR ''a'') ch (CHR ''f'')
      then (if radix \<noteq> 16 then None else v4_number_loop radix (cap (v4_digit r 16 ch (CHR ''a'') 10)) s)
      else if in_range (CHR ''A'') ch (CHR ''F'')
      then (if radix \<noteq> 16 then None else v4_number_loop radix (cap (v4_digit r 16 ch (CHR ''A'') 10)) s)
      else if in_range (CHR ''0'') ch (CHR ''9'')
      then (if (ch = CHR ''8'' \<or> ch = CHR ''9'') \<and> radix = 8 then None
            else v4_number_loop radix (cap (v4_digit r radix ch (CHR ''0'') 0)) s)
      else None)"

definition ParseIpv4Number :: "string \<Rightarrow> u64 option" where
  "ParseIpv4Number s =
     (let (radix, s) =
        (if length s \<ge> 2
         then (if s ! 0 = CHR ''0'' \<and> (s ! 1 = CHR ''x'' \<or> s ! 1 = CHR ''X'') then (16, drop 2 s)
               else if s ! 0 = CHR ''0'' then (8, drop 1 s)
               else (10, s))
         else (10, s))
      in if s = [] then Some 0 else v4_number_loop radix 0 s)"

text \<open>
  The loop over the characters. \<open>part\<close> are the characters since \<^verbatim>\<open>mark\<close>; \<open>numbers\<close> has the numbers
  stored so far, so its length is \<^verbatim>\<open>parts\<close>. \<open>None\<close> is \<^verbatim>\<open>return false\<close>.
\<close>

fun v4_parts :: "string \<Rightarrow> string \<Rightarrow> nat \<Rightarrow> u64 list \<Rightarrow> (nat \<times> u64 list) option" where
  "v4_parts rest part tooBig numbers =
     (let ch = peek rest in
      if ch = CHR ''.'' \<or> ch = NUL
      then (if length numbers + 1 > 4 then None
            else if part = [] then None
            else case ParseIpv4Number part of
              None \<Rightarrow> None
            | Some n \<Rightarrow>
                (let tooBig = (if n > 255 then tooBig + 1 else tooBig); numbers = numbers @ [n] in
                 if ch = CHR ''.'' \<and> length rest \<le> 1 then Some (tooBig, numbers)
                 else (case rest of [] \<Rightarrow> Some (tooBig, numbers) | _ # r \<Rightarrow> v4_parts r [] tooBig numbers)))
      else (case rest of [] \<Rightarrow> Some (tooBig, numbers) | c # r \<Rightarrow> v4_parts r (part @ [c]) tooBig numbers))"

declare v4_parts.simps [simp del]

definition ParseIpv4 :: "string \<Rightarrow> moe_exception + u32 option" where
  "ParseIpv4 s =
     (case v4_parts s [] 0 [] of
        None \<Rightarrow> Inr None
      | Some (tooBig, numbers) \<Rightarrow>
          (let parts = length numbers; m = numbers ! (parts - 1) in
           if tooBig > 1 \<or> (tooBig = 1 \<and> m \<le> 255) \<or> uint m \<ge> 256 ^ (5 - parts)
           then Inl (BadFormatException s)
           else (let val = fold (\<lambda>n val. val + numbers ! n * 256 ^ (3 - n)) [0..<parts - 1] m
                 in Inr (Some (ucast val)))))"

subsection \<open>Parsing IPv6\<close>

text \<open>The digits of one piece, at most four: value, number of digits, rest.\<close>

fun hex_run :: "'a moe_core_scheme \<Rightarrow> nat \<Rightarrow> u32 \<Rightarrow> string \<Rightarrow> u32 \<times> nat \<times> string" where
  "hex_run C len val [] = (val, len, [])"
| "hex_run C len val (ch # s) =
     (if len < 4 \<and> IsHexDigit C ch then hex_run C (len + 1) (val * 16 + of_nat (HexDigitToNumber C ch)) s
      else (val, len, ch # s))"

text \<open>The digits of one decimal number of an embedded IPv4 address.\<close>

fun dotted_number :: "'a moe_core_scheme \<Rightarrow> u32 \<Rightarrow> string \<Rightarrow> (u32 \<times> string) option" where
  "dotted_number C val [] = Some (val, [])"
| "dotted_number C val (ch # s) =
     (if IsDigit C ch
      then (let number = of_nat (of_char ch - of_char (CHR ''0'')) in
            if val = 0xFFFFFFFF then (if number > 255 then None else dotted_number C number s)
            else if val = 0 then None
            else if val * 10 + number > 255 then None
            else dotted_number C (val * 10 + number) s)
      else Some (val, ch # s))"

lemma dotted_number_shorter:
  "dotted_number C val s = Some (v, r) \<Longrightarrow> length r \<le> length s"
  by (induction C val s rule: dotted_number.induct) (auto simp: Let_def split: if_splits)

lemma dotted_number_progress:
  "dotted_number C val s = Some (v, r) \<Longrightarrow> s \<noteq> [] \<Longrightarrow> IsDigit C (hd s) \<Longrightarrow> length r < length s"
  by (cases s) (auto simp: Let_def less_Suc_eq_le dest: dotted_number_shorter split: if_splits)

text \<open>
  The loop over the four numbers of an embedded address. The guard on the empty rest is the case that
  the library never has: a NUL that is a digit.
\<close>

function dotted_loop ::
  "'a moe_core_scheme \<Rightarrow> nat \<Rightarrow> nat \<Rightarrow> u16 list \<Rightarrow> string \<Rightarrow> (nat \<times> nat \<times> u16 list \<times> string) option" where
  "dotted_loop C numbers current address rest =
     (if peek rest = NUL then Some (numbers, current, address, rest)
      else if numbers > 0 \<and> \<not> (peek rest = CHR ''.'' \<and> numbers < 4) then None
      else (let rest = (if numbers > 0 then tl rest else rest) in
        if rest = [] \<or> \<not> IsDigit C (hd rest) then None
        else case dotted_number C 0xFFFFFFFF rest of
          None \<Rightarrow> None
        | Some (val, r) \<Rightarrow>
            dotted_loop C (numbers + 1) (if numbers + 1 = 2 \<or> numbers + 1 = 4 then current + 1 else current)
              (address[current := address ! current * 0x100 + ucast val]) r))"
  by auto

termination
  by (relation "measure (\<lambda>(C, numbers, current, address, rest). length rest)")
    (auto dest!: dotted_number_progress split: if_splits)

declare dotted_loop.simps [simp del]

lemma hex_run_shorter: "hex_run C len val s = (v, l, r) \<Longrightarrow> length r \<le> length s"
  by (induction C len val s rule: hex_run.induct) (auto simp: Let_def split: if_splits)

text \<open>One turn of the loop over the pieces.\<close>

type_synonym v6_state = "nat \<times> nat option \<times> u16 list \<times> string"

definition v6_piece :: "'a moe_core_scheme \<Rightarrow> v6_state \<Rightarrow> v6_state option" where
  "v6_piece C = (\<lambda>(current, compress, address, rest).
     if current \<ge> 8 then None
     else if peek rest = CHR '':''
     then (if compress \<noteq> None then None
           else Some (current + 1, Some (current + 1), address[current := 0], tl rest))
     else (let (val, len, r) = hex_run C 0 0 rest in
       if peek r = CHR ''.''
       then (if len = 0 then None
             else if current > 6 then None
             else case dotted_loop C 0 current address rest of
               None \<Rightarrow> None
             | Some (numbers, cur, adr, r) \<Rightarrow> if numbers \<noteq> 4 then None else Some (cur, compress, adr, r))
       else if peek r = CHR '':''
       then (if peek (tl r) = NUL then None
             else Some (current + 1, compress, address[current := ucast val], tl r))
       else if peek r = NUL then Some (current + 1, compress, address[current := ucast val], r)
       else None))"

text \<open>Each turn moves on in the text or is the last, so as many turns as there are characters suffice.\<close>

fun v6_loop :: "'a moe_core_scheme \<Rightarrow> nat \<Rightarrow> v6_state \<Rightarrow> v6_state option" where
  "v6_loop C 0 st = Some st"
| "v6_loop C (Suc n) st =
     (if peek (snd (snd (snd st))) = NUL then Some st
      else case v6_piece C st of None \<Rightarrow> None | Some st' \<Rightarrow> v6_loop C n st')"

text \<open>The pieces after the compressed part change places with the zeros at the end.\<close>

fun v6_swap :: "nat \<Rightarrow> nat \<Rightarrow> nat \<Rightarrow> u16 list \<Rightarrow> u16 list" where
  "v6_swap compress current 0 address = address"
| "v6_swap compress 0 (Suc swaps) address = address"
| "v6_swap compress (Suc k) (Suc swaps) address =
     (let j = compress + swaps in
      v6_swap compress k swaps (address[Suc k := address ! j, j := address ! Suc k]))"

definition v6_finish :: "v6_state \<Rightarrow> u16 list option" where
  "v6_finish = (\<lambda>(current, compress, address, rest).
     case compress of
       Some c \<Rightarrow> Some (v6_swap c 7 (current - c) address)
     | None \<Rightarrow> if current \<noteq> 8 then None else Some address)"

definition ParseIpv6 :: "'a moe_core_scheme \<Rightarrow> string \<Rightarrow> u16 list option" where
  "ParseIpv6 C s =
     (let zero = replicate 8 0;
          st = (if peek s = CHR '':''
                then (if length s < 2 \<or> s ! 1 \<noteq> CHR '':'' then None else Some (1, Some 1, zero, drop 2 s))
                else Some (0, None, zero, s))
      in case st of None \<Rightarrow> None
         | Some st \<Rightarrow> (case v6_loop C (length s + 1) st of None \<Rightarrow> None | Some st \<Rightarrow> v6_finish st))"

subsection \<open>The storage\<close>

type_synonym storage = "u8 list"

definition storage_size :: nat where "storage_size = 128"
definition AF_INET_16 :: u16 where "AF_INET_16 = 2"
definition AF_INET6_16 :: u16 where "AF_INET6_16 = 10"

definition hi16 :: "u16 \<Rightarrow> u8" where "hi16 w = ucast (drop_bit 8 w)"
definition lo16 :: "u16 \<Rightarrow> u8" where "lo16 w = ucast w"

text \<open>\<^verbatim>\<open>htons\<close> and \<^verbatim>\<open>htonl\<close> followed by the store: bytes in network order; the family in host order.\<close>

definition net16 :: "u16 \<Rightarrow> u8 list" where "net16 w = [hi16 w, lo16 w]"
definition host16 :: "u16 \<Rightarrow> u8 list" where "host16 w = [lo16 w, hi16 w]"
definition net32 :: "u32 \<Rightarrow> u8 list" where
  "net32 w = [ucast (drop_bit 24 w), ucast (drop_bit 16 w), ucast (drop_bit 8 w), ucast w]"

definition rd16 :: "u8 \<Rightarrow> u8 \<Rightarrow> u16" where "rd16 hi lo = push_bit 8 (ucast hi) OR ucast lo"
definition rd32 :: "u8 \<Rightarrow> u8 \<Rightarrow> u8 \<Rightarrow> u8 \<Rightarrow> u32" where
  "rd32 a b c d = push_bit 24 (ucast a) OR push_bit 16 (ucast b) OR push_bit 8 (ucast c) OR ucast d"

text \<open>\<^verbatim>\<open>memcpy\<close> of \<open>bs\<close> to offset \<open>k\<close>.\<close>

definition put :: "nat \<Rightarrow> u8 list \<Rightarrow> storage \<Rightarrow> storage" where
  "put k bs m = take k m @ bs @ drop (k + length bs) m"

definition sockaddr_in :: "u32 \<Rightarrow> u16 \<Rightarrow> u8 list" where
  "sockaddr_in addr port = host16 AF_INET_16 @ net16 port @ net32 addr @ replicate 8 0"

definition sockaddr_in6 :: "u16 list \<Rightarrow> u16 \<Rightarrow> u8 list" where
  "sockaddr_in6 addr port =
     host16 AF_INET6_16 @ net16 port @ replicate 4 0 @ concat (map net16 addr) @ replicate 4 0"

definition ss_family :: "storage \<Rightarrow> u16" where "ss_family m = rd16 (m ! 1) (m ! 0)"
definition INADDR_ANY :: u32 where "INADDR_ANY = 0"

subsection \<open>Reading and writing\<close>

definition IsIpv4 :: "storage \<Rightarrow> bool" where "IsIpv4 m \<longleftrightarrow> ss_family m = AF_INET_16"
definition IsIpv6 :: "storage \<Rightarrow> bool" where "IsIpv6 m \<longleftrightarrow> ss_family m = AF_INET6_16"

definition GetPort :: "storage \<Rightarrow> u16" where
  "GetPort m =
     (if ss_family m = AF_INET_16 then rd16 (m ! 2) (m ! 3)
      else if ss_family m = AF_INET6_16 then rd16 (m ! 2) (m ! 3)
      else 0)"

definition SetPort :: "u16 \<Rightarrow> storage \<Rightarrow> storage" where
  "SetPort port m =
     (if ss_family m = AF_INET_16 then put 2 (net16 port) m
      else if ss_family m = AF_INET6_16 then put 2 (net16 port) m
      else m)"

definition GetAddressIpv4 :: "storage \<Rightarrow> u32 option" where
  "GetAddressIpv4 m =
     (if ss_family m \<noteq> AF_INET_16 then None else Some (rd32 (m ! 4) (m ! 5) (m ! 6) (m ! 7)))"

definition GetAddressIpv4_bytes :: "storage \<Rightarrow> u8 list option" where
  "GetAddressIpv4_bytes m = map_option (\<lambda>v4.
     [ucast (drop_bit 24 (v4 AND 0xFF000000)), ucast (drop_bit 16 (v4 AND 0xFF0000)),
      ucast (drop_bit 8 (v4 AND 0xFF00)), ucast (v4 AND 0xFF)]) (GetAddressIpv4 m)"

definition SetAddressIpv4 :: "u32 \<Rightarrow> storage \<Rightarrow> storage" where
  "SetAddressIpv4 addr m = put 0 (sockaddr_in addr (GetPort m)) m"

definition SetAddressIpv4_bytes :: "u8 list \<Rightarrow> storage \<Rightarrow> storage" where
  "SetAddressIpv4_bytes addr m =
     (let caddr = rd32 (addr ! 0) (addr ! 1) (addr ! 2) (addr ! 3)
      in put 0 (sockaddr_in caddr (GetPort m)) m)"

definition GetAddressIpv6 :: "storage \<Rightarrow> u16 list option" where
  "GetAddressIpv6 m =
     (if ss_family m \<noteq> AF_INET6_16 then None
      else Some (map (\<lambda>k. rd16 (m ! (8 + 2 * k)) (m ! (9 + 2 * k))) [0..<8]))"

text \<open>
  The IPv6 setter and the IPv6 constructor fill a local \<^verbatim>\<open>sockaddr_in6\<close>; neither copies it to the
  storage. The local is part of the model so that the lines can be compared; it is dropped as in the code.
\<close>

definition SetAddressIpv6 :: "u16 list \<Rightarrow> storage \<Rightarrow> storage" where
  "SetAddressIpv6 addr m = (let v6 = sockaddr_in6 addr (GetPort m) in m)"

definition EndPoint_ipv6_pieces :: "u16 list \<Rightarrow> u16 \<Rightarrow> storage \<Rightarrow> storage" where
  "EndPoint_ipv6_pieces addr port m = (let v6 = sockaddr_in6 addr port in m)"

definition EndPoint_default :: "storage \<Rightarrow> storage" where
  "EndPoint_default m = put 0 (sockaddr_in INADDR_ANY 0) m"

definition EndPoint_sockaddr_in :: "u8 list \<Rightarrow> storage \<Rightarrow> storage option" where
  "EndPoint_sockaddr_in v4 m = (if ss_family v4 \<noteq> AF_INET_16 then None else Some (put 0 v4 m))"

definition EndPoint_sockaddr_in6 :: "u8 list \<Rightarrow> storage \<Rightarrow> storage option" where
  "EndPoint_sockaddr_in6 v6 m = (if ss_family v6 \<noteq> AF_INET6_16 then None else Some (put 0 v6 m))"

definition EndPoint_storage :: "storage \<Rightarrow> storage \<Rightarrow> storage option" where
  "EndPoint_storage st m =
     (if ss_family st \<noteq> AF_INET_16 \<and> ss_family st \<noteq> AF_INET6_16 then None else Some (put 0 st m))"

definition EndPoint_ipv4 :: "u32 \<Rightarrow> u16 \<Rightarrow> storage \<Rightarrow> storage" where
  "EndPoint_ipv4 addr port m = put 0 (sockaddr_in addr port) m"

definition EndPoint_ipv4_bytes :: "u8 list \<Rightarrow> u16 \<Rightarrow> storage \<Rightarrow> storage" where
  "EndPoint_ipv4_bytes addr port m =
     (let caddr = rd32 (addr ! 0) (addr ! 1) (addr ! 2) (addr ! 3) in put 0 (sockaddr_in caddr port) m)"

definition ep_eq :: "storage \<Rightarrow> storage \<Rightarrow> bool option" where
  "ep_eq m n =
     (if ss_family m \<noteq> ss_family n then Some False
      else if ss_family m = AF_INET_16 then Some (take 16 m = take 16 n)
      else if ss_family m = AF_INET6_16 then Some (take 28 m = take 28 n)
      else None)"

definition ep_neq :: "storage \<Rightarrow> storage \<Rightarrow> bool option" where
  "ep_neq m n = map_option Not (ep_eq m n)"

subsection \<open>Text\<close>

definition SetAddress :: "'a moe_core_scheme \<Rightarrow> string \<Rightarrow> storage \<Rightarrow> moe_exception + storage" where
  "SetAddress C addr m =
     (case ParseIpv4 addr of
        Inl e \<Rightarrow> Inl e
      | Inr (Some v4) \<Rightarrow> Inr (SetAddressIpv4 v4 m)
      | Inr None \<Rightarrow>
          (case ParseIpv6 C addr of
             None \<Rightarrow> Inl (BadFormatException addr)
           | Some v6 \<Rightarrow> Inr (SetAddressIpv6 v6 m)))"

text \<open>The three constructors from a text: from a C string, a \<^verbatim>\<open>std::string\<close> and an \<^verbatim>\<open>ArrayView\<close>.\<close>

definition EndPoint_text :: "'a moe_core_scheme \<Rightarrow> string \<Rightarrow> u16 \<Rightarrow> storage \<Rightarrow> moe_exception + storage" where
  "EndPoint_text C addr port m = SetAddress C addr (put 0 (sockaddr_in INADDR_ANY port) m)"

definition ip4_text :: "'a moe_core_scheme \<Rightarrow> u32 \<Rightarrow> string" where
  "ip4_text C v4 =
     snd (fold (\<lambda>n (val, txt).
       (val div 256,
        (let txt = ToDecimalString C (ucast (val mod 256)) @ txt in if n < 3 then ''.'' @ txt else txt)))
       [0..<4] (v4, ''''))"

text \<open>The longest run of zeros: start of the run in progress, its length, the longest, where it starts.\<close>

definition ip6_zeros :: "bool list \<Rightarrow> nat option" where
  "ip6_zeros zero =
     (let (cur, cnt, longest, compress) =
        fold (\<lambda>start (cur, cnt, longest, compress).
          if zero ! start
          then ((if cur = None then Some start else cur), cnt + 1, longest, compress)
          else (let (longest, compress) =
                  (if cnt > longest \<and> cnt > 1 then (cnt, cur) else (longest, compress))
                in (None, 0, longest, compress)))
        [0..<8] (None, 0 :: nat, 0 :: nat, None)
      in if cnt > longest \<and> cnt > 1 then cur else compress)"

fun ip6_pieces :: "'a moe_core_scheme \<Rightarrow> u16 list \<Rightarrow> nat option \<Rightarrow> nat list \<Rightarrow> bool \<Rightarrow> string \<Rightarrow> string" where
  "ip6_pieces C v6 compress [] ignore0 txt = txt"
| "ip6_pieces C v6 compress (n # ns) ignore0 txt =
     (let piece = v6 ! n in
      if ignore0 \<and> piece = 0 then ip6_pieces C v6 compress ns ignore0 txt
      else if compress = Some n
      then ip6_pieces C v6 compress ns True (txt @ (if n = 0 then ''::'' else '':''))
      else (let txt = txt @ ToHexStringLower C piece
            in ip6_pieces C v6 compress ns False (if n < 7 then txt @ '':'' else txt)))"

definition ip6_text :: "'a moe_core_scheme \<Rightarrow> u16 list \<Rightarrow> string" where
  "ip6_text C v6 = ip6_pieces C v6 (ip6_zeros (map (\<lambda>w. w = 0) v6)) [0..<8] False ''''"

definition GetAddress :: "'a moe_core_scheme \<Rightarrow> storage \<Rightarrow> string" where
  "GetAddress C m =
     (case GetAddressIpv4 m of
        Some v4 \<Rightarrow> ip4_text C v4
      | None \<Rightarrow> (case GetAddressIpv6 m of
                   Some v6 \<Rightarrow> ''['' @ ip6_text C v6 @ '']''
                 | None \<Rightarrow> ''''))"

definition ToString :: "'a moe_core_scheme \<Rightarrow> storage \<Rightarrow> string" where
  "ToString C m = Format2 C (GetAddress C m) (GetPort m)"

definition c_core :: moe_core where
  "c_core = \<lparr>IsDigit = (\<lambda>c. c \<in> set dec_digits), IsHexDigit = (\<lambda>c. hex_value c \<noteq> None),
     HexDigitToNumber = (\<lambda>c. the (hex_value c)), ToDecimalString = (\<lambda>b. print_u (unat b)),
     ToHexStringLower = (\<lambda>w. print_x (unat w)), Format2 = (\<lambda>a p. a @ '':'' @ print_u (unat p))\<rparr>"

subsection \<open>What the code relies on\<close>

definition text_laws :: "'a moe_core_scheme \<Rightarrow> bool" where
  "text_laws C \<longleftrightarrow>
     (\<forall>c. IsDigit C c \<longleftrightarrow> c \<in> set dec_digits) \<and>
     (\<forall>c. IsHexDigit C c \<longleftrightarrow> hex_value c \<noteq> None) \<and>
     (\<forall>c k. hex_value c = Some k \<longrightarrow> HexDigitToNumber C c = k) \<and>
     (\<forall>b. ToDecimalString C b = print_u (unat b)) \<and>
     (\<forall>w. ToHexStringLower C w = print_x (unat w))"

lemma text_laws_c_core: "text_laws c_core"
  by (auto simp: text_laws_def c_core_def)

subsection \<open>Enough turns\<close>

lemma dotted_loop_end:
  "dotted_loop C numbers cur adr rest = Some (n, cur', adr', r) \<Longrightarrow> peek r = NUL"
proof (induction C numbers cur adr rest rule: dotted_loop.induct)
  case (1 C numbers cur adr rest)
  show ?case
  proof (cases "peek rest = NUL")
    case True
    with "1.prems" show ?thesis by (subst (asm) dotted_loop.simps) simp
  next
    case False
    with "1.prems" obtain val r' where
      *: "\<not> (numbers > 0 \<and> \<not> (peek rest = CHR ''.'' \<and> numbers < 4))"
      "\<not> ((if numbers > 0 then tl rest else rest) = [] \<or> \<not> IsDigit C (hd (if numbers > 0 then tl rest else rest)))"
      "dotted_number C 0xFFFFFFFF (if numbers > 0 then tl rest else rest) = Some (val, r')"
      "dotted_loop C (numbers + 1) (if numbers + 1 = 2 \<or> numbers + 1 = 4 then cur + 1 else cur)
         (adr[cur := adr ! cur * 0x100 + ucast val]) r' = Some (n, cur', adr', r)"
      by (subst (asm) dotted_loop.simps) (simp add: Let_def split: if_split_asm option.split_asm prod.split_asm)
    show ?thesis
      by (rule "1.IH" [OF False *(1) refl *(2,3) refl *(4)])
  qed
qed

lemma v6_piece_progress:
  assumes "v6_piece C (cur, cp, adr, rest) = Some (cur', cp', adr', r')"
  shows "length r' < length rest \<or> peek r' = NUL"
proof (cases "peek rest = CHR '':''")
  case True
  then obtain s where "rest = CHR '':'' # s" by (cases rest) (auto simp: peek_def NUL_def)
  then show ?thesis using assms True by (auto simp: v6_piece_def split: if_split_asm)
next
  case False
  obtain val len r where h: "hex_run C 0 0 rest = (val, len, r)" using prod_cases3 by blast
  have r: "length r \<le> length rest" using hex_run_shorter [OF h] .
  consider "peek r = CHR ''.''" | "peek r = CHR '':''" | "peek r = NUL"
    using assms False by (auto simp: v6_piece_def h split: if_split_asm)
  then show ?thesis
  proof cases
    case 1
    then obtain n where "dotted_loop C 0 cur adr rest = Some (n, cur', adr', r')"
      using assms False by (auto simp: v6_piece_def h split: if_split_asm option.split_asm)
    then show ?thesis using dotted_loop_end by blast
  next
    case 2
    then obtain s where s: "r = CHR '':'' # s" by (cases r) (auto simp: peek_def NUL_def)
    then have "r' = s" using assms False 2 by (auto simp: v6_piece_def h split: if_split_asm)
    then show ?thesis using r s by simp
  next
    case 3
    have "NUL \<noteq> CHR ''.''" "NUL \<noteq> CHR '':''" by (auto simp: NUL_def)
    then show ?thesis using assms False 3 by (auto simp: v6_piece_def h split: if_split_asm)
  qed
qed

lemma v6_loop_step:
  "peek (snd (snd (snd st))) \<noteq> NUL \<Longrightarrow> v6_piece C st = Some st' \<Longrightarrow> v6_loop C (Suc n) st = v6_loop C n st'"
  by simp

lemma v6_loop_done: "peek (snd (snd (snd st))) = NUL \<Longrightarrow> v6_loop C n st = Some st"
  by (cases n) auto

lemma v6_loop_fuel:
  "length (snd (snd (snd st))) < n \<Longrightarrow> v6_loop C (Suc n) st = v6_loop C n st"
proof (induction n arbitrary: st)
  case (Suc n)
  obtain cur cp adr rest where st: "st = (cur, cp, adr, rest)" using prod_cases4 by blast
  show ?case
  proof (cases "peek rest = NUL")
    case False
    then have "rest \<noteq> []" by (auto simp: peek_def)
    show ?thesis
    proof (cases "v6_piece C st")
      case (Some st')
      obtain cur' cp' adr' rest' where st': "st' = (cur', cp', adr', rest')" using prod_cases4 by blast
      consider "length rest' < length rest" | "peek rest' = NUL"
        using v6_piece_progress Some st st' by blast
      then have "v6_loop C (Suc n) st' = v6_loop C n st'"
      proof cases
        case 1
        then show ?thesis using Suc st st' by (intro Suc.IH) simp
      next
        case 2
        then have "peek (snd (snd (snd st'))) = NUL" by (simp add: st')
        then show ?thesis by (simp add: v6_loop_done del: v6_loop.simps)
      qed
      moreover have "v6_loop C (Suc k) st = v6_loop C k st'" for k
        using Some False st by (intro v6_loop_step) simp_all
      ultimately show ?thesis by simp
    qed (use st False in simp)
  qed (simp add: st)
qed simp

text \<open>More turns than the code takes give the same result.\<close>

lemma v6_loop_enough: "length (snd (snd (snd st))) < n \<Longrightarrow> v6_loop C (n + k) st = v6_loop C n st"
  by (induction k) (auto simp: v6_loop_fuel simp del: v6_loop.simps)

subsection \<open>Pieces of printed text\<close>

lemma peek_Cons [simp]: "peek (c # s) = c" by (simp add: peek_def)
lemma peek_Nil [simp]: "peek [] = NUL" by (simp add: peek_def)
lemma NUL_neq [simp]: "NUL \<noteq> CHR '':''" "CHR '':'' \<noteq> NUL" "NUL \<noteq> CHR ''.''" "CHR ''.'' \<noteq> NUL"
  by (auto simp: NUL_def)

lemma hex_value_NUL: "hex_value NUL = None"
  by (simp add: hex_value_def NUL_def xdigits_l_def xdigits_u_def)

lemma small_piece: "w < 65536 \<Longrightarrow> ucast (of_nat w :: u32) = (of_nat w :: u16)"
  by (simp add: unsigned_of_nat take_bit_nat_eq_self)

locale moe_text =
  fixes C :: "'a moe_core_scheme"
  assumes laws: "text_laws C"
begin

lemma hex_digit: "k < 16 \<Longrightarrow> IsHexDigit C (xdigits_l ! k) \<and> HexDigitToNumber C (xdigits_l ! k) = k"
  using laws hex_value_digit by (simp add: text_laws_def)

lemma not_hex: "hex_value c = None \<Longrightarrow> \<not> IsHexDigit C c"
  using laws by (simp add: text_laws_def)

lemma hex_run_digits:
  "length (digits 16 n) \<le> 4 \<Longrightarrow> n < 2 ^ 32 \<Longrightarrow>
   hex_run C 0 0 (digits 16 n @ s) = hex_run C (length (digits 16 n)) (of_nat n) s"
proof (induction "16 :: nat" n arbitrary: s rule: digits.induct)
  case (1 n)
  show ?case
  proof (cases "n < 16")
    case True
    then show ?thesis using hex_digit by (simp add: digits_small)
  next
    case False
    then have "hex_run C 0 0 (digits 16 n @ s)
        = hex_run C (length (digits 16 (n div 16))) (of_nat (n div 16)) (xdigits_l ! (n mod 16) # s)"
      using 1 by (simp add: digits_step)
    also have "\<dots> = hex_run C (length (digits 16 n)) (of_nat (n div 16) * 16 + of_nat (n mod 16)) s"
      using 1 False hex_digit [of "n mod 16"] by (simp add: digits_step)
    also have "(of_nat (n div 16) * 16 + of_nat (n mod 16) :: u32) = of_nat n"
      by (metis div_mult_mod_eq of_nat_add of_nat_mult of_nat_numeral)
    finally show ?thesis .
  qed
qed

lemma hex_run_print_x:
  assumes "w < 65536" and "s = [] \<or> hex_value (hd s) = None"
  shows "hex_run C 0 0 (print_x w @ s) = (of_nat w, length (print_x w), s)"
  using assms print_x_length [of w] not_hex [of "hd s"] hex_run_digits [of w "[]"]
  by (cases s) (auto simp: print_x_def hex_run_digits)

lemma peek_print_x: "peek (print_x w @ s) \<noteq> NUL \<and> peek (print_x w @ s) \<noteq> CHR '':''"
proof -
  obtain c r where cr: "print_x w = c # r" using print_x_not_Nil by (cases "print_x w") auto
  then have "c \<in> set (digits 16 w)" by (simp add: print_x_def [symmetric])
  then obtain k where "k < 16" "c = xdigits_l ! k" using digits_xdigits [of 16 c w] by auto
  then show ?thesis using cr hex_value_digit [of k] hex_value_NUL hex_value_punct(1) by auto
qed

lemma v6_piece_word:
  assumes "w < 65536" and "cur < 8" and "s \<noteq> []" and "hd s \<noteq> NUL"
  shows "v6_piece C (cur, cp, adr, print_x w @ CHR '':'' # s) = Some (cur + 1, cp, adr[cur := of_nat w], s)"
proof -
  have "peek s \<noteq> NUL" using assms by (cases s) auto
  then show ?thesis
    using assms peek_print_x [of w "CHR '':'' # s"]
    by (simp add: v6_piece_def hex_run_print_x small_piece)
qed

lemma v6_piece_last:
  assumes "w < 65536" and "cur < 8"
  shows "v6_piece C (cur, cp, adr, print_x w) = Some (cur + 1, cp, adr[cur := of_nat w], [])"
  using assms peek_print_x [of w "[]"] hex_run_print_x [of w "[]"]
  by (simp add: v6_piece_def small_piece)

lemma v6_piece_colon:
  assumes "cur < 8"
  shows "v6_piece C (cur, None, adr, CHR '':'' # s) = Some (cur + 1, Some (cur + 1), adr[cur := 0], s)"
  using assms by (simp add: v6_piece_def)

end

interpretation c_text: moe_text c_core
  by unfold_locales (rule text_laws_c_core)

subsection \<open>Parsing what is printed\<close>

abbreviation pieces :: "nat list \<Rightarrow> u16 list" where
  "pieces ws \<equiv> map of_nat ws"

abbreviation stored :: "u16 list \<Rightarrow> nat \<Rightarrow> u16 list \<Rightarrow> u16 list" where
  "stored adr cur ps \<equiv> take cur adr @ ps @ drop (cur + length ps) adr"

lemma stored_step:
  "cur + Suc (length ps) \<le> length adr \<Longrightarrow> stored (adr[cur := p]) (Suc cur) ps = stored adr cur (p # ps)"
  by (simp add: take_Suc_conv_app_nth)

lemma join_head: "ws \<noteq> [] \<Longrightarrow> \<exists>w r. join ws = print_x w @ r"
  by (cases ws rule: join.cases) auto

context moe_text
begin

lemma join_peek: "ws \<noteq> [] \<Longrightarrow> peek (join ws @ s) \<noteq> NUL \<and> peek (join ws @ s) \<noteq> CHR '':''"
proof -
  assume "ws \<noteq> []"
  then obtain w r where "join ws = print_x w @ r" using join_head by blast
  then show ?thesis using peek_print_x [of w "r @ s"] by simp
qed

lemma join_start: "ws \<noteq> [] \<Longrightarrow> join ws @ s \<noteq> [] \<and> hd (join ws @ s) \<noteq> NUL"
  using join_peek [of ws s] by (cases "join ws @ s") auto

lemma v6_loop_join:
  assumes "ws \<noteq> []" and "\<forall>w\<in>set ws. w < 65536" and "cur + length ws \<le> 8" and "length adr = 8"
    and "length ws \<le> n"
  shows "v6_loop C n (cur, cp, adr, join ws) = Some (cur + length ws, cp, stored adr cur (pieces ws), [])"
  using assms
proof (induction ws arbitrary: cur adr n rule: join.induct)
  case (2 w)
  then obtain k where n: "n = Suc k" by (cases n) auto
  have "v6_loop C n (cur, cp, adr, print_x w) = v6_loop C k (cur + 1, cp, adr[cur := of_nat w], [])"
    unfolding n using 2 peek_print_x [of w "[]"] by (intro v6_loop_step v6_piece_last) auto
  also have "\<dots> = Some (cur + 1, cp, adr[cur := of_nat w], [])"
    by (rule v6_loop_done) simp
  also have "adr[cur := of_nat w] = stored adr cur [of_nat w]"
    using 2 by (simp add: upd_conv_take_nth_drop)
  finally show ?case by simp
next
  case (3 w v vs)
  then obtain k where n: "n = Suc k" by (cases n) auto
  have "v6_loop C n (cur, cp, adr, print_x w @ CHR '':'' # join (v # vs))
      = v6_loop C k (cur + 1, cp, adr[cur := of_nat w], join (v # vs))"
    unfolding n using 3 peek_print_x [of w "CHR '':'' # join (v # vs)"] join_start [of "v # vs" "[]"]
    by (intro v6_loop_step v6_piece_word) auto
  also have "\<dots> = Some (cur + 1 + length (v # vs), cp, stored (adr[cur := of_nat w]) (cur + 1) (pieces (v # vs)), [])"
    by (rule "3.IH") (use 3 n in auto)
  also have "stored (adr[cur := of_nat w]) (cur + 1) (pieces (v # vs)) = stored adr cur (pieces (w # v # vs))"
    using 3 stored_step [of cur "pieces (v # vs)" adr "of_nat w"] by simp
  finally show ?case by simp
qed simp

lemma v6_loop_prefix:
  assumes "ws \<noteq> []" and "\<forall>w\<in>set ws. w < 65536" and "cur + length ws < 8" and "length adr = 8"
  shows "v6_loop C (n + length ws + 1) (cur, None, adr, join ws @ ''::'' @ s)
    = v6_loop C n (cur + length ws + 1, Some (cur + length ws + 1), stored adr cur (pieces ws @ [0]), s)"
  using assms
proof (induction ws arbitrary: cur adr rule: join.induct)
  case (2 w)
  have "v6_loop C (Suc (Suc n)) (cur, None, adr, print_x w @ CHR '':'' # CHR '':'' # s)
      = v6_loop C (Suc n) (cur + 1, None, adr[cur := of_nat w], CHR '':'' # s)"
    using 2 peek_print_x [of w "CHR '':'' # CHR '':'' # s"] by (intro v6_loop_step v6_piece_word) auto
  also have "\<dots> = v6_loop C n (cur + 1 + 1, Some (cur + 1 + 1), adr[cur := of_nat w, cur + 1 := 0], s)"
    using 2 by (intro v6_loop_step v6_piece_colon) auto
  also have "adr[cur := of_nat w, cur + 1 := 0] = stored adr cur [of_nat w, 0]"
    using 2 by (simp add: upd_conv_take_nth_drop take_Suc_conv_app_nth drop_update_swap)
  finally show ?case by simp
next
  case (3 w v vs)
  have "v6_loop C (Suc (n + length (v # vs) + 1)) (cur, None, adr, print_x w @ CHR '':'' # join (v # vs) @ ''::'' @ s)
      = v6_loop C (n + length (v # vs) + 1) (cur + 1, None, adr[cur := of_nat w], join (v # vs) @ ''::'' @ s)"
    using 3 peek_print_x [of w "CHR '':'' # join (v # vs) @ ''::'' @ s"] join_start [of "v # vs" "''::'' @ s"]
    by (intro v6_loop_step v6_piece_word) auto
  also have "\<dots> = v6_loop C n (cur + 1 + length (v # vs) + 1, Some (cur + 1 + length (v # vs) + 1),
      stored (adr[cur := of_nat w]) (cur + 1) (pieces (v # vs) @ [0]), s)"
    by (rule "3.IH") (use 3 in auto)
  also have "stored (adr[cur := of_nat w]) (cur + 1) (pieces (v # vs) @ [0]) = stored adr cur (pieces (w # v # vs) @ [0])"
    using 3 stored_step [of cur "pieces (v # vs) @ [0]" adr "of_nat w"] by simp
  finally show ?case by simp
qed simp

end

lemma v6_swap_move:
  assumes "length pre = c" and "0 < c"
  shows "v6_swap c (c + length ps + z - 1) (length ps) (pre @ ps @ replicate z 0 @ suf)
    = pre @ replicate z 0 @ ps @ suf"
proof (induction ps arbitrary: suf rule: rev_induct)
  case (snoc p qs)
  let ?a = "pre @ (qs @ [p]) @ replicate z 0 @ suf" and ?j = "c + length qs" and ?m = "c + length qs + z"
  obtain k where k: "?m = Suc k" using assms by (cases ?m) auto
  have swap: "?a[?m := ?a ! ?j, ?j := ?a ! ?m] = pre @ qs @ replicate z 0 @ p # suf"
  proof (cases z)
    case 0
    then show ?thesis using assms by (simp add: nth_append list_update_append)
  next
    case (Suc y)
    have "replicate z (0 :: u16) = replicate y 0 @ [0]" by (simp add: Suc replicate_append_same)
    then show ?thesis using assms Suc by (simp add: nth_append list_update_append nth_Cons' list_update.simps(2) split: nat.split)
  qed
  have "v6_swap c (c + length (qs @ [p]) + z - 1) (length (qs @ [p])) ?a
      = v6_swap c k (length qs) (?a[?m := ?a ! ?j, ?j := ?a ! ?m])"
    using k by (simp add: Let_def)
  also have "\<dots> = pre @ replicate z 0 @ qs @ p # suf"
    unfolding swap using snoc [of "p # suf"] k by simp
  finally show ?case by simp
qed simp

lemma v6_swap_eq:
  assumes "c + length post \<le> 8" and "length pre = c" and "0 < c"
  shows "v6_swap c 7 (length post) (pre @ post @ replicate (8 - c - length post) 0)
    = pre @ replicate (8 - c - length post) 0 @ post"
  using assms v6_swap_move [of pre c post "8 - c - length post" "[]"] by simp

lemma join_length_ge: "length ws \<le> length (join ws)"
proof (induction ws rule: join.induct)
  case (2 w)
  have "print_x w \<noteq> []" by simp
  then show ?case by (simp add: Suc_le_eq del: print_x_not_Nil)
qed auto

context moe_text
begin

lemma ParseIpv6_full:
  assumes "length ws = 8" and "\<forall>w\<in>set ws. w < 65536"
  shows "ParseIpv6 C (join ws) = Some (pieces ws)"
proof -
  have "ws \<noteq> []" using assms by auto
  moreover have "8 \<le> length (join ws)" using join_length_ge [of ws] assms by simp
  ultimately show ?thesis
    using assms join_peek [of ws "[]"] v6_loop_join [of ws 0 "replicate 8 0" "length (join ws) + 1" None]
    by (simp add: ParseIpv6_def v6_finish_def del: v6_loop.simps)
qed

lemma ParseIpv6_compressed:
  assumes "length pre + length post \<le> 7" and "\<forall>w\<in>set (pre @ post). w < 65536"
  shows "ParseIpv6 C (join pre @ ''::'' @ join post)
    = Some (pieces pre @ replicate (8 - (length pre + length post)) 0 @ pieces post)"
proof -
  let ?c = "length pre + 1" and ?s = "join pre @ ''::'' @ join post" and ?z = "replicate 8 (0 :: u16)"
  let ?adr = "(pieces pre @ [0]) @ replicate (8 - ?c) 0"
  have post: "v6_loop C n (?c, Some ?c, ?adr, join post)
      = Some (?c + length post, Some ?c, (pieces pre @ [0]) @ pieces post @ replicate (8 - ?c - length post) 0, [])"
    if "length post \<le> n" for n
  proof (cases "post = []")
    case True
    then show ?thesis using v6_loop_done [of "(?c, Some ?c, ?adr, join post)" C n] by simp
  next
    case False
    have "v6_loop C n (?c, Some ?c, ?adr, join post)
        = Some (?c + length post, Some ?c, stored ?adr ?c (pieces post), [])"
      using assms that False by (intro v6_loop_join) auto
    also have "stored ?adr ?c (pieces post) = (pieces pre @ [0]) @ pieces post @ replicate (8 - ?c - length post) 0"
      by simp
    finally show ?thesis .
  qed
  have start: "ParseIpv6 C ?s = (case v6_loop C n (?c, Some ?c, ?adr, join post) of None \<Rightarrow> None | Some st \<Rightarrow> v6_finish st)"
    if "n = length ?s + 1 - (if pre = [] then 0 else length pre + 1)" for n
  proof (cases "pre = []")
    case True
    have "?z = 0 # replicate 7 0" by (simp add: numeral_eq_Suc)
    then show ?thesis using True that by (simp add: ParseIpv6_def del: v6_loop.simps)
  next
    case False
    have "length ?s + 1 = n + length pre + 1" using that False join_length_ge [of pre] by simp
    moreover have "v6_loop C (n + length pre + 1) (0, None, ?z, join pre @ ''::'' @ join post)
        = v6_loop C n (0 + length pre + 1, Some (0 + length pre + 1), stored ?z 0 (pieces pre @ [0]), join post)"
      using assms False by (intro v6_loop_prefix) auto
    ultimately show ?thesis
      using join_peek [OF False, of "''::'' @ join post"]
      by (simp add: ParseIpv6_def del: v6_loop.simps)
  qed
  have "length post \<le> length ?s + 1 - (if pre = [] then 0 else length pre + 1)"
    using join_length_ge [of pre] join_length_ge [of post] by (simp, arith)
  moreover have "8 - (length pre + length post) = Suc (7 - (length pre + length post))" using assms by simp
  then have "replicate (8 - (length pre + length post)) (0 :: u16) = 0 # replicate (7 - (length pre + length post)) 0"
    by simp
  ultimately show ?thesis
    using start [OF refl] post v6_swap_eq [of ?c "pieces post" "pieces pre @ [0]"] assms
    by (simp add: v6_finish_def)
qed

end

subsection \<open>The printed text\<close>

definition zeros_ok :: "bool list \<Rightarrow> bool" where
  "zeros_ok zero = (case ip6_zeros zero of None \<Rightarrow> True | Some b \<Rightarrow> b < 8 \<and> 2 \<le> length (takeWhile id (drop b zero)))"

lemma zeros_ok_all: "list_all zeros_ok (List.n_lists 8 [True, False])"
  by code_simp

lemma zeros_cases:
  assumes "length zero = 8"
  obtains "ip6_zeros zero = None"
    | b l where "ip6_zeros zero = Some b" "2 \<le> l" "b + l \<le> 8" "\<forall>i. b \<le> i \<and> i < b + l \<longrightarrow> zero ! i"
        "b + l < 8 \<longrightarrow> \<not> zero ! (b + l)"
proof (cases "ip6_zeros zero")
  case (Some b)
  have "zero \<in> set (List.n_lists 8 [True, False])" using assms by (auto simp: set_n_lists)
  then have "zeros_ok zero" using zeros_ok_all by (simp add: list_all_iff)
  then have b: "b < 8" "2 \<le> length (takeWhile id (drop b zero))" by (auto simp: zeros_ok_def Some)
  let ?l = "length (takeWhile id (drop b zero))"
  show ?thesis
  proof (rule that(2))
    show "ip6_zeros zero = Some b" by (rule Some)
    show "2 \<le> ?l" by (rule b)
    show "b + ?l \<le> 8" using b length_takeWhile_le [of id "drop b zero"] assms by simp
    show "\<forall>i. b \<le> i \<and> i < b + ?l \<longrightarrow> zero ! i"
    proof (intro allI impI)
      fix i assume i: "b \<le> i \<and> i < b + ?l"
      then have "i - b < ?l" by arith
      from set_takeWhileD [OF nth_mem [OF this]] have "takeWhile id (drop b zero) ! (i - b)" by simp
      with \<open>i - b < ?l\<close> show "zero ! i" using i b assms by (simp add: takeWhile_nth)
    qed
    show "b + ?l < 8 \<longrightarrow> \<not> zero ! (b + ?l)"
      using nth_length_takeWhile [of id "drop b zero"] assms b by auto
  qed
qed (use that in auto)

context moe_text
begin

lemma hex_text: "ToHexStringLower C w = print_x (unat w)"
  using laws by (simp add: text_laws_def)

lemma ip6_pieces_plain:
  assumes "\<forall>n\<in>set ns. compress \<noteq> Some n"
  shows "ip6_pieces C v6 compress (ns @ ms) False t0
    = ip6_pieces C v6 compress ms False
        (t0 @ concat (map (\<lambda>n. print_x (unat (v6 ! n)) @ (if n < 7 then '':'' else '''')) ns))"
  using assms by (induction ns arbitrary: t0) (auto simp: hex_text Let_def)

lemma ip6_pieces_zeros:
  "\<forall>n\<in>set ns. v6 ! n = 0 \<Longrightarrow>
   ip6_pieces C v6 compress (ns @ ms) True t0 = ip6_pieces C v6 compress ms True t0"
  by (induction ns) auto

lemma ip6_pieces_run:
  assumes "2 \<le> l" and "\<forall>i. b \<le> i \<and> i < b + l \<longrightarrow> v6 ! i = 0"
  shows "ip6_pieces C v6 (Some b) ([b..<b + l] @ ms) False t0
    = ip6_pieces C v6 (Some b) ms True (t0 @ (if b = 0 then ''::'' else '':''))"
proof -
  have "[b..<b + l] = b # [b + 1..<b + l]" using assms by (simp add: upt_conv_Cons)
  then show ?thesis using assms ip6_pieces_zeros [of "[b + 1..<b + l]" v6 "Some b" ms] by simp
qed

lemma ip6_pieces_resume:
  assumes "ns = [] \<or> v6 ! hd ns \<noteq> 0" and "compress \<notin> Some ` set ns"
  shows "ip6_pieces C v6 compress ns True t0 = ip6_pieces C v6 compress ns False t0"
  using assms by (cases ns) auto

end

lemma concat_colons_before:
  assumes "ns \<noteq> []" and "\<forall>n\<in>set ns. n < (7 :: nat)"
  shows "concat (map (\<lambda>n. f n @ (if n < 7 then '':'' else '''')) ns) = concat (map (\<lambda>n. f n @ '':'') ns)"
  using assms by (intro arg_cong [where f = concat] map_cong) auto

lemma join_before: "ws \<noteq> [] \<Longrightarrow> concat (map (\<lambda>w. print_x w @ '':'') ws) = join ws @ '':''"
  by (induction ws rule: join.induct) auto

lemma join_after:
  assumes "ns \<noteq> []" and "\<forall>n\<in>set (butlast ns). n < (7 :: nat)" and "last ns = 7"
  shows "concat (map (\<lambda>n. print_x (f n) @ (if n < 7 then '':'' else '''')) ns) = join (map f ns)"
  using assms
proof (induction ns rule: induct_list012)
  case (3 n m ns)
  then show ?case by simp
qed auto

context moe_text
begin

lemma ip6_text_cases:
  assumes "length v6 = 8"
  shows "(ip6_text C v6 = join (map unat v6)) \<or>
    (\<exists>b l. 2 \<le> l \<and> b + l \<le> 8 \<and> (\<forall>i. b \<le> i \<and> i < b + l \<longrightarrow> v6 ! i = 0) \<and>
      ip6_text C v6 = join (map unat (take b v6)) @ ''::'' @ join (map unat (drop (b + l) v6)))"
proof -
  have V: "map (\<lambda>n. unat (v6 ! n)) [i..<j] = map unat (drop i (take j v6))" if "j \<le> 8" for i j
    using assms that by (intro map_upt_eqI) auto
  have "length (map (\<lambda>w. w = 0) v6) = 8" using assms by simp
  then show ?thesis
  proof (cases rule: zeros_cases)
    case 1
    have "ip6_text C v6 = join (map (\<lambda>n. unat (v6 ! n)) [0..<8])"
      unfolding ip6_text_def 1 using ip6_pieces_plain [of "[0..<8]" None v6 "[]" "[]"]
        join_after [of "[0..<8]" "\<lambda>n. unat (v6 ! n)"] by (simp add: upt_8)
    then show ?thesis using V [of 8 0] assms by simp
  next
    case (2 b l)
    then have zero: "\<forall>i. b \<le> i \<and> i < b + l \<longrightarrow> v6 ! i = 0" and stop: "b + l < 8 \<longrightarrow> v6 ! (b + l) \<noteq> 0"
      using assms by simp_all
    obtain m where m: "8 = b + l + m" using 2(3) le_Suc_ex by blast
    have split: "[0..<8] = [0..<b] @ [b..<b + l] @ [b + l..<8]"
      unfolding m using upt_add_eq_append [of 0 "b + l" m] upt_add_eq_append [of 0 b l] by simp
    let ?pre = "map unat (take b v6)" and ?post = "map unat (drop (b + l) v6)"
    have "ip6_text C v6 = ip6_pieces C v6 (Some b) ([0..<b] @ [b..<b + l] @ [b + l..<8]) False ''''"
      unfolding ip6_text_def 2(1) split ..
    also have "\<dots> = ip6_pieces C v6 (Some b) ([b..<b + l] @ [b + l..<8]) False
        (concat (map (\<lambda>n. print_x (unat (v6 ! n)) @ (if n < 7 then '':'' else '''')) [0..<b]))"
      by (subst ip6_pieces_plain) auto
    also have "\<dots> = ip6_pieces C v6 (Some b) [b + l..<8] True
        (concat (map (\<lambda>n. print_x (unat (v6 ! n)) @ (if n < 7 then '':'' else '''')) [0..<b]) @
         (if b = 0 then ''::'' else '':''))"
      by (rule ip6_pieces_run [OF 2(2) zero])
    also have "concat (map (\<lambda>n. print_x (unat (v6 ! n)) @ (if n < 7 then '':'' else '''')) [0..<b]) @
         (if b = 0 then ''::'' else '':'') = join ?pre @ ''::''"
    proof (cases "b = 0")
      case False
      have "concat (map (\<lambda>n. print_x (unat (v6 ! n)) @ (if n < 7 then '':'' else '''')) [0..<b])
          = concat (map (\<lambda>w. print_x w @ '':'') (map (\<lambda>n. unat (v6 ! n)) [0..<b]))"
        using False 2(2,3) by (subst concat_colons_before) (auto simp: comp_def)
      also have "\<dots> = join ?pre @ '':''"
        using False assms V [of b 0] 2(3) by (subst join_before) auto
      finally show ?thesis using False by simp
    qed simp
    also have "ip6_pieces C v6 (Some b) [b + l..<8] True (join ?pre @ ''::'')
        = ip6_pieces C v6 (Some b) [b + l..<8] False (join ?pre @ ''::'')"
      using stop 2(2) by (intro ip6_pieces_resume) (auto simp: upt_conv_Cons)
    also have "\<dots> = (join ?pre @ ''::'') @
        concat (map (\<lambda>n. print_x (unat (v6 ! n)) @ (if n < 7 then '':'' else '''')) [b + l..<8])"
      using ip6_pieces_plain [of "[b + l..<8]" "Some b" v6 "[]"] 2(2) by simp
    also have "concat (map (\<lambda>n. print_x (unat (v6 ! n)) @ (if n < 7 then '':'' else '''')) [b + l..<8]) = join ?post"
    proof (cases "b + l = 8")
      case True
      then show ?thesis using assms by simp
    next
      case False
      then have "[b + l..<8] = [b + l..<7] @ [7]" using 2(3) upt_Suc_append [of "b + l" 7] by simp
      then show ?thesis
        using V [of 8 "b + l"] assms by (subst join_after) (auto simp: butlast_append)
    qed
    finally show ?thesis using 2(2,3) zero by auto
  qed
qed

lemma ParseIpv6_text:
  assumes "length v6 = 8"
  shows "ParseIpv6 C (ip6_text C v6) = Some v6"
proof -
  have small: "unat (w :: u16) < 65536" for w using unsigned_less [of w, where ?'a = nat] by simp
  have unat_inv: "pieces (map unat ws) = ws" for ws :: "u16 list" by (simp add: comp_def)
  consider "ip6_text C v6 = join (map unat v6)"
    | b l where "2 \<le> l" "b + l \<le> 8" "\<forall>i. b \<le> i \<and> i < b + l \<longrightarrow> v6 ! i = 0"
        "ip6_text C v6 = join (map unat (take b v6)) @ ''::'' @ join (map unat (drop (b + l) v6))"
    using ip6_text_cases [OF assms] by auto
  then show ?thesis
  proof cases
    case 1
    then show ?thesis using ParseIpv6_full [of "map unat v6"] assms small unat_inv by simp
  next
    case (2 b l)
    have "ParseIpv6 C (ip6_text C v6)
        = Some (pieces (map unat (take b v6)) @ replicate l 0 @ pieces (map unat (drop (b + l) v6)))"
    proof -
      have "length (map unat (take b v6)) + length (map unat (drop (b + l) v6)) \<le> 7"
        using 2 assms by simp
      moreover have "\<forall>w\<in>set (map unat (take b v6) @ map unat (drop (b + l) v6)). w < 65536"
        using small by auto
      ultimately show ?thesis
        unfolding 2(4) using ParseIpv6_compressed [of "map unat (take b v6)" "map unat (drop (b + l) v6)"] 2 assms
        by simp
    qed
    also have "\<dots> = Some (take b v6 @ replicate l 0 @ drop (b + l) v6)" by (simp only: unat_inv)
    also have "replicate l 0 = take l (drop b v6)" using 2 assms by (intro nth_equalityI) auto
    also have "take b v6 @ take l (drop b v6) @ drop (b + l) v6 = v6"
      by (metis append_take_drop_id drop_drop add.commute)
    finally show ?thesis .
  qed
qed

end

subsection \<open>IPv4 text\<close>

lemma digit_code: "d < 10 \<Longrightarrow> (of_char (xdigits_l ! d) :: nat) = 48 + d"
  using xdigit_cases [of d] by (auto simp: xdigits_l_def)

lemma v4_number_digit:
  assumes "d < 10" and "k < 1000"
  shows "v4_number_loop 10 (of_nat k) (xdigits_l ! d # s) = v4_number_loop 10 (of_nat (k * 10 + d)) s"
proof -
  have r: "\<not> in_range (CHR ''a'') (xdigits_l ! d) (CHR ''f'')" "\<not> in_range (CHR ''A'') (xdigits_l ! d) (CHR ''F'')"
    "in_range (CHR ''0'') (xdigits_l ! d) (CHR ''9'')"
    using digit_code [OF assms(1)] assms(1) by (simp_all add: in_range_def)
  have "unat (of_nat k :: u64) = k" "unat (of_nat (k * 10 + d) :: u64) = k * 10 + d"
    using assms by (simp_all add: unat_of_nat take_bit_nat_eq_self del: of_nat_add of_nat_mult)
  then have "of_nat k \<noteq> UINT64_MAX" "\<not> of_nat (k * 10 + d) > UINT32_MAX"
    using assms by (auto simp: UINT64_MAX_def UINT32_MAX_def word_less_nat_alt)
  then show ?thesis
    using r digit_code [OF assms(1)] by (simp add: v4_digit_def)
qed

lemma xdigits_l_0: "d < 10 \<Longrightarrow> xdigits_l ! d = CHR ''0'' \<longleftrightarrow> d = 0"
  using xdigit_cases [of d] by (auto simp: xdigits_l_def)

lemma ParseIpv4Number_print:
  assumes "n < 256"
  shows "ParseIpv4Number (print_u n) = Some (of_nat n)"
proof -
  have step: "v4_number_loop 10 0 (xdigits_l ! d # s) = v4_number_loop 10 (of_nat d) s" if "d < 10" for d s
    using v4_number_digit [OF that, of 0 s] by simp
  consider "n < 10" | "10 \<le> n" "n < 100" | "100 \<le> n" by linarith
  then show ?thesis
  proof cases
    case 1
    then show ?thesis by (simp add: print_u_1 ParseIpv4Number_def step del: v4_number_loop.simps(2))
  next
    case 2
    then have "n div 10 < 10" "n div 10 \<noteq> 0" by auto
    then show ?thesis using 2
      by (simp add: print_u_2 ParseIpv4Number_def step v4_number_digit xdigits_l_0 del: v4_number_loop.simps(2))
  next
    case 3
    have "n div 100 = n div 10 div 10" using div_mult2_eq [of n 10 10] by simp
    then have e: "n div 100 * 10 + n div 10 mod 10 = n div 10" by simp
    have "n div 100 < 10" "n div 100 \<noteq> 0" using 3 assms by auto
    then show ?thesis using 3 assms e
      by (simp add: print_u_3 ParseIpv4Number_def step v4_number_digit xdigits_l_0 del: v4_number_loop.simps(2))
  qed
qed

lemma print_u_plain: "c \<in> set (print_u n) \<Longrightarrow> c \<noteq> CHR ''.'' \<and> c \<noteq> NUL"
  using print_u_hex [of c n] hex_value_punct(2) hex_value_NUL by auto

lemma v4_parts_skip:
  assumes "\<forall>c\<in>set ds. c \<noteq> CHR ''.'' \<and> c \<noteq> NUL"
  shows "v4_parts (ds @ s) part tb nums = v4_parts s (part @ ds) tb nums"
  using assms
proof (induction ds arbitrary: part)
  case (Cons c ds)
  have "v4_parts (c # ds @ s) part tb nums = v4_parts (ds @ s) (part @ [c]) tb nums"
    using Cons.prems by (subst v4_parts.simps) simp
  then show ?case using Cons by simp
qed simp

lemma v4_parts_number:
  assumes "n < 256" and "length nums < 4" and "s \<noteq> []"
  shows "v4_parts (print_u n @ CHR ''.'' # s) [] tb nums = v4_parts s [] tb (nums @ [of_nat n])"
proof -
  have small: "\<not> (of_nat n :: u64) > 255"
    using assms(1) by (simp add: word_less_nat_alt unat_of_nat take_bit_nat_eq_self)
  have "v4_parts (print_u n @ CHR ''.'' # s) [] tb nums = v4_parts (CHR ''.'' # s) (print_u n) tb nums"
    using print_u_plain by (subst v4_parts_skip) auto
  also have "\<dots> = v4_parts s [] tb (nums @ [of_nat n])"
    using assms small ParseIpv4Number_print [OF assms(1)] by (subst v4_parts.simps) (auto simp: Let_def Suc_le_eq)
  finally show ?thesis .
qed

lemma v4_parts_last:
  assumes "n < 256" and "length nums < 4"
  shows "v4_parts (print_u n) [] tb nums = Some (tb, nums @ [of_nat n])"
proof -
  have small: "\<not> (of_nat n :: u64) > 255"
    using assms(1) by (simp add: word_less_nat_alt unat_of_nat take_bit_nat_eq_self)
  have "v4_parts (print_u n) [] tb nums = v4_parts [] (print_u n) tb nums"
    using print_u_plain [of _ n] v4_parts_skip [of "print_u n" "[]" "[]"] by auto
  also have "\<dots> = Some (tb, nums @ [of_nat n])"
    using assms small ParseIpv4Number_print [OF assms(1)] by (subst v4_parts.simps) (auto simp: Let_def)
  finally show ?thesis .
qed

lemma ParseIpv4_dotted:
  assumes "a < 256" "b < 256" "c < 256" "d < 256"
  shows "ParseIpv4 (print_u a @ ''.'' @ print_u b @ ''.'' @ print_u c @ ''.'' @ print_u d)
    = Inr (Some (of_nat (d + 256 * (c + 256 * (b + 256 * a)))))"
proof -
  have "v4_parts (print_u a @ ''.'' @ print_u b @ ''.'' @ print_u c @ ''.'' @ print_u d) [] 0 []
      = Some (0, [of_nat a, of_nat b, of_nat c, of_nat d])"
    using assms by (simp add: v4_parts_number v4_parts_last)
  moreover have "\<not> uint (of_nat d :: u64) \<ge> 256"
    using assms(4) by (simp add: unsigned_of_nat take_bit_nat_eq_self)
  moreover have "(of_nat d + of_nat a * 16777216 + of_nat b * 65536 + of_nat c * 256 :: u64)
      = of_nat (d + 256 * (c + 256 * (b + 256 * a)))"
    by (simp add: algebra_simps)
  then have "ucast (of_nat d + of_nat a * 16777216 + of_nat b * 65536 + of_nat c * 256 :: u64)
      = (of_nat (d + 256 * (c + 256 * (b + 256 * a))) :: u32)"
    by (simp only: unsigned_of_nat word_of_nat_eq_iff) simp
  ultimately show ?thesis
    by (simp add: ParseIpv4_def Let_def upt_rec del: of_nat_add of_nat_mult)
qed

lemma byte_of: "unat (ucast (w :: 'a :: len word) :: u8) = unat w mod 256"
  by (simp add: unsigned_ucast_eq take_bit_eq_mod)

definition ip4_bytes :: "u32 \<Rightarrow> nat list" where
  "ip4_bytes v = [unat v div 16777216, unat v div 65536 mod 256, unat v div 256 mod 256, unat v mod 256]"

lemma ip4_bytes_small: "unat (v :: u32) div 16777216 < 256"
  using unsigned_less [of v, where ?'a = nat] by (simp add: less_mult_imp_div_less)

lemma ip4_bytes_value:
  "(n :: nat) mod 256 + 256 * (n div 256 mod 256 + 256 * (n div 65536 mod 256 + 256 * (n div 16777216))) = n"
proof -
  have "n div 65536 = n div 256 div 256" "n div 16777216 = n div 256 div 256 div 256"
    by (simp_all add: div_mult2_eq [symmetric])
  then show ?thesis by (metis mod_mult_div_eq)
qed

context moe_text
begin

lemma ip4_text_eq:
  "ip4_text C v = print_u (unat v div 16777216) @ ''.'' @ print_u (unat v div 65536 mod 256) @ ''.'' @
     print_u (unat v div 256 mod 256) @ ''.'' @ print_u (unat v mod 256)"
proof -
  have "unat v div 256 div 256 div 256 mod 256 = unat v div 16777216"
    using ip4_bytes_small [of v] by (simp add: div_mult2_eq [symmetric])
  moreover have "unat v div 256 div 256 = unat v div 65536" by (simp add: div_mult2_eq [symmetric])
  ultimately show ?thesis
    using laws by (simp add: ip4_text_def text_laws_def byte_of upt_rec unat_div unat_mod)
qed

lemma ParseIpv4_text: "ParseIpv4 (ip4_text C v) = Inr (Some v)"
proof -
  have "ParseIpv4 (ip4_text C v) = Inr (Some (of_nat (unat v mod 256 + 256 * (unat v div 256 mod 256 +
      256 * (unat v div 65536 mod 256 + 256 * (unat v div 16777216))))))"
    unfolding ip4_text_eq by (rule ParseIpv4_dotted) (use ip4_bytes_small in auto)
  then show ?thesis unfolding ip4_bytes_value by simp
qed

end

subsection \<open>Text that is not IPv4\<close>

definition no_digit :: "char \<Rightarrow> bool" where
  "no_digit c \<longleftrightarrow> c = CHR '':'' \<or> c = CHR ''[''"

lemma no_digit_range:
  assumes "no_digit c"
  shows "\<not> in_range (CHR ''a'') c (CHR ''f'')" "\<not> in_range (CHR ''A'') c (CHR ''F'')" "\<not> in_range (CHR ''0'') c (CHR ''9'')"
  using assms by (auto simp: no_digit_def in_range_def)

lemma v4_number_colon: "\<exists>c\<in>set s. no_digit c \<Longrightarrow> v4_number_loop radix r s = None"
proof (induction s arbitrary: radix r)
  case (Cons c s)
  show ?case
  proof (cases "no_digit c")
    case True
    then show ?thesis by (simp add: no_digit_range)
  next
    case False
    then have "v4_number_loop q r' s = None" for q r' using Cons by auto
    then show ?thesis by (simp add: Let_def)
  qed
qed simp

lemma ParseIpv4Number_colon:
  assumes "\<exists>c\<in>set s. no_digit c"
  shows "ParseIpv4Number s = None"
proof -
  have d: "\<not> no_digit (CHR ''0'')" "\<not> no_digit (CHR ''x'')" "\<not> no_digit (CHR ''X'')" by (auto simp: no_digit_def)
  obtain radix t where t: "ParseIpv4Number s = (if t = [] then Some 0 else v4_number_loop radix 0 t)"
    "\<exists>c\<in>set t. no_digit c"
  proof (cases "length s \<ge> 2")
    case True
    then obtain x y r where s: "s = x # y # r" by (cases s rule: remdups_adj.cases) auto
    consider "x = CHR ''0''" "y = CHR ''x'' \<or> y = CHR ''X''" | "x = CHR ''0''" "\<not> (y = CHR ''x'' \<or> y = CHR ''X'')"
      | "x \<noteq> CHR ''0''" by blast
    then show ?thesis
    proof cases
      case 1
      then show ?thesis using that [of r 16] s assms d by (auto simp: ParseIpv4Number_def)
    next
      case 2
      then show ?thesis using that [of "y # r" 8] s assms d by (auto simp: ParseIpv4Number_def)
    next
      case 3
      then show ?thesis using that [of s 10] s assms by (auto simp: ParseIpv4Number_def)
    qed
  qed (use that [of s 10] assms in \<open>auto simp: ParseIpv4Number_def\<close>)
  then show ?thesis using v4_number_colon [of t radix 0] by auto
qed

lemma v4_parts_colon:
  "\<exists>c\<in>set part. no_digit c \<Longrightarrow> v4_parts s part tb nums = None"
proof (induction s arbitrary: part)
  case Nil
  then show ?case using ParseIpv4Number_colon [of part] by (subst v4_parts.simps) (auto simp: Let_def)
next
  case (Cons c s)
  then show ?case using ParseIpv4Number_colon [of part] by (subst v4_parts.simps) (auto simp: Let_def)
qed

lemma ParseIpv4_colon:
  assumes "\<forall>c\<in>set ds. c \<noteq> CHR ''.'' \<and> c \<noteq> NUL" and "\<exists>c\<in>set ds. no_digit c"
  shows "ParseIpv4 (ds @ s) = Inr None"
proof -
  have "v4_parts (ds @ s) [] 0 [] = v4_parts s ds 0 []" using v4_parts_skip [OF assms(1), of s "[]"] by simp
  then show ?thesis using v4_parts_colon [OF assms(2), of s] by (simp add: ParseIpv4_def)
qed

lemma print_x_plain: "c \<in> set (print_x n) \<Longrightarrow> c \<noteq> CHR ''.'' \<and> c \<noteq> NUL"
  using digits_xdigits [of 16 c n] hex_value_digit hex_value_punct(2) hex_value_NUL
  by (force simp: print_x_def)

lemma join_plain: "c \<in> set (join ws) \<Longrightarrow> c \<noteq> CHR ''.'' \<and> c \<noteq> NUL"
  by (induction ws rule: join.induct) (auto dest: print_x_plain simp: NUL_def)

lemma join_colon: "2 \<le> length ws \<Longrightarrow> CHR '':'' \<in> set (join ws)"
  by (cases ws rule: join.cases) auto

context moe_text
begin

lemma ip6_text_plain:
  assumes "length v6 = 8"
  shows "(\<forall>c\<in>set (ip6_text C v6). c \<noteq> CHR ''.'' \<and> c \<noteq> NUL) \<and> CHR '':'' \<in> set (ip6_text C v6)"
  using ip6_text_cases [OF assms] assms join_colon [of "map unat v6"] by (auto dest: join_plain)

lemma ParseIpv4_ip6_text: "length v6 = 8 \<Longrightarrow> ParseIpv4 (ip6_text C v6) = Inr None"
  using ParseIpv4_colon [of "ip6_text C v6" "[]"] ip6_text_plain [of v6] by (auto simp: no_digit_def)

lemma ParseIpv4_bracket: "ParseIpv4 (CHR ''['' # s) = Inr None"
  using ParseIpv4_colon [of "''[''" s] by (auto simp: NUL_def no_digit_def)

lemma ParseIpv6_bracket: "ParseIpv6 C (CHR ''['' # s) = None"
proof -
  have "hex_value (CHR ''['') = None" by (simp add: hex_value_def xdigits_l_def xdigits_u_def)
  then have "v6_piece C (0, None, a, CHR ''['' # s) = None" for a
    using not_hex [of "CHR ''[''"] by (simp add: v6_piece_def NUL_def)
  then show ?thesis by (simp add: ParseIpv6_def NUL_def)
qed

end

subsection \<open>The storage\<close>

lemma rd16_net: "rd16 (hi16 w) (lo16 w) = w"
  by (rule bit_word_eqI) (auto simp: rd16_def hi16_def lo16_def bit_simps)

lemma rd32_net:
  "rd32 (ucast (drop_bit 24 w)) (ucast (drop_bit 16 w)) (ucast (drop_bit 8 w)) (ucast w) = w"
proof (rule bit_word_eqI)
  fix n assume "n < LENGTH(32)"
  then consider "n < 8" | "8 \<le> n" "n < 16" | "16 \<le> n" "n < 24" | "24 \<le> n" "n < 32" by force
  then show "bit (rd32 (ucast (drop_bit 24 w)) (ucast (drop_bit 16 w)) (ucast (drop_bit 8 w)) (ucast w)) n = bit w n"
    by cases (simp_all add: rd32_def bit_simps less_diff_conv2)
qed

lemma length_sockaddr_in [simp]: "length (sockaddr_in a p) = 16"
  by (simp add: sockaddr_in_def host16_def net16_def net32_def)

lemma put_nth:
  "length m = 128 \<Longrightarrow> i < 16 \<Longrightarrow> put 0 (sockaddr_in a p) m ! i = sockaddr_in a p ! i"
  by (simp add: put_def nth_append)

lemma sockaddr_in_nth:
  "rd16 (sockaddr_in a p ! Suc 0) (sockaddr_in a p ! 0) = AF_INET_16"
  "rd16 (sockaddr_in a p ! 2) (sockaddr_in a p ! 3) = p"
  "rd32 (sockaddr_in a p ! 4) (sockaddr_in a p ! 5) (sockaddr_in a p ! 6) (sockaddr_in a p ! 7) = a"
  by (simp_all add: sockaddr_in_def host16_def net16_def net32_def rd16_net rd32_net)

lemma ipv4_reads [simp]:
  assumes "length m = 128"
  shows "ss_family (put 0 (sockaddr_in a p) m) = AF_INET_16"
    and "GetPort (put 0 (sockaddr_in a p) m) = p"
    and "GetAddressIpv4 (put 0 (sockaddr_in a p) m) = Some a"
  using assms by (simp_all add: ss_family_def GetPort_def GetAddressIpv4_def put_nth sockaddr_in_nth AF_INET_16_def AF_INET6_16_def)

lemma length_put [simp]: "k + length bs \<le> length m \<Longrightarrow> length (put k bs m) = length m"
  by (simp add: put_def)

subsection \<open>What an accepted IPv4 text means\<close>

lemma v4_parts_shape:
  assumes "v4_parts rest part tb nums = Some (tb', nums')"
    and "tb = length (filter (\<lambda>n. n > 255) nums)" and "length nums \<le> 4"
  shows "tb' = length (filter (\<lambda>n. n > 255) nums') \<and> length nums' \<le> 4 \<and> length nums < length nums'"
  using assms
proof (induction rest part tb nums rule: v4_parts.induct)
  case (1 rest part tb nums)
  show ?case
  proof (cases "peek rest = CHR ''.'' \<or> peek rest = NUL")
    case True
    with "1.prems"(1) obtain n where n: "\<not> length nums + 1 > 4" "part \<noteq> []" "ParseIpv4Number part = Some n"
      by (subst (asm) v4_parts.simps) (simp add: Let_def split: if_split_asm option.split_asm)
    let ?tb = "if n > 255 then tb + 1 else tb" and ?nums = "nums @ [n]"
    have inv: "?tb = length (filter (\<lambda>n. n > 255) ?nums)" "length ?nums \<le> 4" using "1.prems" n by auto
    have step: "v4_parts rest part tb nums =
        (if peek rest = CHR ''.'' \<and> length rest \<le> 1 then Some (?tb, ?nums)
         else (case rest of [] \<Rightarrow> Some (?tb, ?nums) | _ # r \<Rightarrow> v4_parts r [] ?tb ?nums))"
      using True n by (subst v4_parts.simps) (simp add: Let_def)
    show ?thesis
    proof (cases "(peek rest = CHR ''.'' \<and> length rest \<le> 1) \<or> rest = []")
      case True
      then have "tb' = ?tb" "nums' = ?nums" using step "1.prems"(1) by (auto split: if_split_asm)
      then show ?thesis using inv by simp
    next
      case False
      then obtain c r where r: "rest = c # r" by (cases rest) auto
      then have "v4_parts r [] ?tb ?nums = Some (tb', nums')" using step "1.prems"(1) False by (auto split: if_split_asm)
      from "1.IH"(1) [OF refl True n(1,2,3) refl refl _ r this inv] False r show ?thesis by auto
    qed
  next
    case False
    then obtain c r where r: "rest = c # r" by (cases rest) (auto simp: peek_def)
    have "v4_parts r (part @ [c]) tb nums = Some (tb', nums')"
      using "1.prems"(1) False r by (subst (asm) v4_parts.simps) (simp add: Let_def)
    then show ?thesis using "1.IH"(2) [OF refl False r _ "1.prems"(2,3)] by simp
  qed
qed

lemma filter_le_1:
  assumes "length (filter P xs) \<le> 1" and "xs \<noteq> []" and "length (filter P xs) = 1 \<longrightarrow> P (last xs)"
  shows "\<forall>x\<in>set (butlast xs). \<not> P x"
proof -
  obtain ys y where "xs = ys @ [y]" using assms(2) by (cases xs rule: rev_cases) auto
  then have "length (filter P ys) = 0" using assms(1,3) by (cases "P y") (auto simp: le_Suc_eq)
  then show ?thesis using \<open>xs = _\<close> by (simp add: filter_empty_conv)
qed

lemma weighted_sum:
  "fold (\<lambda>n val. val + numbers ! n * 256 ^ (3 - n)) [0..<k] (m :: u64)
   = m + of_nat (\<Sum>i<k. unat (numbers ! i) * 256 ^ (3 - i))"
  by (induction k) (simp_all add: algebra_simps)

lemma weighted_bound:
  assumes "k < 4" and "\<forall>i<k. f i \<le> (255 :: nat)"
  shows "(\<Sum>i<k. f i * 256 ^ (3 - i)) + 256 ^ (4 - k) \<le> 256 ^ 4"
  using assms
proof (induction k)
  case (Suc k)
  have "256 ^ (4 - k) = (256 :: nat) * 256 ^ (3 - k)" using Suc.prems(1) by (simp add: Suc_diff_le flip: power_Suc)
  moreover have "f k * 256 ^ (3 - k) \<le> 255 * 256 ^ (3 - k)" using Suc.prems(2) by (intro mult_le_mono1) simp
  moreover have "4 - Suc k = 3 - k" by simp
  moreover have "(\<Sum>i<k. f i * 256 ^ (3 - i)) + 256 ^ (4 - k) \<le> 256 ^ 4" using Suc by simp
  ultimately show ?case by (simp only: sum.lessThan_Suc)
qed simp

text \<open>
  C35. An accepted IPv4 text has one to four numbers, all but the last at most 255 and the last below
  the power of 256 that is left, and the address is their weighted sum: neither the 64 bit sum nor the
  conversion to 32 bits wraps.
\<close>

theorem ipv4_value:
  assumes "ParseIpv4 s = Inr (Some v)"
  shows "\<exists>tb numbers. v4_parts s [] 0 [] = Some (tb, numbers) \<and> numbers \<noteq> [] \<and> length numbers \<le> 4 \<and>
    (\<forall>n\<in>set (butlast numbers). unat n \<le> 255) \<and>
    unat (last numbers) < 256 ^ (5 - length numbers) \<and>
    unat v = unat (last numbers) + (\<Sum>i<length numbers - 1. unat (numbers ! i) * 256 ^ (3 - i))"
proof -
  obtain tb numbers where p: "v4_parts s [] 0 [] = Some (tb, numbers)"
    using assms by (auto simp: ParseIpv4_def split: option.splits)
  have shape: "tb = length (filter (\<lambda>n. n > 255) numbers)" "length numbers \<le> 4" "numbers \<noteq> []"
    using v4_parts_shape [OF p] by auto
  define k where "k = length numbers - 1"
  have k: "k < 4" "5 - length numbers = 4 - k" "numbers ! (length numbers - 1) = last numbers"
    using shape by (cases numbers; auto simp: k_def last_conv_nth)+
  have last_nth: "numbers ! k = last numbers" using k(3) by (simp add: k_def)
  let ?m = "last numbers" and ?S = "\<Sum>i<k. unat (numbers ! i) * 256 ^ (3 - i)"
  have ok: "\<not> (tb > 1 \<or> tb = 1 \<and> ?m \<le> 255 \<or> uint ?m \<ge> 256 ^ (4 - k))"
    and v: "v = ucast (fold (\<lambda>n val. val + numbers ! n * 256 ^ (3 - n)) [0..<k] ?m)"
  proof -
    have e: "ParseIpv4 s = (if tb > 1 \<or> tb = 1 \<and> ?m \<le> 255 \<or> uint ?m \<ge> 256 ^ (4 - k) then Inl (BadFormatException s)
        else Inr (Some (ucast (fold (\<lambda>n val. val + numbers ! n * 256 ^ (3 - n)) [0..<k] ?m))))"
      by (simp only: ParseIpv4_def p option.case prod.case Let_def k(2) last_nth k_def [symmetric])
    show "\<not> (tb > 1 \<or> tb = 1 \<and> ?m \<le> 255 \<or> uint ?m \<ge> 256 ^ (4 - k))"
      using assms unfolding e by (simp split: if_split_asm)
    show "v = ucast (fold (\<lambda>n val. val + numbers ! n * 256 ^ (3 - n)) [0..<k] ?m)"
      using assms unfolding e by (simp split: if_split_asm)
  qed
  have small: "\<forall>n\<in>set (butlast numbers). \<not> n > 255"
    using ok shape by (intro filter_le_1) auto
  have le: "\<forall>i<k. unat (numbers ! i) \<le> 255"
  proof (intro allI impI)
    fix i assume "i < k"
    then have "numbers ! i \<in> set (butlast numbers)" by (metis k_def length_butlast nth_butlast nth_mem)
    then show "unat (numbers ! i) \<le> 255" using small by (auto simp: word_less_nat_alt not_less)
  qed
  have "int (unat ?m) < int (256 ^ (4 - k))" using ok by simp
  then have last: "unat ?m < 256 ^ (4 - k)" by (simp only: of_nat_less_iff)
  then have "unat ?m + ?S < 256 ^ 4" using weighted_bound [OF k(1) le] by simp
  define N where "N = unat ?m + ?S"
  have "N < 2 ^ 32" using \<open>unat ?m + ?S < 256 ^ 4\<close> by (simp add: N_def)
  moreover have "v = of_nat N"
  proof -
    have "?m + of_nat ?S = of_nat (unat ?m + ?S)" by simp
    then show ?thesis unfolding v weighted_sum by (simp only: unsigned_of_nat word_of_nat_eq_iff) (simp add: N_def)
  qed
  ultimately have "unat v = N" by (simp add: unat_of_nat take_bit_nat_eq_self)
  moreover have "\<forall>n\<in>set (butlast numbers). unat n \<le> 255"
    using small by (auto simp: word_less_nat_alt not_less)
  moreover have "unat ?m < 256 ^ (5 - length numbers)" using last k(2) by simp
  ultimately show ?thesis using p shape(2,3)
    by (intro exI [of _ tb] exI [of _ numbers]) (simp only: N_def k_def HOL.simp_thms)
qed

theorem ipv4_value_witness:
  "\<exists>tb numbers. v4_parts ''0x7f.1'' [] 0 [] = Some (tb, numbers) \<and> numbers \<noteq> [] \<and> length numbers \<le> 4 \<and>
    (\<forall>n\<in>set (butlast numbers). unat n \<le> 255) \<and>
    unat (last numbers) < 256 ^ (5 - length numbers) \<and>
    unat (0x7f000001 :: u32) = unat (last numbers) + (\<Sum>i<length numbers - 1. unat (numbers ! i) * 256 ^ (3 - i))"
  by (rule ipv4_value) code_simp

text \<open>
  C36. The text of an IPv4 endpoint parses to the endpoint: setting the address printed from any
  endpoint on another gives that address with the other's port, and the constructor is read back.
\<close>

theorem endpoint_ipv4_roundtrip:
  assumes "text_laws C" and "length m = 128" and "length n = 128"
  shows "SetAddress C (GetAddress C (EndPoint_ipv4 a p m)) n = Inr (SetAddressIpv4 a n) \<and>
    GetAddressIpv4 (SetAddressIpv4 a n) = Some a \<and> GetPort (SetAddressIpv4 a n) = GetPort n \<and>
    GetPort (EndPoint_ipv4 a p m) = p"
proof -
  have "moe_text C" using assms(1) by (rule moe_text.intro)
  from moe_text.ParseIpv4_text [OF this]
  show ?thesis using assms
    by (simp add: SetAddress_def GetAddress_def EndPoint_ipv4_def SetAddressIpv4_def)
qed

theorem endpoint_ipv4_roundtrip_witness:
  "SetAddress c_core (GetAddress c_core (EndPoint_ipv4 0x7F000001 80 (replicate 128 0))) (replicate 128 7)
     = Inr (SetAddressIpv4 0x7F000001 (replicate 128 7)) \<and>
    GetAddressIpv4 (SetAddressIpv4 0x7F000001 (replicate 128 7)) = Some 0x7F000001 \<and>
    GetPort (SetAddressIpv4 0x7F000001 (replicate 128 7)) = GetPort (replicate 128 7) \<and>
    GetPort (EndPoint_ipv4 0x7F000001 80 (replicate 128 0)) = 80"
  by (rule endpoint_ipv4_roundtrip [OF text_laws_c_core]) simp_all

text \<open>
  C34. The compressed text that \<^verbatim>\<open>GetAddress\<close> prints between the brackets parses to the pieces it was
  printed from, for every IPv6 address; it never parses as an IPv4 address.
\<close>

theorem ipv6_text_roundtrip:
  assumes "text_laws C" and "length v6 = 8"
  shows "ParseIpv6 C (ip6_text C v6) = Some v6 \<and> ParseIpv4 (ip6_text C v6) = Inr None"
proof -
  have "moe_text C" using assms(1) by (rule moe_text.intro)
  then show ?thesis using assms moe_text.ParseIpv6_text moe_text.ParseIpv4_ip6_text by blast
qed

theorem ipv6_text_roundtrip_witness:
  "ParseIpv6 c_core (ip6_text c_core [0xfe80, 0, 0, 0, 5, 0, 0, 1]) = Some [0xfe80, 0, 0, 0, 5, 0, 0, 1] \<and>
   ParseIpv4 (ip6_text c_core [0xfe80, 0, 0, 0, 5, 0, 0, 1]) = Inr None"
  by (rule ipv6_text_roundtrip [OF text_laws_c_core]) simp

text \<open>
  C37. What \<^verbatim>\<open>GetAddress\<close> gives for an IPv6 endpoint is refused by \<^verbatim>\<open>SetAddress\<close>, because it prints
  brackets that neither parser knows; and an IPv6 text without them is accepted but leaves the endpoint as it was.
\<close>

theorem endpoint_ipv6_text_lost:
  assumes "text_laws C" and "ss_family m = AF_INET6_16" and "length v6 = 8"
  shows "SetAddress C (GetAddress C m) n = Inl (BadFormatException (GetAddress C m)) \<and>
    SetAddress C (ip6_text C v6) n = Inr n"
proof -
  have C: "moe_text C" using assms(1) by (rule moe_text.intro)
  obtain s where s: "GetAddress C m = CHR ''['' # s"
    using assms(2) by (simp add: GetAddress_def GetAddressIpv4_def GetAddressIpv6_def AF_INET_16_def AF_INET6_16_def)
  show ?thesis
    using moe_text.ParseIpv4_bracket [OF C, of s] moe_text.ParseIpv6_bracket [OF C, of s]
      moe_text.ParseIpv6_text [OF C assms(3)] moe_text.ParseIpv4_ip6_text [OF C assms(3)]
    by (simp add: SetAddress_def s SetAddressIpv6_def)
qed

theorem endpoint_ipv6_text_lost_witness:
  "SetAddress c_core (GetAddress c_core ([10, 0] @ replicate 126 0)) (replicate 128 7)
     = Inl (BadFormatException (GetAddress c_core ([10, 0] @ replicate 126 0))) \<and>
   SetAddress c_core (ip6_text c_core (replicate 8 0)) (replicate 128 7) = Inr (replicate 128 7)"
  by (rule endpoint_ipv6_text_lost [OF text_laws_c_core])
    (simp_all add: ss_family_def rd16_def AF_INET6_16_def)

end
