(* ===== verification/UvError.thy ===== *)
theory UvError
  imports Cstring
begin

text \<open>
  Error codes: the table \<^verbatim>\<open>UV_ERRNO_MAP\<close> of \<^verbatim>\<open>3rd/libuv/include/uv.h\<close>, their values in
  \<^verbatim>\<open>include/uv/errno.h\<close>, their names and messages in \<^verbatim>\<open>src/uv-common.c\<close>, and the translations of foreign
  codes in \<^verbatim>\<open>src/win/error.c\<close> and \<^verbatim>\<open>src/unix/getaddrinfo.c\<close>.

  What the headers of the platform define is a parameter: \<open>E\<close> gives the value of an errno name of
  \<^verbatim>\<open><errno.h>\<close>, and is empty on Windows, where the code ignores that header. The names of the tables are
  the names of the macros.
\<close>

subsection \<open>The tables\<close>

definition errno_map_1 :: "(string \<times> string) list" where
  "errno_map_1 = [
    (''E2BIG'', ''argument list too long''), (''EACCES'', ''permission denied''),
    (''EADDRINUSE'', ''address already in use''), (''EADDRNOTAVAIL'', ''address not available''),
    (''EAFNOSUPPORT'', ''address family not supported''), (''EAGAIN'', ''resource temporarily unavailable''),
    (''EAI_ADDRFAMILY'', ''address family not supported''), (''EAI_AGAIN'', ''temporary failure''),
    (''EAI_BADFLAGS'', ''bad ai_flags value''), (''EAI_BADHINTS'', ''invalid value for hints''),
    (''EAI_CANCELED'', ''request canceled''), (''EAI_FAIL'', ''permanent failure''),
    (''EAI_FAMILY'', ''ai_family not supported''), (''EAI_MEMORY'', ''out of memory''),
    (''EAI_NODATA'', ''no address''), (''EAI_NONAME'', ''unknown node or service''),
    (''EAI_OVERFLOW'', ''argument buffer overflow''), (''EAI_PROTOCOL'', ''resolved protocol is unknown''),
    (''EAI_SERVICE'', ''service not available for socket type''),
    (''EAI_SOCKTYPE'', ''socket type not supported''), (''EALREADY'', ''connection already in progress''),
    (''EBADF'', ''bad file descriptor''), (''EBUSY'', ''resource busy or locked''),
    (''ECANCELED'', ''operation canceled''), (''ECHARSET'', ''invalid Unicode character''),
    (''ECONNABORTED'', ''software caused connection abort''), (''ECONNREFUSED'', ''connection refused''),
    (''ECONNRESET'', ''connection reset by peer''), (''EDESTADDRREQ'', ''destination address required''),
    (''EEXIST'', ''file already exists''), (''EFAULT'', ''bad address in system call argument''),
    (''EFBIG'', ''file too large''), (''EHOSTUNREACH'', ''host is unreachable''),
    (''EINTR'', ''interrupted system call''), (''EINVAL'', ''invalid argument''), (''EIO'', ''i/o error''),
    (''EISCONN'', ''socket is already connected''), (''EISDIR'', ''illegal operation on a directory''),
    (''ELOOP'', ''too many symbolic links encountered'')]"

definition errno_map_2 :: "(string \<times> string) list" where
  "errno_map_2 = [
    (''EMFILE'', ''too many open files''), (''EMSGSIZE'', ''message too long''),
    (''ENAMETOOLONG'', ''name too long''), (''ENETDOWN'', ''network is down''),
    (''ENETUNREACH'', ''network is unreachable''), (''ENFILE'', ''file table overflow''),
    (''ENOBUFS'', ''no buffer space available''), (''ENODEV'', ''no such device''),
    (''ENOENT'', ''no such file or directory''), (''ENOMEM'', ''not enough memory''),
    (''ENONET'', ''machine is not on the network''), (''ENOPROTOOPT'', ''protocol not available''),
    (''ENOSPC'', ''no space left on device''), (''ENOSYS'', ''function not implemented''),
    (''ENOTCONN'', ''socket is not connected''), (''ENOTDIR'', ''not a directory''),
    (''ENOTEMPTY'', ''directory not empty''), (''ENOTSOCK'', ''socket operation on non-socket''),
    (''ENOTSUP'', ''operation not supported on socket''), (''EPERM'', ''operation not permitted''),
    (''EPIPE'', ''broken pipe''), (''EPROTO'', ''protocol error''),
    (''EPROTONOSUPPORT'', ''protocol not supported''), (''EPROTOTYPE'', ''protocol wrong type for socket''),
    (''ERANGE'', ''result too large''), (''EROFS'', ''read-only file system''),
    (''ESHUTDOWN'', ''cannot send after transport endpoint shutdown''), (''ESPIPE'', ''invalid seek''),
    (''ESRCH'', ''no such process''), (''ETIMEDOUT'', ''connection timed out''),
    (''ETXTBSY'', ''text file is busy''), (''EXDEV'', ''cross-device link not permitted''),
    (''UNKNOWN'', ''unknown error''), (''EOF'', ''end of file''), (''ENXIO'', ''no such device or address''),
    (''EMLINK'', ''too many links''), (''EHOSTDOWN'', ''host is down''),
    (''EREMOTEIO'', ''remote I/O error''), (''ENOTTY'', ''inappropriate ioctl for device''),
    (''EFTYPE'', ''inappropriate file type or format'')]"

definition errno_map :: "(string \<times> string) list" where
  "errno_map = errno_map_1 @ errno_map_2"

definition errno_fixed :: "(string \<times> int) list" where
  "errno_fixed = [
    (''EOF'', - 4095), (''UNKNOWN'', - 4094), (''EAI_ADDRFAMILY'', - 3000), (''EAI_AGAIN'', - 3001),
    (''EAI_BADFLAGS'', - 3002), (''EAI_CANCELED'', - 3003), (''EAI_FAIL'', - 3004), (''EAI_FAMILY'', - 3005),
    (''EAI_MEMORY'', - 3006), (''EAI_NODATA'', - 3007), (''EAI_NONAME'', - 3008), (''EAI_OVERFLOW'', - 3009),
    (''EAI_SERVICE'', - 3010), (''EAI_SOCKTYPE'', - 3011), (''EAI_BADHINTS'', - 3013),
    (''EAI_PROTOCOL'', - 3014)]"

text \<open>The values where the platform has none.\<close>

definition errno_fallback_1 :: "(string \<times> int) list" where
  "errno_fallback_1 = [
    (''E2BIG'', - 4093), (''EACCES'', - 4092), (''EADDRINUSE'', - 4091), (''EADDRNOTAVAIL'', - 4090),
    (''EAFNOSUPPORT'', - 4089), (''EAGAIN'', - 4088), (''EALREADY'', - 4084), (''EBADF'', - 4083),
    (''EBUSY'', - 4082), (''ECANCELED'', - 4081), (''ECHARSET'', - 4080), (''ECONNABORTED'', - 4079),
    (''ECONNREFUSED'', - 4078), (''ECONNRESET'', - 4077), (''EDESTADDRREQ'', - 4076), (''EEXIST'', - 4075),
    (''EFAULT'', - 4074), (''EHOSTUNREACH'', - 4073), (''EINTR'', - 4072), (''EINVAL'', - 4071),
    (''EIO'', - 4070), (''EISCONN'', - 4069), (''EISDIR'', - 4068), (''ELOOP'', - 4067)]"

definition errno_fallback_2 :: "(string \<times> int) list" where
  "errno_fallback_2 = [
    (''EMFILE'', - 4066), (''EMSGSIZE'', - 4065), (''ENAMETOOLONG'', - 4064), (''ENETDOWN'', - 4063),
    (''ENETUNREACH'', - 4062), (''ENFILE'', - 4061), (''ENOBUFS'', - 4060), (''ENODEV'', - 4059),
    (''ENOENT'', - 4058), (''ENOMEM'', - 4057), (''ENONET'', - 4056), (''ENOSPC'', - 4055),
    (''ENOSYS'', - 4054), (''ENOTCONN'', - 4053), (''ENOTDIR'', - 4052), (''ENOTEMPTY'', - 4051),
    (''ENOTSOCK'', - 4050), (''ENOTSUP'', - 4049), (''EPERM'', - 4048), (''EPIPE'', - 4047),
    (''EPROTO'', - 4046), (''EPROTONOSUPPORT'', - 4045), (''EPROTOTYPE'', - 4044), (''EROFS'', - 4043)]"

definition errno_fallback_3 :: "(string \<times> int) list" where
  "errno_fallback_3 = [
    (''ESHUTDOWN'', - 4042), (''ESPIPE'', - 4041), (''ESRCH'', - 4040), (''ETIMEDOUT'', - 4039),
    (''ETXTBSY'', - 4038), (''EXDEV'', - 4037), (''EFBIG'', - 4036), (''ENOPROTOOPT'', - 4035),
    (''ERANGE'', - 4034), (''ENXIO'', - 4033), (''EMLINK'', - 4032), (''EHOSTDOWN'', - 4031),
    (''EREMOTEIO'', - 4030), (''ENOTTY'', - 4029), (''EFTYPE'', - 4028)]"

definition errno_fallback :: "(string \<times> int) list" where
  "errno_fallback = errno_fallback_1 @ errno_fallback_2 @ errno_fallback_3"

definition sys_errors_1 :: "(string \<times> string) list" where
  "sys_errors_1 = [
    (''ERROR_NOACCESS'', ''EACCES''), (''WSAEACCES'', ''EACCES''),
    (''ERROR_ELEVATION_REQUIRED'', ''EACCES''), (''ERROR_ADDRESS_ALREADY_ASSOCIATED'', ''EADDRINUSE''),
    (''WSAEADDRINUSE'', ''EADDRINUSE''), (''WSAEADDRNOTAVAIL'', ''EADDRNOTAVAIL''),
    (''WSAEAFNOSUPPORT'', ''EAFNOSUPPORT''), (''WSAEWOULDBLOCK'', ''EAGAIN''),
    (''WSAEALREADY'', ''EALREADY''), (''ERROR_INVALID_FLAGS'', ''EBADF''),
    (''ERROR_INVALID_HANDLE'', ''EBADF''), (''ERROR_LOCK_VIOLATION'', ''EBUSY''),
    (''ERROR_PIPE_BUSY'', ''EBUSY''), (''ERROR_SHARING_VIOLATION'', ''EBUSY''),
    (''ERROR_OPERATION_ABORTED'', ''ECANCELED''), (''WSAEINTR'', ''ECANCELED''),
    (''ERROR_NO_UNICODE_TRANSLATION'', ''ECHARSET''), (''ERROR_CONNECTION_ABORTED'', ''ECONNABORTED''),
    (''WSAECONNABORTED'', ''ECONNABORTED''), (''ERROR_CONNECTION_REFUSED'', ''ECONNREFUSED''),
    (''WSAECONNREFUSED'', ''ECONNREFUSED''), (''ERROR_NETNAME_DELETED'', ''ECONNRESET''),
    (''WSAECONNRESET'', ''ECONNRESET''), (''ERROR_ALREADY_EXISTS'', ''EEXIST''),
    (''ERROR_FILE_EXISTS'', ''EEXIST''), (''ERROR_BUFFER_OVERFLOW'', ''EFAULT''),
    (''WSAEFAULT'', ''EFAULT''), (''ERROR_HOST_UNREACHABLE'', ''EHOSTUNREACH''),
    (''WSAEHOSTUNREACH'', ''EHOSTUNREACH''), (''ERROR_INSUFFICIENT_BUFFER'', ''EINVAL''),
    (''ERROR_INVALID_DATA'', ''EINVAL''), (''ERROR_INVALID_PARAMETER'', ''EINVAL''),
    (''ERROR_SYMLINK_NOT_SUPPORTED'', ''EINVAL''), (''WSAEINVAL'', ''EINVAL''),
    (''WSAEPFNOSUPPORT'', ''EINVAL''), (''WSAESOCKTNOSUPPORT'', ''EINVAL''),
    (''ERROR_BEGINNING_OF_MEDIA'', ''EIO''), (''ERROR_BUS_RESET'', ''EIO''), (''ERROR_CRC'', ''EIO''),
    (''ERROR_DEVICE_DOOR_OPEN'', ''EIO''), (''ERROR_DEVICE_REQUIRES_CLEANING'', ''EIO''),
    (''ERROR_DISK_CORRUPT'', ''EIO''), (''ERROR_EOM_OVERFLOW'', ''EIO''),
    (''ERROR_FILEMARK_DETECTED'', ''EIO''), (''ERROR_GEN_FAILURE'', ''EIO''),
    (''ERROR_INVALID_BLOCK_LENGTH'', ''EIO''), (''ERROR_IO_DEVICE'', ''EIO''),
    (''ERROR_NO_DATA_DETECTED'', ''EIO'')]"

definition sys_errors_2 :: "(string \<times> string) list" where
  "sys_errors_2 = [
    (''ERROR_NO_SIGNAL_SENT'', ''EIO''), (''ERROR_OPEN_FAILED'', ''EIO''),
    (''ERROR_SETMARK_DETECTED'', ''EIO''), (''ERROR_SIGNAL_REFUSED'', ''EIO''),
    (''WSAEISCONN'', ''EISCONN''), (''ERROR_CANT_RESOLVE_FILENAME'', ''ELOOP''),
    (''ERROR_TOO_MANY_OPEN_FILES'', ''EMFILE''), (''WSAEMFILE'', ''EMFILE''),
    (''WSAEMSGSIZE'', ''EMSGSIZE''), (''ERROR_FILENAME_EXCED_RANGE'', ''ENAMETOOLONG''),
    (''ERROR_NETWORK_UNREACHABLE'', ''ENETUNREACH''), (''WSAENETUNREACH'', ''ENETUNREACH''),
    (''WSAENOBUFS'', ''ENOBUFS''), (''ERROR_BAD_PATHNAME'', ''ENOENT''), (''ERROR_DIRECTORY'', ''ENOENT''),
    (''ERROR_FILE_NOT_FOUND'', ''ENOENT''), (''ERROR_INVALID_NAME'', ''ENOENT''),
    (''ERROR_INVALID_DRIVE'', ''ENOENT''), (''ERROR_INVALID_REPARSE_DATA'', ''ENOENT''),
    (''ERROR_MOD_NOT_FOUND'', ''ENOENT''), (''ERROR_PATH_NOT_FOUND'', ''ENOENT''),
    (''WSAHOST_NOT_FOUND'', ''ENOENT''), (''WSANO_DATA'', ''ENOENT''),
    (''ERROR_NOT_ENOUGH_MEMORY'', ''ENOMEM''), (''ERROR_OUTOFMEMORY'', ''ENOMEM''),
    (''ERROR_CANNOT_MAKE'', ''ENOSPC''), (''ERROR_DISK_FULL'', ''ENOSPC''),
    (''ERROR_EA_TABLE_FULL'', ''ENOSPC''), (''ERROR_END_OF_MEDIA'', ''ENOSPC''),
    (''ERROR_HANDLE_DISK_FULL'', ''ENOSPC''), (''ERROR_NOT_CONNECTED'', ''ENOTCONN''),
    (''WSAENOTCONN'', ''ENOTCONN''), (''ERROR_DIR_NOT_EMPTY'', ''ENOTEMPTY''),
    (''WSAENOTSOCK'', ''ENOTSOCK''), (''ERROR_NOT_SUPPORTED'', ''ENOTSUP''),
    (''ERROR_BROKEN_PIPE'', ''EOF''), (''ERROR_ACCESS_DENIED'', ''EPERM''),
    (''ERROR_PRIVILEGE_NOT_HELD'', ''EPERM''), (''ERROR_BAD_PIPE'', ''EPIPE''),
    (''ERROR_NO_DATA'', ''EPIPE''), (''ERROR_PIPE_NOT_CONNECTED'', ''EPIPE''), (''WSAESHUTDOWN'', ''EPIPE''),
    (''WSAEPROTONOSUPPORT'', ''EPROTONOSUPPORT''), (''ERROR_WRITE_PROTECT'', ''EROFS''),
    (''ERROR_SEM_TIMEOUT'', ''ETIMEDOUT''), (''WSAETIMEDOUT'', ''ETIMEDOUT''),
    (''ERROR_NOT_SAME_DEVICE'', ''EXDEV''), (''ERROR_INVALID_FUNCTION'', ''EISDIR''),
    (''ERROR_META_EXPANSION_TOO_LONG'', ''E2BIG'')]"

definition eai_errors :: "(string \<times> string) list" where
  "eai_errors = [
    (''EAI_ADDRFAMILY'', ''EAI_ADDRFAMILY''), (''EAI_AGAIN'', ''EAI_AGAIN''),
    (''EAI_BADFLAGS'', ''EAI_BADFLAGS''), (''EAI_BADHINTS'', ''EAI_BADHINTS''),
    (''EAI_CANCELED'', ''EAI_CANCELED''), (''EAI_FAIL'', ''EAI_FAIL''), (''EAI_FAMILY'', ''EAI_FAMILY''),
    (''EAI_MEMORY'', ''EAI_MEMORY''), (''EAI_NODATA'', ''EAI_NODATA''), (''EAI_NONAME'', ''EAI_NONAME''),
    (''EAI_OVERFLOW'', ''EAI_OVERFLOW''), (''EAI_PROTOCOL'', ''EAI_PROTOCOL''),
    (''EAI_SERVICE'', ''EAI_SERVICE''), (''EAI_SOCKTYPE'', ''EAI_SOCKTYPE'')]"

subsection \<open>The functions\<close>

text \<open>The value of \<^verbatim>\<open>UV_name\<close>.\<close>

definition uv_code :: "(string \<rightharpoonup> int) \<Rightarrow> string \<Rightarrow> int option" where
  "uv_code E name =
     (case map_of errno_fixed name of
        Some c \<Rightarrow> Some c
      | None \<Rightarrow> (case map_of errno_fallback name of
                   None \<Rightarrow> None
                 | Some c \<Rightarrow> Some (case E name of Some n \<Rightarrow> - n | None \<Rightarrow> c)))"

definition print_d :: "int \<Rightarrow> string" where
  "print_d i = (if i < 0 then ''-'' @ print_u (nat (- i)) else print_u (nat i))"

text \<open>\<^verbatim>\<open>snprintf\<close> into a buffer of \<open>n\<close> bytes; nothing is written when \<open>n\<close> is 0.\<close>

definition snprintf :: "nat \<Rightarrow> string \<Rightarrow> string option" where
  "snprintf n s = (if n = 0 then None else Some (take (n - 1) s))"

definition unknown_error :: "int \<Rightarrow> string" where
  "unknown_error err = ''Unknown system error '' @ print_d err"

text \<open>\<open>alloc\<close> tells whether \<^verbatim>\<open>uv__strdup\<close> gets its memory.\<close>

definition uv__unknown_err_code :: "bool \<Rightarrow> int \<Rightarrow> string" where
  "uv__unknown_err_code alloc err =
     (case snprintf 32 (unknown_error err) of
        Some buf \<Rightarrow> (if alloc then buf else ''Unknown system error'')
      | None \<Rightarrow> [])"

definition find_code :: "(string \<rightharpoonup> int) \<Rightarrow> int \<Rightarrow> (string \<times> string) option" where
  "find_code E err = find (\<lambda>(name, msg). uv_code E name = Some err) errno_map"

definition uv_err_name :: "(string \<rightharpoonup> int) \<Rightarrow> bool \<Rightarrow> int \<Rightarrow> string" where
  "uv_err_name E alloc err =
     (case find_code E err of Some (name, msg) \<Rightarrow> name | None \<Rightarrow> uv__unknown_err_code alloc err)"

definition uv_err_name_r :: "(string \<rightharpoonup> int) \<Rightarrow> int \<Rightarrow> nat \<Rightarrow> string option" where
  "uv_err_name_r E err buflen =
     (case find_code E err of Some (name, msg) \<Rightarrow> snprintf buflen name | None \<Rightarrow> snprintf buflen (unknown_error err))"

definition uv_strerror :: "(string \<rightharpoonup> int) \<Rightarrow> bool \<Rightarrow> int \<Rightarrow> string" where
  "uv_strerror E alloc err =
     (case find_code E err of Some (name, msg) \<Rightarrow> msg | None \<Rightarrow> uv__unknown_err_code alloc err)"

definition uv_strerror_r :: "(string \<rightharpoonup> int) \<Rightarrow> int \<Rightarrow> nat \<Rightarrow> string option" where
  "uv_strerror_r E err buflen =
     (case find_code E err of Some (name, msg) \<Rightarrow> snprintf buflen msg | None \<Rightarrow> snprintf buflen (unknown_error err))"

text \<open>
  \<open>W\<close> gives the value of a system error name of Windows, where \<open>E\<close> is empty.
\<close>

definition uv_translate_sys_error :: "(string \<Rightarrow> int) \<Rightarrow> int \<Rightarrow> int" where
  "uv_translate_sys_error W sys_errno =
     (if sys_errno \<le> 0 then sys_errno
      else case find (\<lambda>(name, uv). W name = sys_errno) (sys_errors_1 @ sys_errors_2) of
             Some (name, uv) \<Rightarrow> the (uv_code Map.empty uv)
           | None \<Rightarrow> the (uv_code Map.empty ''UNKNOWN''))"

text \<open>
  \<open>N\<close> gives the value of an \<^verbatim>\<open>EAI_\<close> name of \<^verbatim>\<open><netdb.h>\<close> where it has one. The switch has no case
  for \<^verbatim>\<open>EAI_NONAME\<close> when that is \<^verbatim>\<open>EAI_NODATA\<close>, which comes first.
\<close>

definition uv__getaddrinfo_translate_error :: "(string \<rightharpoonup> int) \<Rightarrow> int \<Rightarrow> int \<Rightarrow> int option" where
  "uv__getaddrinfo_translate_error N errno sys_err =
     (if sys_err = 0 then Some 0
      else case find (\<lambda>(name, uv). N name = Some sys_err) eai_errors of
             Some (name, uv) \<Rightarrow> uv_code Map.empty uv
           | None \<Rightarrow> if N ''EAI_SYSTEM'' = Some sys_err then Some (- errno) else None)"

subsection \<open>The tables are consistent\<close>

lemma errno_map_codes: "list_all (\<lambda>(n, m). uv_code Map.empty n \<noteq> None) errno_map"
  by code_simp

lemma errno_map_names: "distinct (map fst errno_map)"
  by code_simp

lemma errno_codes_distinct: "distinct (map snd (errno_fixed @ errno_fallback))"
  by code_simp

lemma errno_codes_low: "list_all (\<lambda>(n, c). c \<le> - 3000) (errno_fixed @ errno_fallback)"
  by code_simp

lemma sys_errors_known: "list_all (\<lambda>(n, u). u \<in> set (map fst errno_map)) (sys_errors_1 @ sys_errors_2)"
  by code_simp

lemma find_unique:
  "x \<in> set xs \<Longrightarrow> P x \<Longrightarrow> \<forall>y\<in>set xs. P y \<longrightarrow> y = x \<Longrightarrow> find P xs = Some x"
proof (induction xs)
  case (Cons y ys)
  show ?case
  proof (cases "P y")
    case True
    moreover have "y = x" using Cons.prems(3) True by simp
    ultimately show ?thesis by simp
  next
    case False
    then have "x \<in> set ys" using Cons.prems(1,2) by auto
    moreover have "\<forall>z\<in>set ys. P z \<longrightarrow> z = x" using Cons.prems(3) by (meson list.set_intros(2))
    ultimately have "find P ys = Some x" using Cons.prems(2) by (intro Cons.IH)
    then show ?thesis using False by simp
  qed
qed simp

definition errno_ok :: "(string \<rightharpoonup> int) \<Rightarrow> bool" where
  "errno_ok E \<longleftrightarrow>
     (\<forall>n c. E n = Some c \<longrightarrow> 0 < c \<and> c < 3000) \<and>
     (\<forall>n m c. n \<in> fst ` set errno_fallback \<and> m \<in> fst ` set errno_fallback \<and> E n = Some c \<and> E m = Some c \<longrightarrow> n = m)"

lemma errno_ok_empty: "errno_ok Map.empty"
  by (simp add: errno_ok_def)

lemma map_of_code:
  assumes "map_of (errno_fixed @ errno_fallback) n = Some c" and "map_of (errno_fixed @ errno_fallback) m = Some c"
  shows "n = m"
proof -
  have "(n, c) \<in> set (errno_fixed @ errno_fallback)" "(m, c) \<in> set (errno_fixed @ errno_fallback)"
    using assms by (blast dest: map_of_SomeD)+
  then show ?thesis using errno_codes_distinct by (metis (no_types, lifting) distinct_map fst_conv inj_onD snd_conv)
qed

lemma uv_code_fixed: "map_of errno_fixed n = Some c \<Longrightarrow> uv_code E n = Some c"
  by (simp add: uv_code_def)

lemma uv_code_other:
  "map_of errno_fixed n = None \<Longrightarrow> map_of errno_fallback n = Some d \<Longrightarrow>
   uv_code E n = Some (case E n of Some e \<Rightarrow> - e | None \<Rightarrow> d)"
  by (simp add: uv_code_def)

lemma uv_code_none:
  "map_of errno_fixed n = None \<Longrightarrow> map_of errno_fallback n = None \<Longrightarrow> uv_code E n = None"
  by (simp add: uv_code_def)

lemma uv_code_cases:
  assumes "uv_code E n = Some c" and "errno_ok E"
  obtains "map_of (errno_fixed @ errno_fallback) n = Some c" "c \<le> - 3000"
    | "n \<in> fst ` set errno_fallback" "E n = Some (- c)" "- 3000 < c" "c < 0"
proof -
  have low: "c \<le> - 3000" if "map_of (errno_fixed @ errno_fallback) n = Some c"
    using map_of_SomeD [OF that] errno_codes_low unfolding list_all_iff by blast
  show ?thesis
  proof (cases "map_of errno_fixed n")
    case None
    then obtain d where d: "map_of errno_fallback n = Some d"
      using assms(1) uv_code_none [of n E] by (cases "map_of errno_fallback n") simp_all
    then have n: "n \<in> fst ` set errno_fallback" using map_of_SomeD [OF d] by (metis fst_conv image_eqI)
    have c: "c = (case E n of Some e \<Rightarrow> - e | None \<Rightarrow> d)" using uv_code_other [OF None d, of E] assms(1) by simp
    show ?thesis
    proof (cases "E n")
      case None
      then have "map_of (errno_fixed @ errno_fallback) n = Some c"
        using c d \<open>map_of errno_fixed n = None\<close> by (simp add: map_add_def)
      then show ?thesis using low that(1) by blast
    next
      case (Some e)
      then have "0 < e" "e < 3000" "c = - e" using c assms(2) by (simp_all add: errno_ok_def)
      then show ?thesis using that(2) n Some by simp
    qed
  next
    case (Some k)
    then have "map_of (errno_fixed @ errno_fallback) n = Some c"
      using uv_code_fixed [OF Some, of E] assms(1) by (simp add: map_add_def split: option.splits)
    then show ?thesis using low that(1) by blast
  qed
qed

lemma uv_code_inj:
  assumes "errno_ok E" and "uv_code E n = Some c" and "uv_code E m = Some c"
  shows "n = m"
  using assms(2)
proof (rule uv_code_cases [OF _ assms(1)])
  assume n: "map_of (errno_fixed @ errno_fallback) n = Some c" "c \<le> - 3000"
  show ?thesis
    using assms(3)
  proof (rule uv_code_cases [OF _ assms(1)])
    assume "map_of (errno_fixed @ errno_fallback) m = Some c"
    then show ?thesis by (rule map_of_code [OF n(1)])
  qed (use n in simp)
next
  assume n: "n \<in> fst ` set errno_fallback" "E n = Some (- c)" "- 3000 < c" "c < 0"
  show ?thesis
    using assms(3)
  proof (rule uv_code_cases [OF _ assms(1)])
    assume "m \<in> fst ` set errno_fallback" "E m = Some (- c)"
    then show ?thesis using n assms(1) unfolding errno_ok_def by blast
  qed (use n in simp)
qed

lemma uv_code_defined:
  assumes "(n, m) \<in> set errno_map" and "errno_ok E"
  shows "\<exists>c. uv_code E n = Some c \<and> c < 0"
proof -
  have some: "uv_code Map.empty n \<noteq> None" using assms(1) errno_map_codes unfolding list_all_iff by blast
  obtain c where c: "uv_code E n = Some c"
  proof (cases "map_of errno_fixed n")
    case None
    with some obtain d where "map_of errno_fallback n = Some d"
      using uv_code_none [of n Map.empty] by (cases "map_of errno_fallback n") simp_all
    from uv_code_other [OF None this, of E] show ?thesis by (rule that)
  next
    case (Some d)
    from uv_code_fixed [OF this, of E] show ?thesis by (rule that)
  qed
  then have "c < 0" by (rule uv_code_cases [OF _ assms(2)]) auto
  with c show ?thesis by blast
qed

lemma find_code_map:
  assumes "errno_ok E" and "(n, m) \<in> set errno_map" and "uv_code E n = Some c"
  shows "find_code E c = Some (n, m)"
proof -
  have "(a, b) = (n, m)" if "(a, b) \<in> set errno_map" "uv_code E a = Some c" for a b
  proof -
    have "a = n" using uv_code_inj [OF assms(1) that(2) assms(3)] .
    then show ?thesis using eq_key_imp_eq_value [OF errno_map_names] that(1) assms(2) by simp
  qed
  then have only: "\<forall>p\<in>set errno_map. (case p of (name, msg) \<Rightarrow> uv_code E name = Some c) \<longrightarrow> p = (n, m)"
    by blast
  have "case (n, m) of (name, msg) \<Rightarrow> uv_code E name = Some c" using assms(3) by simp
  from find_unique [OF assms(2) this only] show ?thesis unfolding find_code_def .
qed





end
