(* ===== verification/Spec2Isabelle.thy ===== *)
theory Spec2Isabelle
  imports Queue Heap UvTimer UvWatcher Sys UvIo UvAsync AsyncRace UvCore UvStream StreamWrite StreamIo UvTcp UvPipe SockFds ThreadPool Inet EndPoint UvError
begin

text \<open>
  The event loop of libuv (\<^verbatim>\<open>src/3rd/libuv\<close>) on Linux, and the socket endpoints of its C++ wrapper Moe.UV (\<^verbatim>\<open>src/src\<close>).

  \<^bold>\<open>The program.\<close> A loop owns handles (timers, watchers, async handles, poll handles, streams) and requests (writes, connects, work).
  \<^verbatim>\<open>uv_run\<close> goes round: it runs the timers that are due, the pending watchers, the idle and prepare watchers, waits for the kernel no longer
  than the next timer allows, hands the events to the I/O watchers, runs the check watchers and finishes the handles that
  were closed. Streams and sockets do their work in the callback of their I/O watcher. Other threads reach the loop only through async handles,
  and the thread pool hands its results back through one of them. The loop lives as long as it has active
  referenced handles, requests or closing handles.

  \<^bold>\<open>Theories and code.\<close> File names are below \<^verbatim>\<open>src/3rd/libuv/src\<close> if not said otherwise. Definitions have the names of the functions of the code;
  a part of a longer function that is a definition of its own has a name that says what it does.
  \<^item> \<^verbatim>\<open>Prelude\<close>, \<^verbatim>\<open>Cstring\<close>, \<^verbatim>\<open>Steps\<close>: machine integers and shared facts; strings of the C library, with the locale \<open>codec\<close> of a printer and its
    parser; the locales \<open>stepping\<close> and \<open>settling\<close> of systems of threads.
  \<^item> \<^verbatim>\<open>Queue\<close> (\<^verbatim>\<open>queue.h\<close>): each macro on a memory of \<open>next\<close> and \<open>prev\<close> pointers. It is shown that the macros act on the list of the nodes of a ring as their
    names say, and the other theories use lists.
  \<^item> \<^verbatim>\<open>Heap\<close> (\<^verbatim>\<open>heap-inl.h\<close>): insertion, removal and dequeue on nodes with pointers, refined by array operations, which keep the heap order.
  \<^item> \<^verbatim>\<open>UvBase\<close> (\<^verbatim>\<open>uv-common.h\<close>): handles, flags, references, counters, and \<^verbatim>\<open>uv_walk\<close>. \<^verbatim>\<open>UvTimer\<close> (\<^verbatim>\<open>timer.c\<close>) adds the heap of timers, \<^verbatim>\<open>UvWatcher\<close>
    (\<^verbatim>\<open>unix/loop-watcher.c\<close>) the prepare, check and idle watchers.
  \<^item> \<^verbatim>\<open>Sys\<close> (\<^verbatim>\<open>unix/core.c\<close>, \<^verbatim>\<open>unix/process.c\<close>): the interface to the kernel, and the functions that open, accept, duplicate, receive and close descriptors.
  \<^item> \<^verbatim>\<open>UvIo\<close> (\<^verbatim>\<open>unix/core.c\<close>, \<^verbatim>\<open>unix/linux-core.c\<close>): the I/O watchers, their table, and \<^verbatim>\<open>uv__io_poll\<close>. \<^verbatim>\<open>UvAsync\<close> (\<^verbatim>\<open>unix/async.c\<close>, \<^verbatim>\<open>unix/poll.c\<close>): async and poll handles.
    \<^verbatim>\<open>AsyncRace\<close> interleaves \<^verbatim>\<open>uv_async_send\<close> on other threads with the loop.
  \<^item> \<^verbatim>\<open>UvCore\<close> (\<^verbatim>\<open>unix/core.c\<close>, \<^verbatim>\<open>uv-common.c\<close>): closing, liveness, the timeout, \<^verbatim>\<open>uv_run\<close>.
  \<^item> \<^verbatim>\<open>UvStream\<close> (\<^verbatim>\<open>unix/stream.c\<close>): the code of streams. \<^verbatim>\<open>StreamWrite\<close> proves the write side against a queue of bytes, \<^verbatim>\<open>StreamIo\<close> reading, accepting
    and closing. \<^verbatim>\<open>UvTcp\<close> (\<^verbatim>\<open>unix/tcp.c\<close>) and \<^verbatim>\<open>UvPipe\<close> (\<^verbatim>\<open>unix/pipe.c\<close>) build sockets and pipes on streams; \<^verbatim>\<open>SockFds\<close> proves that they leak no descriptor.
  \<^item> \<^verbatim>\<open>ThreadPool\<close> (\<^verbatim>\<open>threadpool.c\<close>): workers, submission and cancellation, interleaved.
  \<^item> \<^verbatim>\<open>Inet\<close> (\<^verbatim>\<open>inet.c\<close>) and \<^verbatim>\<open>EndPoint\<close> (\<^verbatim>\<open>src/src/EndPoint.cpp\<close>): addresses as text and as bytes. \<^verbatim>\<open>UvError\<close> (\<^verbatim>\<open>uv.h\<close>, \<^verbatim>\<open>errno.h\<close>, \<^verbatim>\<open>uv-common.c\<close>, \<^verbatim>\<open>win/error.c\<close>):
    error codes, names and translations.

  The state is one record, extended along the imports from \<^verbatim>\<open>UvBase\<close> to \<^verbatim>\<open>UvStream\<close>; an operation of an early theory works on every extension of
  its record. A handle is named by its address, and so are a callback and a request. \<^verbatim>\<open>ThreadPool\<close> and \<^verbatim>\<open>AsyncRace\<close> have states of their own.

  \<^bold>\<open>Parameters.\<close> The kernel is a function from the calls made so far, with their results, and the next call to its result. The
  callbacks of clients are a function that changes the state. A theorem for all of them covers every run; the contracts it needs of the client (that a
  callback keeps an invariant, that a timer callback does not start timers at once) are its named hypotheses. The platform's errno values and the
  text helpers of Moe.Core, which are not in the repository, are parameters with named hypotheses.

  \<^bold>\<open>What is shown.\<close>
  \<^item> Data structures: the macros of the ring and the functions of the heap refine lists and multisets; a heap sorts; a path to a heap node fits its word.
  \<^item> Time: timers fire in the order of their due times, ties in the order of their starts, each due timer once; sums saturate; the poll
    blocks exactly if nothing is to be done, never past a timer.
  \<^item> The loop: an iteration calls back in the order of its phases, each closed handle gets one close callback, a walk
    visits every handle, the accounting of handles and of the table of watchers is invariant.
  \<^item> Streams: what the kernel gets is a prefix of what was written, in order; every request is answered once; reading ends after at most 32 calls and
    hands on what was read; clients get the accepted descriptors in order.
  \<^item> Descriptors: no operation on sockets, pipes and streams leaks one, on any path of errors, and closing gives all back.
  \<^item> Threads: no wake-up is lost, every send and every piece of work is answered, the threads come to rest in a bounded number of steps; cancelled work never runs.
  \<^item> Text: printing and parsing of addresses and error names are inverse, with their buffers large enough; where they are not (\<^verbatim>\<open>EndPoint\<close>), the theorem says so.

  \<^bold>\<open>Bounds and termination.\<close> A function that may abort, fail an assertion or loop for ever returns an \<open>option\<close>; \<open>None\<close> stands for not returning, and a theorem
  about such a function states that it returns. The retry loops on \<^verbatim>\<open>EINTR\<close>, the poll and \<^verbatim>\<open>uv_run\<close> are partial functions over \<open>option\<close>. No fuel is chosen by
  the model: the 32 rounds of \<^verbatim>\<open>uv__read\<close>, the 48 rounds of the poll and the 64 descriptors a message may carry are in the code. Times, flags, masks and
  counters of handles keep their width. The node counter of the heap is a \<open>nat\<close>, since \<open>2 ^ 32\<close> nodes do not fit into memory.

  \<^bold>\<open>Not modelled.\<close> Datagram sockets, signals, processes, inotify (closing such a handle is the argument \<open>others\<close> of \<open>uv_close\<close>); files, name resolution and \<^verbatim>\<open>fs-poll.c\<close>, which are calls of
  the system on the thread pool; allocation of a loop, queries of the system, threads, terminals and shared libraries, which are
  wrappers of calls without a state of their own; the backends of other Unix systems and of Windows; the C++ classes that forward to libuv. Memory
  ordering weaker than sequential consistency is not modelled, nor is the fork of a process that has a thread pool.
\<close>

end
